(* ===== verification/Hiway_Prelude.thy ===== *)
theory Hiway_Prelude
  imports Main "HOL-Library.Word"
begin

text \<open>
  Shared vocabulary of the development: Rust's machine integers, \<open>Result\<close>, checked and
  saturating arithmetic, little-endian byte strings, and the generic lemmas on lists, words and
  partial updates that the component theories use.

  Bit-level values (bytes, hashes, wire fields, wrapping generations) are words of their width.
  Counters the code only compares and increments with an explicit overflow check (\<open>usize\<close>
  lengths, stream sequences, saturating loss counts) are naturals, with the bound of their width
  written out by \<open>checked_add\<close>, \<open>saturating_add\<close> and the constants below. The target is a
  64-bit one: \<open>usize\<close> has 64 bits.
\<close>

unbundle bit_operations_syntax

type_synonym u8 = "8 word"
type_synonym u16 = "16 word"
type_synonym u32 = "32 word"
type_synonym u64 = "64 word"
type_synonym u128 = "128 word"
type_synonym bytes = "u8 list"

named_theorems le_simps \<open>evaluation of little-endian byte strings\<close>
named_theorems inv_intros \<open>introduction rules for component invariants\<close>

subsection \<open>Results\<close>

text \<open>Rust's \<open>Result\<close>. A panic is not a \<open>Result\<close>: operations that may panic return an
  \<open>option\<close> around their outcome, with \<open>None\<close> for the panic.\<close>

datatype ('a, 'e) result = Ok 'a | Err 'e

fun is_ok :: "('a, 'e) result \<Rightarrow> bool" where
  "is_ok (Ok _) = True"
| "is_ok (Err _) = False"

fun map_err :: "('e \<Rightarrow> 'f) \<Rightarrow> ('a, 'e) result \<Rightarrow> ('a, 'f) result" where
  "map_err f (Ok x) = Ok x"
| "map_err f (Err e) = Err (f e)"

text \<open>\<open>Result::and_then\<close>, which is also what \<open>?\<close> does between two calls.\<close>

fun and_then :: "('a, 'e) result \<Rightarrow> ('a \<Rightarrow> ('b, 'e) result) \<Rightarrow> ('b, 'e) result" where
  "and_then (Ok x) f = f x"
| "and_then (Err e) f = Err e"

lemma and_then_eq_Ok: "and_then r f = Ok y \<longleftrightarrow> (\<exists>x. r = Ok x \<and> f x = Ok y)"
  by (cases r) auto

lemma is_ok_iff: "is_ok r \<longleftrightarrow> (\<exists>x. r = Ok x)"
  by (cases r) auto

lemma map_err_eq_Ok [simp]: "map_err f r = Ok x \<longleftrightarrow> r = Ok x"
  by (cases r) auto

lemma map_err_eq_Err: "map_err f r = Err e \<longleftrightarrow> (\<exists>e'. r = Err e' \<and> e = f e')"
  by (cases r) auto

subsection \<open>Checked and saturating arithmetic\<close>

definition u32_max :: nat where "u32_max = 2 ^ 32 - 1"
definition u64_max :: nat where "u64_max = 2 ^ 64 - 1"
definition usize_max :: nat where "usize_max = 2 ^ 64 - 1"
definition isize_max :: nat where "isize_max = 2 ^ 63 - 1"

lemmas width_defs = u32_max_def u64_max_def usize_max_def isize_max_def

text \<open>\<open>checked_add\<close> and \<open>saturating_add\<close> of an unsigned type with largest value \<open>m\<close>.\<close>

definition checked_add :: "nat \<Rightarrow> nat \<Rightarrow> nat \<Rightarrow> nat option" where
  "checked_add m a b = (if a + b \<le> m then Some (a + b) else None)"

definition checked_sub :: "nat \<Rightarrow> nat \<Rightarrow> nat option" where
  "checked_sub a b = (if b \<le> a then Some (a - b) else None)"

definition saturating_add :: "nat \<Rightarrow> nat \<Rightarrow> nat \<Rightarrow> nat" where
  "saturating_add m a b = min m (a + b)"

definition checked_add_word :: "'a::len word \<Rightarrow> 'a word \<Rightarrow> 'a word option" where
  "checked_add_word a b = (if unat a + unat b < 2 ^ LENGTH('a) then Some (a + b) else None)"

lemma checked_add_eq_Some [simp]: "checked_add m a b = Some c \<longleftrightarrow> c = a + b \<and> a + b \<le> m"
  by (auto simp: checked_add_def)

lemma checked_add_eq_None [simp]: "checked_add m a b = None \<longleftrightarrow> m < a + b"
  by (auto simp: checked_add_def)

lemma checked_sub_eq_Some [simp]: "checked_sub a b = Some c \<longleftrightarrow> c = a - b \<and> b \<le> a"
  by (auto simp: checked_sub_def)

lemma checked_sub_eq_None [simp]: "checked_sub a b = None \<longleftrightarrow> a < b"
  by (auto simp: checked_sub_def)

lemma checked_add_word_eq_Some:
  "checked_add_word a b = Some c \<longleftrightarrow> c = a + b \<and> unat c = unat a + unat b"
proof -
  have "unat (a + b) = unat a + unat b \<longleftrightarrow> unat a + unat b < 2 ^ LENGTH('a)"
    by (metis unat_add_lem)
  then show ?thesis by (auto simp: checked_add_word_def)
qed

lemma saturating_add_le [simp]: "saturating_add m a b \<le> m"
  by (simp add: saturating_add_def)

lemma saturating_add_assoc:
  "saturating_add m (saturating_add m a b) c = saturating_add m a (b + c)"
  by (simp add: saturating_add_def min_def)

subsection \<open>Little-endian bytes\<close>

text \<open>\<open>to_le_bytes\<close> and \<open>from_le_bytes\<close> of an \<open>n\<close>-byte unsigned integer.\<close>

definition to_le_bytes :: "nat \<Rightarrow> 'a::len word \<Rightarrow> bytes" where
  "to_le_bytes n w = map (\<lambda>i. ucast (drop_bit (8 * i) w)) [0..<n]"

fun from_le_bytes :: "bytes \<Rightarrow> 'a::len word" where
  "from_le_bytes [] = 0"
| "from_le_bytes (b # bs) = ucast b OR push_bit 8 (from_le_bytes bs)"

lemma length_to_le_bytes [simp]: "length (to_le_bytes n w) = n"
  by (simp add: to_le_bytes_def)

lemma nth_to_le_bytes [simp]:
  "i < n \<Longrightarrow> to_le_bytes n w ! i = ucast (drop_bit (8 * i) w)"
  by (simp add: to_le_bytes_def)

lemma bit_from_le_bytes:
  "bit (from_le_bytes bs :: 'a::len word) k \<longleftrightarrow>
     k < LENGTH('a) \<and> k div 8 < length bs \<and> bit (bs ! (k div 8)) (k mod 8)"
proof (induction bs arbitrary: k)
  case Nil
  then show ?case by simp
next
  case (Cons b bs)
  show ?case
  proof (cases "k < 8")
    case True
    then show ?thesis
      by (simp add: bit_or_iff bit_push_bit_iff bit_ucast_iff)
  next
    case False
    then have d: "k div 8 = Suc ((k - 8) div 8)" and m: "k mod 8 = (k - 8) mod 8"
      by (auto simp: le_div_geq le_mod_geq)
    have "\<not> bit b k" using False bit_imp_le_length [of b k] by auto
    with False d m Cons.IH [of "k - 8"] show ?thesis
      by (auto simp: bit_or_iff bit_push_bit_iff bit_ucast_iff)
  qed
qed

lemma from_le_to_le_bytes:
  assumes "LENGTH('a) = 8 * n"
  shows "from_le_bytes (to_le_bytes n w) = (w :: 'a::len word)"
proof (rule bit_word_eqI)
  fix k assume k: "k < LENGTH('a)"
  then have n: "k div 8 < n" using assms by auto
  have "8 * (k div 8) + k mod 8 = k" by simp
  then have "bit (to_le_bytes n w ! (k div 8)) (k mod 8) \<longleftrightarrow> bit w k"
    using k n by (simp add: bit_ucast_iff bit_drop_bit_eq)
  then show "bit (from_le_bytes (to_le_bytes n w) :: 'a word) k \<longleftrightarrow> bit w k"
    using k n by (simp add: bit_from_le_bytes)
qed

lemma to_le_from_le_bytes:
  assumes len: "LENGTH('a) = 8 * n" and bs: "length bs = n"
  shows "to_le_bytes n (from_le_bytes bs :: 'a::len word) = bs"
proof (rule nth_equalityI)
  show "length (to_le_bytes n (from_le_bytes bs :: 'a word)) = length bs"
    using bs by simp
next
  fix i assume "i < length (to_le_bytes n (from_le_bytes bs :: 'a word))"
  then have i: "i < n" by simp
  have "(ucast (drop_bit (8 * i) (from_le_bytes bs :: 'a word)) :: u8) = bs ! i"
  proof (rule bit_word_eqI)
    fix k assume "k < LENGTH(8)"
    then have k: "k < 8" by simp
    have "(8 * i + k) div 8 = i" and "(8 * i + k) mod 8 = k"
      using k by auto
    moreover have "8 * i + k < LENGTH('a)" using len i k by auto
    ultimately show "bit (ucast (drop_bit (8 * i) (from_le_bytes bs :: 'a word)) :: u8) k \<longleftrightarrow>
        bit (bs ! i) k"
      using k i bs by (simp add: bit_ucast_iff bit_drop_bit_eq bit_from_le_bytes)
  qed
  then show "to_le_bytes n (from_le_bytes bs :: 'a word) ! i = bs ! i"
    using i by simp
qed

lemma to_le_bytes_inject:
  assumes "LENGTH('a) = 8 * n"
  shows "to_le_bytes n (v :: 'a::len word) = to_le_bytes n w \<longleftrightarrow> v = w"
  by (metis assms from_le_to_le_bytes)

text \<open>Buffers: \<open>output[i..i + n].copy_from_slice(value)\<close>, and the slice \<open>input[i..i + n]\<close>.\<close>

definition put_at :: "nat \<Rightarrow> bytes \<Rightarrow> bytes \<Rightarrow> bytes" where
  "put_at i v out = take i out @ v @ drop (i + length v) out"

definition sub_slice :: "nat \<Rightarrow> nat \<Rightarrow> bytes \<Rightarrow> bytes" where
  "sub_slice i n bs = take n (drop i bs)"

lemma length_put_at [simp]:
  "i + length v \<le> length out \<Longrightarrow> length (put_at i v out) = length out"
  by (simp add: put_at_def)

lemma length_sub_slice [simp]: "length (sub_slice i n bs) = min n (length bs - i)"
  by (simp add: sub_slice_def)

lemma sub_slice_put_at_same [simp]:
  "i + length v \<le> length out \<Longrightarrow> n = length v \<Longrightarrow> sub_slice i n (put_at i v out) = v"
  by (simp add: sub_slice_def put_at_def)

lemma sub_slice_put_at_before [simp]:
  "i + n \<le> j \<Longrightarrow> j + length v \<le> length out \<Longrightarrow> sub_slice i n (put_at j v out) = sub_slice i n out"
  by (simp add: sub_slice_def put_at_def drop_take min_absorb1)

lemma sub_slice_put_at_after [simp]:
  "j + length v \<le> i \<Longrightarrow> j + length v \<le> length out \<Longrightarrow> sub_slice i n (put_at j v out) = sub_slice i n out"
  by (simp add: sub_slice_def put_at_def)

lemma drop_put_at [simp]:
  "j + length v \<le> i \<Longrightarrow> j + length v \<le> length out \<Longrightarrow> drop i (put_at j v out) = drop i out"
  by (simp add: put_at_def)

lemma put_at_sub_slice_id:
  assumes "i + n \<le> length out"
  shows "put_at i (sub_slice i n out) out = out"
proof -
  have "take n (drop i out) @ drop (i + n) out = drop i out"
    by (metis add.commute append_take_drop_id drop_drop)
  moreover have "length (take n (drop i out)) = n" using assms by simp
  ultimately show ?thesis by (simp add: put_at_def sub_slice_def)
qed

lemma put_at_sub_slice_eq:
  "sub_slice i n out = v \<Longrightarrow> i + n \<le> length out \<Longrightarrow> n = length v \<Longrightarrow> put_at i v out = out"
  using put_at_sub_slice_id by blast

lemma mod_add_neq:
  fixes i j n h :: nat
  assumes "i < j" and "j < n"
  shows "(h + i) mod n \<noteq> (h + j) mod n"
proof
  assume eq: "(h + i) mod n = (h + j) mod n"
  have "n dvd (h + j) - (h + i)"
    by (rule iffD1 [OF mod_eq_dvd_iff_nat]) (use assms eq in simp_all)
  with assms show False by (auto dest: dvd_imp_le)
qed

lemma mod_add_eq_iff:
  fixes i j n h :: nat
  assumes "i < n" and "j < n"
  shows "(h + i) mod n = (h + j) mod n \<longleftrightarrow> i = j"
  using assms mod_add_neq [of i j n h] mod_add_neq [of j i n h] by (cases i j rule: linorder_cases) auto

subsection \<open>Runs\<close>

text \<open>A sequence of calls against a component, with the outputs in order. A simulation of one
  step extends to whole runs.\<close>

fun run_calls :: "('s \<Rightarrow> 'c \<Rightarrow> 's \<times> 'o) \<Rightarrow> 's \<Rightarrow> 'c list \<Rightarrow> 's \<times> 'o list" where
  "run_calls step s [] = (s, [])"
| "run_calls step s (c # cs) =
     (case step s c of (s', out) \<Rightarrow>
        (case run_calls step s' cs of (s'', outs) \<Rightarrow> (s'', out # outs)))"

lemma run_calls_Cons:
  "run_calls step s (c # cs) =
     (fst (run_calls step (fst (step s c)) cs),
      snd (step s c) # snd (run_calls step (fst (step s c)) cs))"
  by (simp split: prod.splits)

lemma run_calls_invariant:
  assumes step: "\<And>s c. good s \<Longrightarrow> good (fst (step s c))" and "good s"
  shows "good (fst (run_calls step s cs))"
  using assms(2)
  by (induction cs arbitrary: s) (simp_all add: run_calls_Cons step del: run_calls.simps(2))

lemma run_calls_simulation:
  assumes keeps: "\<And>s c. good s \<Longrightarrow> good (fst (step s c))"
    and sim: "\<And>s c. good s \<Longrightarrow> astep (view s) c = (view (fst (step s c)), snd (step s c))"
    and "good s"
  shows "run_calls astep (view s) cs = (view (fst (run_calls step s cs)), snd (run_calls step s cs))"
  using assms(3)
  by (induction cs arbitrary: s)
    (simp_all add: run_calls_Cons keeps sim del: run_calls.simps(2))

lemma run_calls_append:
  "run_calls step s (cs @ ds) =
     (fst (run_calls step (fst (run_calls step s cs)) ds),
      snd (run_calls step s cs) @ snd (run_calls step (fst (run_calls step s cs)) ds))"
  by (induction cs arbitrary: s) (simp_all add: run_calls_Cons del: run_calls.simps(2))

lemma length_run_calls [simp]: "length (snd (run_calls step s cs)) = length cs"
  by (induction cs arbitrary: s) (simp_all add: run_calls_Cons del: run_calls.simps(2))

end
