(* ===== verification/Hiway_Errors.thy ===== *)
theory Hiway_Errors
  imports Hiway_Prelude
begin

text \<open>
  The error vocabulary of \<open>hiway/src/error.rs\<close>, \<open>WireError\<close> and \<open>DecodeError\<close> of
  \<open>wire.rs\<close>, and \<open>Error\<close> of \<open>transport/mod.rs\<close>. Constructors carry the name of
  their Rust type where two types share a variant name. The operations on rejected payloads
  (\<open>map\<close>, \<open>into_inner\<close>) are modelled with their laws: a rejection never loses or
  replaces its payload, and mapping never changes the reason.
\<close>

subsection \<open>Binding errors and termination reasons\<close>

datatype event_id = EventId (as_u128: u128)

datatype topic_error =
    TopicError_Contended
  | TopicError_TypeMismatch event_id
  | TopicError_Capacity
  | TopicError_Denied
  | TopicError_Revoked
  | TopicError_InvalidConfig

datatype close_reason =
    CloseReason_Closed
  | CloseReason_Revoked
  | CloseReason_Disconnected

datatype receive_error =
    ReceiveError_Contended
  | ReceiveError_WaitersFull
  | ReceiveError_Closed close_reason

subsection \<open>Rejected publications\<close>

datatype 'v try_send_error =
    TrySend_Full 'v
  | TrySend_Contended 'v
  | TrySend_MaintenanceRequired 'v
  | TrySend_Closed 'v
  | TrySend_Revoked 'v
  | TrySend_WaitersFull 'v
  | TrySend_SequenceExhausted 'v

fun try_send_map :: "('v \<Rightarrow> 'w) \<Rightarrow> 'v try_send_error \<Rightarrow> 'w try_send_error" where
  "try_send_map f (TrySend_Full v) = TrySend_Full (f v)"
| "try_send_map f (TrySend_Contended v) = TrySend_Contended (f v)"
| "try_send_map f (TrySend_MaintenanceRequired v) = TrySend_MaintenanceRequired (f v)"
| "try_send_map f (TrySend_Closed v) = TrySend_Closed (f v)"
| "try_send_map f (TrySend_Revoked v) = TrySend_Revoked (f v)"
| "try_send_map f (TrySend_WaitersFull v) = TrySend_WaitersFull (f v)"
| "try_send_map f (TrySend_SequenceExhausted v) = TrySend_SequenceExhausted (f v)"

fun try_send_into_inner :: "'v try_send_error \<Rightarrow> 'v" where
  "try_send_into_inner (TrySend_Full v) = v"
| "try_send_into_inner (TrySend_Contended v) = v"
| "try_send_into_inner (TrySend_MaintenanceRequired v) = v"
| "try_send_into_inner (TrySend_Closed v) = v"
| "try_send_into_inner (TrySend_Revoked v) = v"
| "try_send_into_inner (TrySend_WaitersFull v) = v"
| "try_send_into_inner (TrySend_SequenceExhausted v) = v"

lemma try_send_into_inner_map [simp]:
  "try_send_into_inner (try_send_map f e) = f (try_send_into_inner e)"
  by (cases e) auto

lemma try_send_map_comp [simp]:
  "try_send_map g (try_send_map f e) = try_send_map (\<lambda>v. g (f v)) e"
  by (cases e) auto

lemma try_send_map_ident [simp]: "try_send_map (\<lambda>v. v) e = e"
  by (cases e) auto

datatype 'v send_error =
    SendError_Closed 'v
  | SendError_Revoked 'v
  | SendError_WaitersFull 'v
  | SendError_SequenceExhausted 'v

fun send_error_into_inner :: "'v send_error \<Rightarrow> 'v" where
  "send_error_into_inner (SendError_Closed v) = v"
| "send_error_into_inner (SendError_Revoked v) = v"
| "send_error_into_inner (SendError_WaitersFull v) = v"
| "send_error_into_inner (SendError_SequenceExhausted v) = v"

fun send_error_map :: "('v \<Rightarrow> 'w) \<Rightarrow> 'v send_error \<Rightarrow> 'w send_error" where
  "send_error_map f (SendError_Closed v) = SendError_Closed (f v)"
| "send_error_map f (SendError_Revoked v) = SendError_Revoked (f v)"
| "send_error_map f (SendError_WaitersFull v) = SendError_WaitersFull (f v)"
| "send_error_map f (SendError_SequenceExhausted v) = SendError_SequenceExhausted (f v)"

lemma send_error_into_inner_map [simp]:
  "send_error_into_inner (send_error_map f e) = f (send_error_into_inner e)"
  by (cases e) auto

subsection \<open>Wire and transport errors\<close>

datatype wire_error =
    WireError_BufferTooSmall
  | WireError_InvalidPayload
  | WireError_UnsupportedRevision
  | WireError_Truncated
  | WireError_InvalidHeader

datatype decode_error =
    DecodeError_Wire wire_error
  | DecodeError_Resources topic_error

text \<open>\<open>transport::Error\<close>. \<open>Send\<close> carries \<open>SendError<()>\<close>.\<close>

datatype transport_error =
    Error_Closed
  | Error_Revoked
  | Error_Protocol
  | Error_Capacity
  | Error_Io int
  | Error_Wire wire_error
  | Error_Topic topic_error
  | Error_Receive receive_error
  | Error_Send "unit send_error"
  | Error_Gap u64 u64

text \<open>\<open>From<DecodeError> for Error\<close>.\<close>

fun error_from_decode :: "decode_error \<Rightarrow> transport_error" where
  "error_from_decode (DecodeError_Wire e) = Error_Wire e"
| "error_from_decode (DecodeError_Resources e) = Error_Topic e"

subsection \<open>Identities are ordered by their 128-bit value\<close>

instantiation event_id :: linorder
begin

definition less_eq_event_id :: "event_id \<Rightarrow> event_id \<Rightarrow> bool" where
  "less_eq_event_id a b \<longleftrightarrow> as_u128 a \<le> as_u128 b"

definition less_event_id :: "event_id \<Rightarrow> event_id \<Rightarrow> bool" where
  "less_event_id a b \<longleftrightarrow> as_u128 a < as_u128 b"

instance
  by standard (auto simp: less_eq_event_id_def less_event_id_def intro: event_id.expand)

end

end
