(* ===== verification/Hiway_Event.thy ===== *)
theory Hiway_Event
  imports Hiway_Errors
begin

text \<open>
  \<open>hiway/src/event.rs\<close> and \<open>hiway/src/metadata.rs\<close>: event identities (FNV-1a over 128
  bits), delivery semantics, contracts and the per-event metadata with its hop budget.
\<close>

subsection \<open>Event identities\<close>

definition FNV_OFFSET :: u128 where
  "FNV_OFFSET = 0x6c62272e07bb014262b821756295c58d"

definition FNV_PRIME :: u128 where
  "FNV_PRIME = 0x0000000001000000000000000000013b"

text \<open>The loop of \<open>EventId::from_name\<close>: \<open>index\<close> runs over the bytes of the name, the
  product is the wrapping one of \<open>u128\<close>.\<close>

function from_name_loop :: "bytes \<Rightarrow> nat \<Rightarrow> u128 \<Rightarrow> u128" where
  "from_name_loop name index hash =
     (if index < length name
      then from_name_loop name (index + 1) ((hash XOR ucast (name ! index)) * FNV_PRIME)
      else hash)"
  by pat_completeness auto
termination
  by (relation "measure (\<lambda>(name, index, hash). length name - index)") auto

declare from_name_loop.simps [simp del]

definition from_name :: "bytes \<Rightarrow> event_id" where
  "from_name name = EventId (from_name_loop name 0 FNV_OFFSET)"

definition fnv_step :: "u128 \<Rightarrow> u8 \<Rightarrow> u128" where
  "fnv_step hash b = (hash XOR ucast b) * FNV_PRIME"

lemma from_name_loop_foldl:
  "from_name_loop name index hash = foldl fnv_step hash (drop index name)"
proof (induction name index hash rule: from_name_loop.induct)
  case (1 name index hash)
  show ?case
  proof (cases "index < length name")
    case True
    then have "drop index name = name ! index # drop (index + 1) name"
      by (simp add: Cons_nth_drop_Suc)
    with "1.IH" [OF True] True show ?thesis
      by (simp add: from_name_loop.simps [of name index hash] fnv_step_def)
  next
    case False
    then show ?thesis by (simp add: from_name_loop.simps [of name index hash])
  qed
qed

text \<open>One step of the hash loses nothing: the prime is odd, so multiplying by it is a bijection
  of \<open>u128\<close>, with the inverse below.\<close>

definition FNV_INVERSE :: u128 where
  "FNV_INVERSE = 235294668448601749631651150104872562675"

lemma fnv_prime_inverse: "FNV_PRIME * FNV_INVERSE = 1"
  by (simp add: FNV_PRIME_def FNV_INVERSE_def)

lemma fnv_prime_cancel: "a * FNV_PRIME = b * FNV_PRIME \<longleftrightarrow> a = b"
proof
  assume "a * FNV_PRIME = b * FNV_PRIME"
  then have "a * (FNV_PRIME * FNV_INVERSE) = b * (FNV_PRIME * FNV_INVERSE)"
    by (simp flip: mult.assoc)
  then show "a = b" by (simp add: fnv_prime_inverse)
qed simp

lemma xor_cancel_word:
  fixes a b c :: "'a::len word"
  shows "a XOR c = b XOR c \<longleftrightarrow> a = b" and "c XOR a = c XOR b \<longleftrightarrow> a = b"
  by (auto simp: bit_eq_iff bit_xor_iff)

lemma ucast_u8_u128_inject: "(ucast b :: u128) = ucast c \<longleftrightarrow> b = (c :: u8)"
proof
  assume "(ucast b :: u128) = ucast c"
  then show "b = c" by (auto simp: bit_eq_iff bit_ucast_iff)
qed simp

lemma fnv_step_inject_hash: "fnv_step h b = fnv_step k b \<longleftrightarrow> h = k"
  by (simp add: fnv_step_def fnv_prime_cancel xor_cancel_word)

lemma fnv_step_inject_byte: "fnv_step h b = fnv_step h c \<longleftrightarrow> b = c"
  by (simp add: fnv_step_def fnv_prime_cancel xor_cancel_word ucast_u8_u128_inject)

lemma foldl_fnv_step_inject: "foldl fnv_step h bs = foldl fnv_step k bs \<longleftrightarrow> h = k"
  by (induction bs arbitrary: h k) (auto simp: fnv_step_inject_hash)

lemma from_name_foldl: "from_name name = EventId (foldl fnv_step FNV_OFFSET name)"
  by (simp add: from_name_def from_name_loop_foldl)

subsection \<open>Delivery\<close>

datatype delivery = Ordered | Latest

text \<open>\<open>Delivery::follows\<close>: which sequence may come after \<open>previous\<close> on a link.\<close>

fun follows :: "delivery \<Rightarrow> u64 \<Rightarrow> u64 \<Rightarrow> bool" where
  "follows Ordered previous nxt = (checked_add_word previous 1 = Some nxt)"
| "follows Latest previous nxt = (previous < nxt)"

lemma follows_Ordered_iff: "follows Ordered previous nxt \<longleftrightarrow> unat nxt = unat previous + 1"
proof -
  have "nxt = previous + 1" if "unat nxt = unat previous + 1"
  proof -
    have "unat nxt < 2 ^ LENGTH(64)" by (rule unsigned_less)
    with that have "unat (previous + 1) = unat previous + 1"
      by (simp add: unat_word_ariths)
    with that show "nxt = previous + 1" by (simp add: word_unat_eq_iff)
  qed
  then show ?thesis by (auto simp: checked_add_word_eq_Some)
qed

lemma follows_Latest_iff: "follows Latest previous nxt \<longleftrightarrow> unat previous < unat nxt"
  by (simp add: word_less_nat_alt)

lemma follows_increasing: "follows d previous nxt \<Longrightarrow> unat previous < unat nxt"
  by (cases d) (auto simp: follows_Ordered_iff follows_Latest_iff simp del: follows.simps)

subsection \<open>Event declarations and contracts\<close>

text \<open>The constants of an \<open>EventSpec\<close> implementation, with the trait's defaults, and the
  \<open>Contract\<close> of \<open>transport/mod.rs\<close> that fixes them for a link.\<close>

record event_spec =
  ID :: event_id
  WIRE_MAJOR :: u16
  SCHEMA_REVISION :: u32
  DELIVERY :: delivery

definition default_spec :: "event_id \<Rightarrow> event_spec" where
  "default_spec i = \<lparr>ID = i, WIRE_MAJOR = 1, SCHEMA_REVISION = 1, DELIVERY = Ordered\<rparr>"

record contract =
  c_event :: event_id
  c_major :: u16
  c_revision :: u32
  c_delivery :: delivery

definition contract_of :: "event_spec \<Rightarrow> contract" where
  "contract_of e = \<lparr>c_event = ID e, c_major = WIRE_MAJOR e,
     c_revision = SCHEMA_REVISION e, c_delivery = DELIVERY e\<rparr>"

subsection \<open>Metadata\<close>

text \<open>\<open>OriginId\<close> is sixteen bytes.\<close>

record event_metadata =
  origin :: bytes
  md_sequence :: u64
  origin_time :: u64
  ttl :: "u32 option"
  fabric_sequence :: "u64 option"

definition origin_ZERO :: bytes where
  "origin_ZERO = replicate 16 0"

definition metadata_new :: "bytes \<Rightarrow> u64 \<Rightarrow> u64 \<Rightarrow> event_metadata" where
  "metadata_new org seq time = \<lparr>origin = org, md_sequence = seq, origin_time = time,
     ttl = None, fabric_sequence = None\<rparr>"

record dedup_key =
  dk_origin :: bytes
  dk_sequence :: u64

definition dedup_key_of :: "event_metadata \<Rightarrow> dedup_key" where
  "dedup_key_of m = \<lparr>dk_origin = origin m, dk_sequence = md_sequence m\<rparr>"

text \<open>\<open>consume_hop\<close> mutates the metadata and returns whether forwarding remains allowed.\<close>

definition consume_hop :: "event_metadata \<Rightarrow> event_metadata \<times> bool" where
  "consume_hop m =
     (case ttl m of
        None \<Rightarrow> (m, True)
      | Some t \<Rightarrow> if t = 0 then (m, False) else (m\<lparr>ttl := Some (t - 1)\<rparr>, True))"

text \<open>A message that is forwarded hop by hop: the number of the first \<open>n\<close> hops that
  \<open>consume_hop\<close> allows.\<close>

fun allowed_hops :: "nat \<Rightarrow> event_metadata \<Rightarrow> nat" where
  "allowed_hops 0 m = 0"
| "allowed_hops (Suc n) m =
     (case consume_hop m of (m', ok) \<Rightarrow> (if ok then 1 else 0) + allowed_hops n m')"

lemma allowed_hops_finite:
  "ttl m = Some t \<Longrightarrow> allowed_hops n m = min n (unat t)"
proof (induction n arbitrary: m t)
  case 0
  then show ?case by simp
next
  case (Suc n)
  show ?case
  proof (cases "t = 0")
    case True
    with Suc show ?thesis by (simp add: consume_hop_def)
  next
    case False
    then have "unat t = Suc (unat (t - 1))"
      by (simp add: unat_minus_one unat_gt_0)
    with Suc False show ?thesis by (simp add: consume_hop_def)
  qed
qed

lemma allowed_hops_unlimited: "ttl m = None \<Longrightarrow> allowed_hops n m = n"
  by (induction n arbitrary: m) (auto simp: consume_hop_def)

lemma consume_hop_dedup_key: "dedup_key_of (fst (consume_hop m)) = dedup_key_of m"
  by (auto simp: consume_hop_def dedup_key_of_def split: option.splits)

subsection \<open>Properties\<close>

text \<open>C39: A message is forwarded exactly as often as its hop limit allows: of \<open>n\<close> attempts,
  \<open>consume_hop\<close> lets through the first \<open>ttl\<close> ones and no later one, and every attempt when
  there is no limit.\<close>

theorem hop_budget:
  "allowed_hops n m = (case ttl m of None \<Rightarrow> n | Some t \<Rightarrow> min n (unat t))"
  by (simp add: allowed_hops_finite allowed_hops_unlimited split: option.split)

text \<open>Event names of the same length that differ in one byte never collide: the identity
  computed by \<open>from_name\<close> determines that byte.\<close>

lemma from_name_one_byte:
  "from_name (pre @ b # post) = from_name (pre @ c # post) \<longleftrightarrow> b = c"
  by (simp add: from_name_foldl foldl_fnv_step_inject fnv_step_inject_byte)

end
