(* ===== verification/Hiway_Wire.thy ===== *)
theory Hiway_Wire
  imports Hiway_Event
begin

text \<open>
  \<open>hiway/src/wire.rs\<close> and the envelope of \<open>metadata.rs\<close>: the fixed 70-byte envelope
  header, its encoder into a caller's buffer and its decoder. The interface \<open>fixed_field\<close> is
  the contract of one fixed-width field; every field of the header is an interpretation of it, and
  the round trips of the header follow from those.
\<close>

definition ENVELOPE_HEADER_BYTES :: nat where "ENVELOPE_HEADER_BYTES = 70"

definition u32_MAX :: u32 where "u32_MAX = 0xFFFFFFFF"
definition u64_MAX :: u64 where "u64_MAX = 0xFFFFFFFFFFFFFFFF"

subsection \<open>One fixed-width field\<close>

locale fixed_field =
  fixes width :: nat
    and enc :: "'x \<Rightarrow> bytes"
    and dec :: "bytes \<Rightarrow> 'x"
    and valid :: "'x \<Rightarrow> bool"
  assumes length_enc: "valid x \<Longrightarrow> length (enc x) = width"
    and dec_enc: "valid x \<Longrightarrow> dec (enc x) = x"
    and enc_dec: "length bs = width \<Longrightarrow> enc (dec bs) = bs"
    and valid_dec: "length bs = width \<Longrightarrow> valid (dec bs)"
begin

lemma dec_inject: "length as = width \<Longrightarrow> length bs = width \<Longrightarrow> dec as = dec bs \<longleftrightarrow> as = bs"
  by (metis enc_dec)

lemma dec_slice: "valid x \<Longrightarrow> sub_slice i width bs = enc x \<Longrightarrow> dec (sub_slice i width bs) = x"
  by (simp add: dec_enc)

lemma enc_dec_slice: "i + width \<le> length bs \<Longrightarrow> enc (dec (sub_slice i width bs)) = sub_slice i width bs"
  by (simp add: enc_dec)

end

text \<open>Plain integers: \<open>u16\<close>, \<open>u32\<close>, \<open>u64\<close>, and the \<open>u128\<close> of an identity.\<close>

definition always :: "'x \<Rightarrow> bool" where "always x = True"

lemmas word_field_simps = from_le_to_le_bytes to_le_from_le_bytes always_def

interpretation u16_field: fixed_field 2 "to_le_bytes 2 :: u16 \<Rightarrow> bytes" from_le_bytes always
  by unfold_locales (simp_all add: word_field_simps)

interpretation u32_field: fixed_field 4 "to_le_bytes 4 :: u32 \<Rightarrow> bytes" from_le_bytes always
  by unfold_locales (simp_all add: word_field_simps)

interpretation u64_field: fixed_field 8 "to_le_bytes 8 :: u64 \<Rightarrow> bytes" from_le_bytes always
  by unfold_locales (simp_all add: word_field_simps)

definition event_bytes :: "event_id \<Rightarrow> bytes" where
  "event_bytes e = to_le_bytes 16 (as_u128 e)"

definition event_of_bytes :: "bytes \<Rightarrow> event_id" where
  "event_of_bytes bs = EventId (from_le_bytes bs)"

interpretation event_field: fixed_field 16 event_bytes event_of_bytes always
  by unfold_locales (simp_all add: event_bytes_def event_of_bytes_def word_field_simps)

text \<open>\<open>OriginId\<close>: the bytes themselves.\<close>

definition valid_origin :: "bytes \<Rightarrow> bool" where
  "valid_origin bs \<longleftrightarrow> length bs = 16"

interpretation origin_field: fixed_field 16 "\<lambda>bs. bs" "\<lambda>bs. bs" valid_origin
  by unfold_locales (simp_all add: valid_origin_def)

text \<open>Optional integers: absence is written as the largest value, which is therefore not a
  valid present value.\<close>

definition ttl_bytes :: "u32 option \<Rightarrow> bytes" where
  "ttl_bytes t = to_le_bytes 4 (case t of None \<Rightarrow> u32_MAX | Some v \<Rightarrow> v)"

definition ttl_of_bytes :: "bytes \<Rightarrow> u32 option" where
  "ttl_of_bytes bs = (let v = from_le_bytes bs in if v = u32_MAX then None else Some v)"

definition valid_ttl :: "u32 option \<Rightarrow> bool" where
  "valid_ttl t \<longleftrightarrow> t \<noteq> Some u32_MAX"

interpretation ttl_field: fixed_field 4 ttl_bytes ttl_of_bytes valid_ttl
  by unfold_locales
    (auto simp: ttl_bytes_def ttl_of_bytes_def valid_ttl_def Let_def word_field_simps
      split: option.splits if_splits dest: arg_cong [where f = "to_le_bytes 4"])

definition fabric_bytes :: "u64 option \<Rightarrow> bytes" where
  "fabric_bytes t = to_le_bytes 8 (case t of None \<Rightarrow> u64_MAX | Some v \<Rightarrow> v)"

definition fabric_of_bytes :: "bytes \<Rightarrow> u64 option" where
  "fabric_of_bytes bs = (let v = from_le_bytes bs in if v = u64_MAX then None else Some v)"

definition valid_fabric :: "u64 option \<Rightarrow> bool" where
  "valid_fabric t \<longleftrightarrow> t \<noteq> Some u64_MAX"

interpretation fabric_field: fixed_field 8 fabric_bytes fabric_of_bytes valid_fabric
  by unfold_locales
    (auto simp: fabric_bytes_def fabric_of_bytes_def valid_fabric_def Let_def word_field_simps
      split: option.splits if_splits dest: arg_cong [where f = "to_le_bytes 8"])

subsection \<open>Envelopes and headers\<close>

record wire_envelope =
  we_event :: event_id
  we_wire_major :: u16
  we_schema_revision :: u32
  we_metadata :: event_metadata
  we_payload :: bytes

record envelope_header =
  eh_event :: event_id
  eh_wire_major :: u16
  eh_schema_revision :: u32
  eh_metadata :: event_metadata
  eh_payload_len :: u32

text \<open>\<open>u32::try_from\<close> of a \<open>usize\<close>.\<close>

definition u32_try_from :: "nat \<Rightarrow> u32 option" where
  "u32_try_from n = (if n \<le> u32_max then Some (of_nat n) else None)"

lemma u32_try_from_Some: "u32_try_from n = Some w \<Longrightarrow> unat w = n"
  by (auto simp: u32_try_from_def u32_max_def unat_of_nat split: if_splits)

definition header_for_event ::
    "event_spec \<Rightarrow> event_metadata \<Rightarrow> nat \<Rightarrow> (envelope_header, wire_error) result" where
  "header_for_event e m len =
     (case u32_try_from len of
        None \<Rightarrow> Err WireError_InvalidHeader
      | Some n \<Rightarrow> Ok \<lparr>eh_event = ID e, eh_wire_major = WIRE_MAJOR e,
          eh_schema_revision = SCHEMA_REVISION e, eh_metadata = m, eh_payload_len = n\<rparr>)"

definition header_from_envelope :: "wire_envelope \<Rightarrow> (envelope_header, wire_error) result" where
  "header_from_envelope w =
     (case u32_try_from (length (we_payload w)) of
        None \<Rightarrow> Err WireError_InvalidHeader
      | Some n \<Rightarrow> Ok \<lparr>eh_event = we_event w, eh_wire_major = we_wire_major w,
          eh_schema_revision = we_schema_revision w, eh_metadata = we_metadata w,
          eh_payload_len = n\<rparr>)"

text \<open>\<open>EnvelopeHeader::encode\<close>: both checks come before the first write, so an error leaves
  the buffer as it was; \<open>Ok\<close> carries the buffer after the nine \<open>put\<close> calls.\<close>

definition header_encode :: "envelope_header \<Rightarrow> bytes \<Rightarrow> (bytes, wire_error) result" where
  "header_encode h output =
     (let md = eh_metadata h in
      if length output < ENVELOPE_HEADER_BYTES then Err WireError_BufferTooSmall
      else if ttl md = Some u32_MAX \<or> fabric_sequence md = Some u64_MAX
      then Err WireError_InvalidHeader
      else
       (let cursor = 0;
            output = put_at cursor (event_bytes (eh_event h)) output; cursor = cursor + 16;
            output = put_at cursor (to_le_bytes 2 (eh_wire_major h)) output; cursor = cursor + 2;
            output = put_at cursor (to_le_bytes 4 (eh_schema_revision h)) output; cursor = cursor + 4;
            output = put_at cursor (origin md) output; cursor = cursor + 16;
            output = put_at cursor (to_le_bytes 8 (md_sequence md)) output; cursor = cursor + 8;
            output = put_at cursor (to_le_bytes 8 (origin_time md)) output; cursor = cursor + 8;
            output = put_at cursor (ttl_bytes (ttl md)) output; cursor = cursor + 4;
            output = put_at cursor (fabric_bytes (fabric_sequence md)) output; cursor = cursor + 8;
            output = put_at cursor (to_le_bytes 4 (eh_payload_len h)) output
        in Ok output))"

text \<open>\<open>read::<N>\<close>: the next \<open>N\<close> bytes and the advanced cursor.\<close>

definition read_bytes :: "nat \<Rightarrow> bytes \<Rightarrow> nat \<Rightarrow> bytes \<times> nat" where
  "read_bytes n input cursor = (sub_slice cursor n input, cursor + n)"

definition header_decode :: "bytes \<Rightarrow> (envelope_header, wire_error) result" where
  "header_decode input =
     (if length input < ENVELOPE_HEADER_BYTES then Err WireError_Truncated
      else
       (let cursor = 0;
            (b, cursor) = read_bytes 16 input cursor; event = event_of_bytes b;
            (b, cursor) = read_bytes 2 input cursor; major = from_le_bytes b;
            (b, cursor) = read_bytes 4 input cursor; revision = from_le_bytes b;
            (org, cursor) = read_bytes 16 input cursor;
            (b, cursor) = read_bytes 8 input cursor; seq = from_le_bytes b;
            (b, cursor) = read_bytes 8 input cursor; time = from_le_bytes b;
            (b, cursor) = read_bytes 4 input cursor; t = ttl_of_bytes b;
            (b, cursor) = read_bytes 8 input cursor; fabric = fabric_of_bytes b;
            (b, cursor) = read_bytes 4 input cursor; len = from_le_bytes b
        in Ok \<lparr>eh_event = event, eh_wire_major = major, eh_schema_revision = revision,
             eh_metadata = \<lparr>origin = org, md_sequence = seq, origin_time = time, ttl = t,
               fabric_sequence = fabric\<rparr>,
             eh_payload_len = len\<rparr>))"

text \<open>The header as one string of fields.\<close>

definition header_bytes :: "envelope_header \<Rightarrow> bytes" where
  "header_bytes h =
     event_bytes (eh_event h) @ to_le_bytes 2 (eh_wire_major h)
     @ to_le_bytes 4 (eh_schema_revision h) @ origin (eh_metadata h)
     @ to_le_bytes 8 (md_sequence (eh_metadata h)) @ to_le_bytes 8 (origin_time (eh_metadata h))
     @ ttl_bytes (ttl (eh_metadata h)) @ fabric_bytes (fabric_sequence (eh_metadata h))
     @ to_le_bytes 4 (eh_payload_len h)"

definition header_representable :: "envelope_header \<Rightarrow> bool" where
  "header_representable h \<longleftrightarrow>
     ttl (eh_metadata h) \<noteq> Some u32_MAX \<and> fabric_sequence (eh_metadata h) \<noteq> Some u64_MAX"

lemma length_field_bytes [simp]:
  "length (event_bytes e) = 16" "length (ttl_bytes t) = 4" "length (fabric_bytes f) = 8"
  by (simp_all add: event_bytes_def ttl_bytes_def fabric_bytes_def)

lemma length_header_bytes [simp]:
  "length (origin (eh_metadata h)) = 16 \<Longrightarrow> length (header_bytes h) = 70"
  by (simp add: header_bytes_def)

lemma put_at_append:
  "length pre \<le> i \<Longrightarrow> put_at i v (pre @ rest) = pre @ put_at (i - length pre) v rest"
  by (simp add: put_at_def)

lemma put_at_0: "put_at 0 v out = v @ drop (length v) out"
  by (simp add: put_at_def)

lemma header_encode_bytes:
  assumes "length (origin (eh_metadata h)) = 16" and "header_representable h"
    and "ENVELOPE_HEADER_BYTES \<le> length out"
  shows "header_encode h out = Ok (header_bytes h @ drop 70 out)"
  using assms
  by (simp add: header_encode_def header_representable_def header_bytes_def Let_def put_at_0
      put_at_append ENVELOPE_HEADER_BYTES_def)


lemma sub_slice_append_right:
  "length a \<le> i \<Longrightarrow> sub_slice i n (a @ b) = sub_slice (i - length a) n b"
  by (simp add: sub_slice_def)

lemma sub_slice_append_left: "length a = n \<Longrightarrow> sub_slice 0 n (a @ b) = a"
  by (simp add: sub_slice_def)

lemma optional_field_dec_enc:
  assumes "header_representable h"
  shows "ttl_of_bytes (ttl_bytes (ttl (eh_metadata h))) = ttl (eh_metadata h)"
    and "fabric_of_bytes (fabric_bytes (fabric_sequence (eh_metadata h)))
           = fabric_sequence (eh_metadata h)"
  using assms
  by (auto simp: header_representable_def valid_ttl_def valid_fabric_def
      intro!: ttl_field.dec_enc fabric_field.dec_enc)

lemma event_of_event_bytes [simp]: "event_of_bytes (event_bytes e) = e"
  by (simp add: event_field.dec_enc always_def)

lemma header_decode_append:
  assumes "length (origin (eh_metadata h)) = 16" and "header_representable h"
  shows "header_decode (header_bytes h @ rest) = Ok h"
proof -
  have "\<not> length (header_bytes h @ rest) < ENVELOPE_HEADER_BYTES"
    using assms(1) by (simp add: ENVELOPE_HEADER_BYTES_def)
  then show ?thesis
    using assms(1)
    by (simp only: header_decode_def read_bytes_def Let_def prod.case if_False)
      (simp add: header_bytes_def sub_slice_append_right sub_slice_append_left
        optional_field_dec_enc [OF assms(2)] from_le_to_le_bytes)
qed

text \<open>Conversely, decoding reads the first 70 bytes and nothing else, and forgets nothing.\<close>

lemma sub_slice_join:
  assumes "i + n = j"
  shows "sub_slice i n xs @ sub_slice j m xs = sub_slice i (n + m) xs"
proof -
  have "drop j xs = drop n (drop i xs)" using assms by (simp add: add.commute)
  then show ?thesis by (simp only: sub_slice_def take_add)
qed

lemma header_bytes_decode:
  assumes "header_decode input = Ok h"
  shows "header_bytes h = take 70 input"
    and "length (origin (eh_metadata h)) = 16"
    and "header_representable h"
    and "70 \<le> length input"
proof -
  show len: "70 \<le> length input"
    using assms by (auto simp: header_decode_def ENVELOPE_HEADER_BYTES_def split: if_splits)
  have h: "h = \<lparr>eh_event = event_of_bytes (sub_slice 0 16 input),
      eh_wire_major = from_le_bytes (sub_slice 16 2 input),
      eh_schema_revision = from_le_bytes (sub_slice 18 4 input),
      eh_metadata = \<lparr>origin = sub_slice 22 16 input,
        md_sequence = from_le_bytes (sub_slice 38 8 input),
        origin_time = from_le_bytes (sub_slice 46 8 input),
        ttl = ttl_of_bytes (sub_slice 54 4 input),
        fabric_sequence = fabric_of_bytes (sub_slice 58 8 input)\<rparr>,
      eh_payload_len = from_le_bytes (sub_slice 66 4 input)\<rparr>"
    using assms len
    by (simp add: header_decode_def read_bytes_def ENVELOPE_HEADER_BYTES_def)
  show "length (origin (eh_metadata h)) = 16" using len by (simp add: h)
  have "valid_ttl (ttl_of_bytes (sub_slice 54 4 input))"
    and "valid_fabric (fabric_of_bytes (sub_slice 58 8 input))"
    using len by (auto intro: ttl_field.valid_dec fabric_field.valid_dec)
  then show "header_representable h"
    by (simp add: h header_representable_def valid_ttl_def valid_fabric_def)
  have "header_bytes h =
      sub_slice 0 16 input @ sub_slice 16 2 input @ sub_slice 18 4 input
      @ sub_slice 22 16 input @ sub_slice 38 8 input @ sub_slice 46 8 input
      @ sub_slice 54 4 input @ sub_slice 58 8 input @ sub_slice 66 4 input"
    using len
    by (simp add: h header_bytes_def event_field.enc_dec_slice ttl_field.enc_dec_slice
        fabric_field.enc_dec_slice to_le_from_le_bytes)
  also have "\<dots> = sub_slice 0 70 input"
    by (simp add: sub_slice_join)
  also have "\<dots> = take 70 input" by (simp add: sub_slice_def)
  finally show "header_bytes h = take 70 input" .
qed

subsection \<open>Properties\<close>

definition sample_header :: envelope_header where
  "sample_header = \<lparr>eh_event = EventId 7, eh_wire_major = 2, eh_schema_revision = 3,
     eh_metadata = \<lparr>origin = replicate 16 9, md_sequence = 500, origin_time = 6, ttl = Some 4,
       fabric_sequence = None\<rparr>, eh_payload_len = 11\<rparr>"

text \<open>C36: A header encoded into a buffer that is large enough decodes to itself; the buffer keeps
  its length and every byte behind the header. The two reserved values (a present limit or fabric
  sequence of all ones) are exactly what the encoder must refuse.\<close>

theorem header_roundtrip:
  assumes "length (origin (eh_metadata h)) = 16" and "ENVELOPE_HEADER_BYTES \<le> length buffer"
  shows "if header_representable h
    then \<exists>out. header_encode h buffer = Ok out \<and> header_decode out = Ok h
           \<and> length out = length buffer \<and> drop ENVELOPE_HEADER_BYTES out = drop ENVELOPE_HEADER_BYTES buffer
    else header_encode h buffer = Err WireError_InvalidHeader"
proof (cases "header_representable h")
  case True
  then show ?thesis
    using assms by (simp add: header_encode_bytes header_decode_append ENVELOPE_HEADER_BYTES_def)
next
  case False
  then show ?thesis using assms(2) by (auto simp: header_encode_def header_representable_def Let_def)
qed

theorem header_roundtrip_witness:
  "\<exists>out. header_encode sample_header (replicate 72 0) = Ok out \<and> header_decode out = Ok sample_header
     \<and> length out = 72 \<and> drop ENVELOPE_HEADER_BYTES out = [0, 0]"
proof -
  have "length (origin (eh_metadata sample_header)) = 16" and "header_representable sample_header"
    by (simp_all add: sample_header_def header_representable_def u32_MAX_def)
  then show ?thesis
    using header_roundtrip [of sample_header "replicate 72 0"]
    by (simp add: ENVELOPE_HEADER_BYTES_def numeral_2_eq_2)
qed

text \<open>C37: Decoding forgets nothing: re-encoding a decoded header restores the 70 bytes it was read
  from, whatever they were and whatever followed them.\<close>

theorem header_reencode:
  assumes "header_decode input = Ok h"
  shows "header_encode h (replicate ENVELOPE_HEADER_BYTES 0) = Ok (take ENVELOPE_HEADER_BYTES input)"
  using header_bytes_decode [OF assms]
  by (simp add: header_encode_bytes ENVELOPE_HEADER_BYTES_def)

theorem header_reencode_witness:
  "header_encode sample_header (replicate ENVELOPE_HEADER_BYTES 0) =
     Ok (take ENVELOPE_HEADER_BYTES (header_bytes sample_header @ [1, 2, 3]))"
proof (rule header_reencode)
  show "header_decode (header_bytes sample_header @ [1, 2, 3]) = Ok sample_header"
    by (rule header_decode_append) (simp_all add: sample_header_def header_representable_def u32_MAX_def)
qed

end
