(* ===== verification/Hiway_Schema.thy ===== *)
theory Hiway_Schema
  imports Hiway_Errors
begin

text \<open>
  \<open>hiway/src/schema.rs\<close>: schema manifests, their local validation and the evolution check.
  The check is related to two specifications: a declarative one on sets of tags, which is
  reflexive and transitive, and an operational one on messages, where a reader needs its
  required fields and skips tags it does not know.
\<close>

datatype field_kind =
    Kind_Bool
  | Kind_Unsigned
  | Kind_Signed
  | Kind_Text
  | Kind_Bytes
  | Kind_Message event_id

datatype field_presence = Presence_Required | Presence_Optional | Presence_Defaulted

record field_spec =
  tag :: u32
  kind :: field_kind
  presence :: field_presence

record schema =
  sc_event :: event_id
  sc_wire_major :: u16
  sc_revision :: u32
  sc_fields :: "field_spec list"
  reserved_tags :: "u32 list"

datatype schema_error =
    DuplicateTag u32
  | FieldKindChanged u32
  | NewlyRequired u32
  | RequiredFieldMadeOptional u32
  | RequiredFieldRemoved u32
  | RemovedTagNotReserved u32
  | ReservedTagReused u32
  | ReservedTagRemoved u32
  | EventChanged
  | MajorChanged

subsection \<open>One schema\<close>

text \<open>The two loops of \<open>validate_schema\<close>. The tail of the list is \<open>[index + 1..]\<close>.\<close>

fun check_active_tags :: "field_spec list \<Rightarrow> u32 list \<Rightarrow> (unit, schema_error) result" where
  "check_active_tags [] reserved = Ok ()"
| "check_active_tags (field # rest) reserved =
     (if list_ex (\<lambda>other. tag other = tag field) rest \<or> tag field \<in> set reserved
      then Err (DuplicateTag (tag field))
      else check_active_tags rest reserved)"

fun check_reserved_tags :: "u32 list \<Rightarrow> (unit, schema_error) result" where
  "check_reserved_tags [] = Ok ()"
| "check_reserved_tags (t # rest) =
     (if list_ex (\<lambda>other. other = t) rest then Err (DuplicateTag t)
      else check_reserved_tags rest)"

definition validate_schema :: "schema \<Rightarrow> (unit, schema_error) result" where
  "validate_schema s =
     and_then (check_active_tags (sc_fields s) (reserved_tags s))
       (\<lambda>_. check_reserved_tags (reserved_tags s))"

definition well_formed_schema :: "schema \<Rightarrow> bool" where
  "well_formed_schema s \<longleftrightarrow> distinct (map tag (sc_fields s) @ reserved_tags s)"

lemma list_ex_tag: "list_ex (\<lambda>f. tag f = t) fs \<longleftrightarrow> t \<in> tag ` set fs"
  by (auto simp: list_ex_iff)

lemma check_active_tags_Ok:
  "check_active_tags fs reserved = Ok () \<longleftrightarrow>
     distinct (map tag fs) \<and> set (map tag fs) \<inter> set reserved = {}"
  by (induction fs) (auto simp: list_ex_tag)

lemma check_reserved_tags_Ok: "check_reserved_tags tags = Ok () \<longleftrightarrow> distinct tags"
  by (induction tags) (auto simp: list_ex_iff)

lemma validate_schema_Ok_iff: "validate_schema s = Ok () \<longleftrightarrow> well_formed_schema s"
  using check_active_tags_Ok [of "sc_fields s" "reserved_tags s"]
  by (auto simp: validate_schema_def well_formed_schema_def check_reserved_tags_Ok and_then_eq_Ok)

subsection \<open>Evolution\<close>

text \<open>The first loop: the tags the previous revision reserved.\<close>

fun check_reserved_evolution :: "schema \<Rightarrow> u32 list \<Rightarrow> (unit, schema_error) result" where
  "check_reserved_evolution nxt [] = Ok ()"
| "check_reserved_evolution nxt (t # rest) =
     (if list_ex (\<lambda>field. tag field = t) (sc_fields nxt) then Err (ReservedTagReused t)
      else if t \<notin> set (reserved_tags nxt) then Err (ReservedTagRemoved t)
      else check_reserved_evolution nxt rest)"

text \<open>The match on the old and the current presence of a field that stays.\<close>

fun check_presence :: "u32 \<Rightarrow> field_presence \<Rightarrow> field_presence \<Rightarrow> (unit, schema_error) result" where
  "check_presence t Presence_Required Presence_Optional = Err (RequiredFieldMadeOptional t)"
| "check_presence t Presence_Required Presence_Defaulted = Err (RequiredFieldMadeOptional t)"
| "check_presence t Presence_Optional Presence_Required = Err (NewlyRequired t)"
| "check_presence t Presence_Defaulted Presence_Required = Err (NewlyRequired t)"
| "check_presence t Presence_Required Presence_Required = Ok ()"
| "check_presence t Presence_Optional Presence_Optional = Ok ()"
| "check_presence t Presence_Optional Presence_Defaulted = Ok ()"
| "check_presence t Presence_Defaulted Presence_Optional = Ok ()"
| "check_presence t Presence_Defaulted Presence_Defaulted = Ok ()"

text \<open>One iteration of the second loop, over the previous revision's fields.\<close>

definition check_old_field :: "schema \<Rightarrow> field_spec \<Rightarrow> (unit, schema_error) result" where
  "check_old_field nxt old =
     (case find (\<lambda>field. tag field = tag old) (sc_fields nxt) of
        None \<Rightarrow>
          if presence old = Presence_Required then Err (RequiredFieldRemoved (tag old))
          else if tag old \<notin> set (reserved_tags nxt) then Err (RemovedTagNotReserved (tag old))
          else Ok ()
      | Some current \<Rightarrow>
          if kind old \<noteq> kind current then Err (FieldKindChanged (tag old))
          else check_presence (tag old) (presence old) (presence current))"

fun check_old_fields :: "schema \<Rightarrow> field_spec list \<Rightarrow> (unit, schema_error) result" where
  "check_old_fields nxt [] = Ok ()"
| "check_old_fields nxt (old # rest) =
     and_then (check_old_field nxt old) (\<lambda>_. check_old_fields nxt rest)"

text \<open>The third loop: fields the previous revision does not have may not be required.\<close>

fun check_new_fields :: "schema \<Rightarrow> field_spec list \<Rightarrow> (unit, schema_error) result" where
  "check_new_fields previous [] = Ok ()"
| "check_new_fields previous (field # rest) =
     (if \<not> list_ex (\<lambda>old. tag old = tag field) (sc_fields previous)
         \<and> presence field = Presence_Required
      then Err (NewlyRequired (tag field))
      else check_new_fields previous rest)"

definition validate_evolution :: "schema \<Rightarrow> schema \<Rightarrow> (unit, schema_error) result" where
  "validate_evolution previous nxt =
     and_then (validate_schema previous) (\<lambda>_.
     and_then (validate_schema nxt) (\<lambda>_.
       if sc_event previous \<noteq> sc_event nxt then Err EventChanged
       else if sc_wire_major previous \<noteq> sc_wire_major nxt then Err MajorChanged
       else and_then (check_reserved_evolution nxt (reserved_tags previous)) (\<lambda>_.
            and_then (check_old_fields nxt (sc_fields previous)) (\<lambda>_.
              check_new_fields previous (sc_fields nxt)))))"

subsection \<open>What the evolution check establishes\<close>

abbreviation required :: "field_spec \<Rightarrow> bool" where
  "required f \<equiv> presence f = Presence_Required"

definition tags :: "schema \<Rightarrow> u32 set" where
  "tags s = tag ` set (sc_fields s)"

text \<open>The declarative specification. It names no order of checks: reserved tags only grow, a
  field that disappears was omittable and is reserved, a field that stays keeps its kind and
  whether it is required, and no new field is required.\<close>

definition compatible :: "schema \<Rightarrow> schema \<Rightarrow> bool" where
  "compatible previous nxt \<longleftrightarrow>
     well_formed_schema previous \<and> well_formed_schema nxt
     \<and> sc_event previous = sc_event nxt \<and> sc_wire_major previous = sc_wire_major nxt
     \<and> set (reserved_tags previous) \<subseteq> set (reserved_tags nxt)
     \<and> (\<forall>old \<in> set (sc_fields previous). tag old \<notin> tags nxt \<longrightarrow>
          \<not> required old \<and> tag old \<in> set (reserved_tags nxt))
     \<and> (\<forall>old \<in> set (sc_fields previous). \<forall>cur \<in> set (sc_fields nxt). tag old = tag cur \<longrightarrow>
          kind old = kind cur \<and> (required old \<longleftrightarrow> required cur))
     \<and> (\<forall>cur \<in> set (sc_fields nxt). required cur \<longrightarrow> tag cur \<in> tags previous)"

lemma check_reserved_evolution_Ok:
  "check_reserved_evolution nxt ts = Ok () \<longleftrightarrow>
     set ts \<inter> tags nxt = {} \<and> set ts \<subseteq> set (reserved_tags nxt)"
  by (induction ts) (auto simp: list_ex_tag tags_def)

lemma check_new_fields_Ok:
  "check_new_fields previous fs = Ok () \<longleftrightarrow>
     (\<forall>cur \<in> set fs. required cur \<longrightarrow> tag cur \<in> tags previous)"
  by (induction fs) (auto simp: list_ex_tag tags_def)

lemma check_old_fields_Ok:
  "check_old_fields nxt fs = Ok () \<longleftrightarrow> (\<forall>old \<in> set fs. check_old_field nxt old = Ok ())"
  by (induction fs) (auto simp: and_then_eq_Ok)

lemma check_presence_Ok:
  "check_presence t p q = Ok () \<longleftrightarrow> (p = Presence_Required \<longleftrightarrow> q = Presence_Required)"
  by (cases p; cases q) auto

lemma find_tag_distinct:
  "distinct (map tag fs) \<Longrightarrow> f \<in> set fs \<Longrightarrow> find (\<lambda>g. tag g = tag f) fs = Some f"
  by (induction fs) (auto simp: image_iff)

lemma find_tag_None: "find (\<lambda>g. tag g = t) fs = None \<longleftrightarrow> t \<notin> tag ` set fs"
  by (auto simp: find_None_iff)

lemma check_old_field_Ok:
  assumes wf: "well_formed_schema nxt"
  shows "check_old_field nxt old = Ok () \<longleftrightarrow>
     (tag old \<notin> tags nxt \<longrightarrow> \<not> required old \<and> tag old \<in> set (reserved_tags nxt))
     \<and> (\<forall>cur \<in> set (sc_fields nxt). tag old = tag cur \<longrightarrow>
          kind old = kind cur \<and> (required old \<longleftrightarrow> required cur))"
proof (cases "tag old \<in> tags nxt")
  case False
  then show ?thesis
    using find_tag_None [of "tag old" "sc_fields nxt"]
    by (auto simp: check_old_field_def tags_def)
next
  case True
  then obtain cur where cur: "cur \<in> set (sc_fields nxt)" "tag cur = tag old"
    by (auto simp: tags_def)
  have d: "distinct (map tag (sc_fields nxt))"
    using wf by (simp add: well_formed_schema_def)
  then have "find (\<lambda>f. tag f = tag old) (sc_fields nxt) = Some cur"
    using find_tag_distinct [of "sc_fields nxt" cur] cur by simp
  moreover have "(\<forall>c \<in> set (sc_fields nxt). tag old = tag c \<longrightarrow> P c) \<longleftrightarrow> P cur" for P
  proof -
    have "inj_on tag (set (sc_fields nxt))" using d by (simp add: distinct_map)
    then have "c = cur" if "c \<in> set (sc_fields nxt)" "tag old = tag c" for c
      using that cur by (metis inj_onD)
    then show ?thesis using cur by metis
  qed
  ultimately show ?thesis
    using True by (simp add: check_old_field_def check_presence_Ok)
qed

lemma well_formed_disjoint:
  "well_formed_schema s \<Longrightarrow> t \<in> set (reserved_tags s) \<Longrightarrow> t \<notin> tags s"
  by (auto simp: well_formed_schema_def tags_def)

lemma validate_evolution_Ok_iff:
  "validate_evolution previous nxt = Ok () \<longleftrightarrow> compatible previous nxt"
proof (cases "well_formed_schema nxt")
  case True
  then show ?thesis
    by (auto simp: validate_evolution_def compatible_def validate_schema_Ok_iff and_then_eq_Ok
        check_reserved_evolution_Ok check_old_fields_Ok check_old_field_Ok check_new_fields_Ok
        dest: well_formed_disjoint)
next
  case False
  then show ?thesis
    by (simp add: validate_evolution_def compatible_def validate_schema_Ok_iff and_then_eq_Ok)
qed

subsection \<open>Messages\<close>

text \<open>A message is its present fields. A writer includes every required field and only fields
  of its schema; a reader needs its required fields, and every field it knows to have the kind it
  expects. Unknown tags are skipped.\<close>

type_synonym message = "(u32 \<times> field_kind) list"

definition written_by :: "schema \<Rightarrow> message \<Rightarrow> bool" where
  "written_by s m \<longleftrightarrow> distinct (map fst m)
     \<and> (\<forall>p \<in> set m. \<exists>f \<in> set (sc_fields s). p = (tag f, kind f))
     \<and> (\<forall>f \<in> set (sc_fields s). required f \<longrightarrow> (tag f, kind f) \<in> set m)"

definition readable_by :: "schema \<Rightarrow> message \<Rightarrow> bool" where
  "readable_by s m \<longleftrightarrow>
     (\<forall>f \<in> set (sc_fields s). required f \<longrightarrow> (tag f, kind f) \<in> set m)
     \<and> (\<forall>f \<in> set (sc_fields s). \<forall>p \<in> set m. fst p = tag f \<longrightarrow> snd p = kind f)"

definition avoids_reserved :: "schema \<Rightarrow> message \<Rightarrow> bool" where
  "avoids_reserved s m \<longleftrightarrow> fst ` set m \<inter> set (reserved_tags s) = {}"

lemma compatible_kind:
  "compatible a b \<Longrightarrow> f \<in> set (sc_fields a) \<Longrightarrow> g \<in> set (sc_fields b) \<Longrightarrow> tag f = tag g \<Longrightarrow>
    kind f = kind g \<and> (required f \<longleftrightarrow> required g)"
  by (simp add: compatible_def)

lemma compatible_required_stays:
  assumes "compatible a b" and "f \<in> set (sc_fields a)" and "required f"
  shows "\<exists>g \<in> set (sc_fields b). tag g = tag f \<and> kind g = kind f \<and> required g"
proof -
  have "tag f \<in> tags b" using assms by (auto simp: compatible_def)
  then obtain g where "g \<in> set (sc_fields b)" "tag f = tag g" by (auto simp: tags_def)
  with compatible_kind [OF assms(1,2) this] assms(3) show ?thesis by auto
qed

lemma compatible_required_old:
  assumes "compatible a b" and "g \<in> set (sc_fields b)" and "required g"
  shows "\<exists>f \<in> set (sc_fields a). tag f = tag g \<and> kind f = kind g \<and> required f"
proof -
  have "tag g \<in> tags a" using assms by (auto simp: compatible_def)
  then obtain f where "f \<in> set (sc_fields a)" "tag f = tag g" by (auto simp: tags_def)
  with compatible_kind [OF assms(1) this(1) assms(2)] assms(3) show ?thesis by auto
qed

lemma compatible_reads_new:
  assumes c: "compatible previous nxt" and w: "written_by nxt m"
  shows "readable_by previous m" and "avoids_reserved previous m"
proof -
  have "(tag f, kind f) \<in> set m" if "f \<in> set (sc_fields previous)" "required f" for f
    using compatible_required_stays [OF c that] w by (auto simp: written_by_def)
  moreover have "snd p = kind f"
    if f: "f \<in> set (sc_fields previous)" and p: "p \<in> set m" "fst p = tag f" for f p
  proof -
    obtain g where "g \<in> set (sc_fields nxt)" "p = (tag g, kind g)"
      using w p(1) by (auto simp: written_by_def)
    then show ?thesis using compatible_kind [OF c f] p(2) by auto
  qed
  ultimately show "readable_by previous m" by (auto simp: readable_by_def)
  have "t \<notin> set (reserved_tags previous)" if "t \<in> fst ` set m" for t
  proof -
    have "t \<in> tags nxt" using w that by (fastforce simp: written_by_def tags_def)
    then show ?thesis
      using c well_formed_disjoint [of nxt t] by (auto simp: compatible_def)
  qed
  then show "avoids_reserved previous m" by (auto simp: avoids_reserved_def)
qed

lemma compatible_reads_old:
  assumes c: "compatible previous nxt" and w: "written_by previous m"
  shows "readable_by nxt m"
proof -
  have "(tag g, kind g) \<in> set m" if "g \<in> set (sc_fields nxt)" "required g" for g
    using compatible_required_old [OF c that] w by (fastforce simp: written_by_def)
  moreover have "snd p = kind g"
    if g: "g \<in> set (sc_fields nxt)" and p: "p \<in> set m" "fst p = tag g" for g p
  proof -
    obtain f where "f \<in> set (sc_fields previous)" "p = (tag f, kind f)"
      using w p(1) by (auto simp: written_by_def)
    then show ?thesis using compatible_kind [OF c _ g] p(2) by auto
  qed
  ultimately show ?thesis by (auto simp: readable_by_def)
qed

subsection \<open>Chains of revisions\<close>

lemma compatible_refl: "well_formed_schema s \<Longrightarrow> compatible s s"
proof -
  assume wf: "well_formed_schema s"
  then have "f = g" if "f \<in> set (sc_fields s)" "g \<in> set (sc_fields s)" "tag f = tag g" for f g
    using that by (auto simp: well_formed_schema_def distinct_map dest: inj_onD)
  then show ?thesis using wf by (auto simp: compatible_def tags_def)
qed

lemma compatible_trans:
  assumes ab: "compatible a b" and bc: "compatible b c"
  shows "compatible a c"
proof -
  have res: "set (reserved_tags a) \<subseteq> set (reserved_tags b)"
      "set (reserved_tags b) \<subseteq> set (reserved_tags c)"
    using ab bc by (auto simp: compatible_def)
  have gone: "\<not> required f \<and> tag f \<in> set (reserved_tags c)"
    if f: "f \<in> set (sc_fields a)" and "tag f \<notin> tags c" for f
  proof (cases "tag f \<in> tags b")
    case False
    then show ?thesis using ab f res by (auto simp: compatible_def)
  next
    case True
    then obtain g where g: "g \<in> set (sc_fields b)" "tag f = tag g" by (auto simp: tags_def)
    then have "\<not> required g \<and> tag g \<in> set (reserved_tags c)"
      using bc that(2) by (auto simp: compatible_def)
    then show ?thesis using compatible_kind [OF ab f g] g(2) by simp
  qed
  have stays: "kind f = kind h \<and> (required f \<longleftrightarrow> required h)"
    if f: "f \<in> set (sc_fields a)" and h: "h \<in> set (sc_fields c)" and t: "tag f = tag h" for f h
  proof -
    have "tag h \<in> tags c" using h by (simp add: tags_def)
    then have "tag f \<notin> set (reserved_tags c)"
      using bc t well_formed_disjoint [of c "tag h"] by (auto simp: compatible_def)
    then have "tag f \<in> tags b"
      using ab f res by (auto simp: compatible_def)
    then obtain g where g: "g \<in> set (sc_fields b)" "tag f = tag g" by (auto simp: tags_def)
    show ?thesis
      using compatible_kind [OF ab f g] compatible_kind [OF bc g(1) h] g(2) t by simp
  qed
  have new: "tag h \<in> tags a" if "h \<in> set (sc_fields c)" "required h" for h
    using compatible_required_old [OF bc that] compatible_required_old [OF ab]
    unfolding tags_def by (metis imageI)
  show ?thesis
    using ab bc res gone stays new unfolding compatible_def by auto
qed

subsection \<open>Properties\<close>

definition schema_v1 :: schema where
  "schema_v1 = \<lparr>sc_event = EventId 1, sc_wire_major = 1, sc_revision = 1,
     sc_fields = [\<lparr>tag = 1, kind = Kind_Unsigned, presence = Presence_Required\<rparr>,
                  \<lparr>tag = 2, kind = Kind_Text, presence = Presence_Optional\<rparr>],
     reserved_tags = [9]\<rparr>"

definition schema_v2 :: schema where
  "schema_v2 = \<lparr>sc_event = EventId 1, sc_wire_major = 1, sc_revision = 2,
     sc_fields = [\<lparr>tag = 3, kind = Kind_Bool, presence = Presence_Defaulted\<rparr>,
                  \<lparr>tag = 1, kind = Kind_Unsigned, presence = Presence_Required\<rparr>],
     reserved_tags = [2, 9]\<rparr>"

definition schema_v3 :: schema where
  "schema_v3 = \<lparr>sc_event = EventId 1, sc_wire_major = 1, sc_revision = 3,
     sc_fields = [\<lparr>tag = 1, kind = Kind_Unsigned, presence = Presence_Required\<rparr>],
     reserved_tags = [3, 2, 9]\<rparr>"

text \<open>C33: \<open>validate_evolution\<close> accepts exactly the compatible pairs: both schemas have distinct
  tags, the identity and major stay, reserved tags only grow and are never reused, a field that
  disappears was omittable and is reserved, a field that stays keeps its kind and whether it is
  required, and no new field is required.\<close>

theorem evolution_exact:
  "validate_evolution previous nxt = Ok () \<longleftrightarrow> compatible previous nxt"
  by (rule validate_evolution_Ok_iff)

text \<open>C34: After an accepted evolution, old and new readers understand each other's messages: a
  message written by either revision has every required field of the other with its kind, and a
  new message never carries a tag the old schema had reserved.\<close>

theorem evolution_readable:
  assumes "validate_evolution previous nxt = Ok ()"
  shows "(written_by nxt m \<longrightarrow> readable_by previous m \<and> avoids_reserved previous m)
    \<and> (written_by previous m \<longrightarrow> readable_by nxt m)"
  using assms compatible_reads_new compatible_reads_old by (auto simp: validate_evolution_Ok_iff)

theorem evolution_readable_witness:
  "readable_by schema_v1 [(1, Kind_Unsigned), (3, Kind_Bool)]
    \<and> readable_by schema_v2 [(1, Kind_Unsigned), (2, Kind_Text)]"
proof -
  have ok: "validate_evolution schema_v1 schema_v2 = Ok ()" by code_simp
  have "written_by schema_v2 [(1, Kind_Unsigned), (3, Kind_Bool)]"
    and "written_by schema_v1 [(1, Kind_Unsigned), (2, Kind_Text)]"
    by (simp_all add: written_by_def schema_v1_def schema_v2_def)
  then show ?thesis using evolution_readable [OF ok] by blast
qed

text \<open>C35: Compatibility composes: a reader may skip revisions, since two accepted evolutions in a
  row are an accepted evolution from the first schema to the last.\<close>

theorem evolution_transitive:
  assumes "validate_evolution a b = Ok ()" and "validate_evolution b c = Ok ()"
  shows "validate_evolution a c = Ok ()"
  using assms compatible_trans by (auto simp: validate_evolution_Ok_iff)

theorem evolution_transitive_witness: "validate_evolution schema_v1 schema_v3 = Ok ()"
  by (rule evolution_transitive [of schema_v1 schema_v2]) code_simp+

end
