(* ===== verification/Hiway_Frame.thy ===== *)
theory Hiway_Frame
  imports Hiway_Wire
begin

text \<open>
  \<open>encode_frame\<close> of \<open>hiway/src/transport/mod.rs\<close> and the \<open>WireCodec\<close> interface of
  \<open>wire.rs\<close>. A codec is application code: its three functions are a parameter, the record
  \<open>wire_codec\<close>. The interface \<open>lossless_codec\<close> is what the frame layer needs of a codec to
  carry a payload unchanged; it is interpreted on the codec of \<open>hiway/examples/ipc_process.rs\<close>.
\<close>

definition HEADER_BYTES :: nat where "HEADER_BYTES = 38"
definition CREDIT_BYTES :: nat where "CREDIT_BYTES = 9"

text \<open>\<open>b"HWY1"\<close>.\<close>

definition HWY1 :: bytes where "HWY1 = [0x48, 0x57, 0x59, 0x31]"

text \<open>\<open>encode\<close> gets a mutable slice: it returns the slice after the call with its result, so a
  failing codec may leave anything in it, but cannot change its length.\<close>

record 'p wire_codec =
  wc_spec :: event_spec
  wc_encoded_len :: "'p \<Rightarrow> nat"
  wc_encode :: "'p \<Rightarrow> bytes \<Rightarrow> bytes \<times> (nat, wire_error) result"
  wc_decode :: "bytes \<Rightarrow> u32 \<Rightarrow> ('p, wire_error) result"

definition encode_frame ::
    "'p wire_codec \<Rightarrow> u64 \<Rightarrow> 'p \<Rightarrow> bytes \<Rightarrow> bytes \<times> (nat, transport_error) result" where
  "encode_frame c seq payload output =
     (let len = wc_encoded_len c payload in
      case checked_add usize_max HEADER_BYTES len of
        None \<Rightarrow> (output, Err Error_Capacity)
      | Some whole \<Rightarrow>
          if whole > length output then (output, Err Error_Capacity)
          else
           (case u32_try_from len of
              None \<Rightarrow> (output, Err Error_Capacity)
            | Some wire_length \<Rightarrow>
               (case wc_encode c payload (sub_slice HEADER_BYTES len output) of (body, r) \<Rightarrow>
                 (let output = put_at HEADER_BYTES body output in
                  case r of
                    Err e \<Rightarrow> (output, Err (Error_Wire e))
                  | Ok n \<Rightarrow>
                      if n \<noteq> len then (output, Err (Error_Wire WireError_InvalidPayload))
                      else
                       (let output = put_at 0 HWY1 output;
                            output = put_at 4 (event_bytes (ID (wc_spec c))) output;
                            output = put_at 20 (to_le_bytes 2 (WIRE_MAJOR (wc_spec c))) output;
                            output = put_at 22 (to_le_bytes 4 (SCHEMA_REVISION (wc_spec c))) output;
                            output = put_at 26 (to_le_bytes 8 seq) output;
                            output = put_at 34 (to_le_bytes 4 wire_length) output
                        in (output, Ok whole))))))"

text \<open>The frame header as one string.\<close>

definition frame_header :: "event_spec \<Rightarrow> u64 \<Rightarrow> u32 \<Rightarrow> bytes" where
  "frame_header e seq len =
     HWY1 @ event_bytes (ID e) @ to_le_bytes 2 (WIRE_MAJOR e) @ to_le_bytes 4 (SCHEMA_REVISION e)
     @ to_le_bytes 8 seq @ to_le_bytes 4 len"

lemma length_HWY1 [simp]: "length HWY1 = 4"
  by (simp add: HWY1_def)

lemma length_frame_header [simp]: "length (frame_header e seq len) = 38"
  by (simp add: frame_header_def)

text \<open>Its fields, as the importing end slices them.\<close>

lemma frame_header_fields:
  "sub_slice 0 4 (frame_header e seq len @ rest) = HWY1"
  "sub_slice 4 16 (frame_header e seq len @ rest) = event_bytes (ID e)"
  "sub_slice 20 2 (frame_header e seq len @ rest) = to_le_bytes 2 (WIRE_MAJOR e)"
  "from_le_bytes (sub_slice 22 4 (frame_header e seq len @ rest)) = SCHEMA_REVISION e"
  "from_le_bytes (sub_slice 26 8 (frame_header e seq len @ rest)) = seq"
  "from_le_bytes (sub_slice 34 4 (frame_header e seq len @ rest)) = len"
  by (simp_all add: frame_header_def sub_slice_append_right sub_slice_append_left
      from_le_to_le_bytes)

lemma frame_writes:
  assumes "38 \<le> length out" and "length body = n" and "38 + n \<le> length out"
  shows "put_at 34 (to_le_bytes 4 len) (put_at 26 (to_le_bytes 8 seq)
           (put_at 22 (to_le_bytes 4 (SCHEMA_REVISION e)) (put_at 20 (to_le_bytes 2 (WIRE_MAJOR e))
             (put_at 4 (event_bytes (ID e)) (put_at 0 HWY1 (put_at 38 body out))))))
         = frame_header e seq len @ body @ drop (38 + n) out"
  using assms
  by (simp add: frame_header_def put_at_0 put_at_append)
    (simp add: put_at_def drop_take)

locale lossless_codec =
  fixes codec :: "'p wire_codec"
    and valid :: "'p \<Rightarrow> bool"
  assumes encode_ok: "valid p \<Longrightarrow> length buf = wc_encoded_len codec p \<Longrightarrow>
        \<exists>body. wc_encode codec p buf = (body, Ok (wc_encoded_len codec p))
          \<and> length body = wc_encoded_len codec p
          \<and> wc_decode codec body (SCHEMA_REVISION (wc_spec codec)) = Ok p"
begin

text \<open>A frame that fits is the header followed by an encoding of the payload; everything behind
  it keeps its bytes.\<close>

lemma encode_frame_ok:
  assumes "valid p" and "wc_encoded_len codec p \<le> u32_max"
    and "HEADER_BYTES + wc_encoded_len codec p \<le> length output" and "length output \<le> usize_max"
  obtains body where
    "encode_frame codec seq p output =
       (frame_header (wc_spec codec) seq (of_nat (wc_encoded_len codec p)) @ body
          @ drop (HEADER_BYTES + wc_encoded_len codec p) output,
        Ok (HEADER_BYTES + wc_encoded_len codec p))"
    and "length body = wc_encoded_len codec p"
    and "wc_decode codec body (SCHEMA_REVISION (wc_spec codec)) = Ok p"
proof -
  let ?n = "wc_encoded_len codec p"
  have "length (sub_slice HEADER_BYTES ?n output) = ?n"
    using assms(3) by simp
  from encode_ok [OF assms(1) this] obtain body where
    enc: "wc_encode codec p (sub_slice HEADER_BYTES ?n output) = (body, Ok ?n)"
    and len: "length body = ?n"
    and dec: "wc_decode codec body (SCHEMA_REVISION (wc_spec codec)) = Ok p" by blast
  have "checked_add usize_max HEADER_BYTES ?n = Some (HEADER_BYTES + ?n)"
    using assms by simp
  then have "encode_frame codec seq p output =
       (frame_header (wc_spec codec) seq (of_nat ?n) @ body @ drop (HEADER_BYTES + ?n) output,
        Ok (HEADER_BYTES + ?n))"
    using assms(2,3) enc len frame_writes [where body = body and n = ?n and out = "output"]
    by (simp add: encode_frame_def u32_try_from_def HEADER_BYTES_def Let_def checked_add_def)
  then show thesis using len dec by (rule that)
qed

end

subsection \<open>A codec: eight little-endian bytes\<close>

definition noise_encode :: "u64 \<Rightarrow> bytes \<Rightarrow> bytes \<times> (nat, wire_error) result" where
  "noise_encode value output =
     (if length output < 8 then (output, Err WireError_BufferTooSmall)
      else (put_at 0 (to_le_bytes 8 value) output, Ok 8))"

definition noise_decode :: "bytes \<Rightarrow> u32 \<Rightarrow> (u64, wire_error) result" where
  "noise_decode bs revision =
     (if revision \<noteq> 1 then Err WireError_UnsupportedRevision
      else if length bs \<noteq> 8 then Err WireError_InvalidPayload
      else Ok (from_le_bytes bs))"

definition noise_codec :: "event_id \<Rightarrow> u64 wire_codec" where
  "noise_codec i = \<lparr>wc_spec = default_spec i, wc_encoded_len = (\<lambda>_. 8),
     wc_encode = noise_encode, wc_decode = noise_decode\<rparr>"

interpretation noise: lossless_codec "noise_codec i" always for i :: event_id
  by unfold_locales
    (simp add: noise_codec_def noise_encode_def noise_decode_def default_spec_def put_at_0
      from_le_to_le_bytes)

lemma encode_frame_capacity:
  assumes "\<not> HEADER_BYTES + wc_encoded_len c p \<le> length output \<or> u32_max < wc_encoded_len c p"
  shows "encode_frame c seq p output = (output, Err Error_Capacity)"
  using assms
  by (auto simp: encode_frame_def u32_try_from_def Let_def split: option.splits)

lemma encode_frame_length:
  assumes slice: "\<And>p buf. length (fst (wc_encode c p buf)) = length buf"
  shows "length (fst (encode_frame c seq p output)) = length output"
  using slice [of p "sub_slice HEADER_BYTES (wc_encoded_len c p) output"]
  by (auto simp: encode_frame_def Let_def HEADER_BYTES_def split: option.splits prod.splits result.splits)

subsection \<open>Properties\<close>

text \<open>C38: Encoding a frame is exact. A frame that does not fit, or whose payload length has no
  32-bit form, is refused with \<open>Capacity\<close> without touching the buffer. A frame that fits is encoded
  exactly when the codec encodes the payload and reports the length it announced: the header and
  the codec's bytes then stand in front of the old rest of the buffer. A codec's error is passed on,
  a wrong length is an invalid payload, and in both cases nothing but the payload's place changes.\<close>

theorem encode_frame_exact:
  assumes "\<And>p buf. length (fst (wc_encode c p buf)) = length buf" and "length buf \<le> usize_max"
  shows "(let len = wc_encoded_len c p;
              (body, r) = wc_encode c p (sub_slice HEADER_BYTES len buf);
              rest = drop (HEADER_BYTES + len) buf
          in encode_frame c seq p buf =
             (if HEADER_BYTES + len \<le> length buf \<and> len \<le> u32_max
              then (case r of
                      Err e \<Rightarrow> (take HEADER_BYTES buf @ body @ rest, Err (Error_Wire e))
                    | Ok n \<Rightarrow>
                        if n = len
                        then (frame_header (wc_spec c) seq (of_nat len) @ body @ rest, Ok (HEADER_BYTES + len))
                        else (take HEADER_BYTES buf @ body @ rest, Err (Error_Wire WireError_InvalidPayload)))
              else (buf, Err Error_Capacity)))"
proof (cases "HEADER_BYTES + wc_encoded_len c p \<le> length buf \<and> wc_encoded_len c p \<le> u32_max")
  case False
  then show ?thesis using encode_frame_capacity [of c p buf seq] by (auto simp: Let_def split: prod.split)
next
  case True
  let ?n = "wc_encoded_len c p"
  obtain body r where enc: "wc_encode c p (sub_slice HEADER_BYTES ?n buf) = (body, r)" by fastforce
  have "?n \<le> length buf - HEADER_BYTES" using True by linarith
  then have len: "length body = ?n"
    using assms(1) [of p "sub_slice HEADER_BYTES ?n buf"] enc by (simp add: min_absorb1)
  have fits: "checked_add usize_max HEADER_BYTES ?n = Some (HEADER_BYTES + ?n)" using True assms(2) by simp
  have put: "put_at HEADER_BYTES body buf = take HEADER_BYTES buf @ body @ drop (HEADER_BYTES + ?n) buf"
    using True len by (simp add: put_at_def)
  show ?thesis
    using True enc len put frame_writes [folded HEADER_BYTES_def, of buf body ?n "of_nat ?n" seq "wc_spec c"]
    by (cases r) (simp_all add: encode_frame_def u32_try_from_def Let_def fits)
qed

theorem encode_frame_exact_witness:
  "encode_frame (noise_codec (EventId 5)) 1 77 (replicate 47 0) =
     (frame_header (default_spec (EventId 5)) 1 8 @ to_le_bytes 8 (77 :: u64) @ [0], Ok 46)"
proof -
  have "length (fst (wc_encode (noise_codec (EventId 5)) p buf)) = length buf" for p buf
    by (simp add: noise_codec_def noise_encode_def)
  from encode_frame_exact [OF this, of "replicate 47 0" 77 1]
  show ?thesis
    by (simp add: noise_codec_def noise_encode_def HEADER_BYTES_def width_defs Let_def put_at_0)
qed

end
