(* ===== verification/Hiway_Accountability.thy ===== *)
theory Hiway_Accountability
  imports Hiway_Event
begin

text \<open>
  \<open>hiway/src/transport/accountability.rs\<close>: the bounded history of one provisioned
  connection. \<open>Records\<close> is a ring of \<open>CAP\<close> optional entries that discards the oldest record
  when full and counts what it discarded; the interface \<open>bounded_fifo\<close> states that contract on
  the list of retained records, and is interpreted on the ring. \<open>Accountability\<close> adds the
  attribution and the rule that nothing is recorded after a terminal outcome.
\<close>

subsection \<open>The contract of a bounded history\<close>

datatype 't fifo_call = Push 't | Pop

text \<open>What a history of capacity \<open>cap\<close> promises, on the retained records (oldest first) and the
  loss count.\<close>

fun fifo_step :: "nat \<Rightarrow> 't list \<times> nat \<Rightarrow> 't fifo_call \<Rightarrow> ('t list \<times> nat) \<times> 't option" where
  "fifo_step cap (xs, n) (Push x) =
     ((drop (Suc (length xs) - cap) (xs @ [x]),
       saturating_add u64_max n (Suc (length xs) - cap)), None)"
| "fifo_step cap ([], n) Pop = (([], n), None)"
| "fifo_step cap (x # xs, n) Pop = ((xs, n), Some x)"

text \<open>The calls against an implementation with operations \<open>push\<close> and \<open>pop\<close>.\<close>

fun queue_step :: "('s \<Rightarrow> 't \<Rightarrow> 's) \<Rightarrow> ('s \<Rightarrow> 's \<times> 't option) \<Rightarrow> 's \<Rightarrow> 't fifo_call \<Rightarrow> 's \<times> 't option"
  where
  "queue_step push pop s (Push x) = (push s x, None)"
| "queue_step push pop s Pop = pop s"

locale bounded_fifo =
  fixes cap :: nat
    and empty :: "'s"
    and push :: "'s \<Rightarrow> 't \<Rightarrow> 's"
    and pop :: "'s \<Rightarrow> 's \<times> 't option"
    and items :: "'s \<Rightarrow> 't list"
    and losses :: "'s \<Rightarrow> nat"
    and invar :: "'s \<Rightarrow> bool"
  assumes invar_empty: "invar empty"
    and items_empty: "items empty = []"
    and losses_empty: "losses empty = 0"
    and losses_le: "invar s \<Longrightarrow> losses s \<le> u64_max"
    and items_le: "invar s \<Longrightarrow> length (items s) \<le> cap"
    and invar_push: "invar s \<Longrightarrow> invar (push s x)"
    and items_push: "invar s \<Longrightarrow> items (push s x) = drop (Suc (length (items s)) - cap) (items s @ [x])"
    and losses_push: "invar s \<Longrightarrow>
        losses (push s x) = saturating_add u64_max (losses s) (Suc (length (items s)) - cap)"
    and invar_pop: "invar s \<Longrightarrow> invar (fst (pop s))"
    and items_pop: "invar s \<Longrightarrow> items (fst (pop s)) = tl (items s)"
    and losses_pop: "invar s \<Longrightarrow> losses (fst (pop s)) = losses s"
    and pop_value: "invar s \<Longrightarrow>
        snd (pop s) = (case items s of [] \<Rightarrow> None | x # _ \<Rightarrow> Some x)"
begin

definition view :: "'s \<Rightarrow> 't list \<times> nat" where
  "view s = (items s, losses s)"

lemma invar_step: "invar s \<Longrightarrow> invar (fst (queue_step push pop s c))"
  by (cases c) (auto simp: invar_push invar_pop)

lemma step_refines:
  "invar s \<Longrightarrow> fifo_step cap (view s) c = (view (fst (queue_step push pop s c)), snd (queue_step push pop s c))"
  by (cases c; cases "items s")
    (auto simp: view_def items_push losses_push items_pop losses_pop pop_value)

text \<open>A whole run shows only the abstract history: by simulation, step by step.\<close>

lemma run_refines:
  "invar s \<Longrightarrow> run_calls (fifo_step cap) (view s) cs =
     (view (fst (run_calls (queue_step push pop) s cs)), snd (run_calls (queue_step push pop) s cs))"
  by (rule run_calls_simulation [where good = invar]) (simp_all add: invar_step step_refines)

lemma view_empty: "view empty = ([], 0)"
  by (simp add: view_def items_empty losses_empty)

lemma push_below_capacity:
  "invar s \<Longrightarrow> length (items s) < cap \<Longrightarrow> items (push s x) = items s @ [x]"
  by (simp add: items_push)

lemma length_items_push: "invar s \<Longrightarrow> length (items (push s x)) = min cap (Suc (length (items s)))"
  using items_le [of s] by (simp add: items_push)

end

subsection \<open>The ring\<close>

text \<open>\<open>Records<T, CAP>\<close>: \<open>entries\<close> is the array, so \<open>CAP\<close> is its length.\<close>

record 't records =
  rec_entries :: "'t option list"
  rec_head :: nat
  rec_len :: nat
  rec_lost :: nat

definition CAP :: "'t records \<Rightarrow> nat" where
  "CAP r = length (rec_entries r)"

definition records_new :: "nat \<Rightarrow> 't records" where
  "records_new cap = \<lparr>rec_entries = replicate cap None, rec_head = 0, rec_len = 0, rec_lost = 0\<rparr>"

definition records_add_lost :: "nat \<Rightarrow> 't records \<Rightarrow> 't records" where
  "records_add_lost n r = r\<lparr>rec_lost := saturating_add u64_max (rec_lost r) n\<rparr>"

definition records_push :: "'t records \<Rightarrow> 't \<Rightarrow> 't records" where
  "records_push r x =
     (if CAP r = 0 then records_add_lost 1 r
      else if rec_len r = CAP r
      then records_add_lost 1
             (r\<lparr>rec_entries := (rec_entries r)[rec_head r := Some x],
                rec_head := (rec_head r + 1) mod CAP r\<rparr>)
      else r\<lparr>rec_entries := (rec_entries r)[(rec_head r + rec_len r) mod CAP r := Some x],
             rec_len := rec_len r + 1\<rparr>)"

definition records_pop :: "'t records \<Rightarrow> 't records \<times> 't option" where
  "records_pop r =
     (if rec_len r = 0 then (r, None)
      else (r\<lparr>rec_entries := (rec_entries r)[rec_head r := None],
              rec_head := (rec_head r + 1) mod CAP r,
              rec_len := rec_len r - 1\<rparr>,
            rec_entries r ! rec_head r))"

text \<open>The retained records, oldest first.\<close>

definition slot_at :: "'t records \<Rightarrow> nat \<Rightarrow> nat" where
  "slot_at r i = (rec_head r + i) mod CAP r"

definition records_items :: "'t records \<Rightarrow> 't list" where
  "records_items r = map (\<lambda>i. the (rec_entries r ! slot_at r i)) [0..<rec_len r]"

definition records_inv :: "nat \<Rightarrow> 't records \<Rightarrow> bool" where
  "records_inv cap r \<longleftrightarrow>
     CAP r = cap \<and> rec_len r \<le> cap \<and> rec_lost r \<le> u64_max \<and> (0 < cap \<longrightarrow> rec_head r < cap)
     \<and> (\<forall>i < rec_len r. rec_entries r ! slot_at r i \<noteq> None)"

lemma slot_at_lt: "records_inv cap r \<Longrightarrow> 0 < cap \<Longrightarrow> slot_at r i < length (rec_entries r)"
  by (simp add: slot_at_def records_inv_def CAP_def)

lemma slot_at_eq_iff:
  "i < CAP r \<Longrightarrow> j < CAP r \<Longrightarrow> slot_at r i = slot_at r j \<longleftrightarrow> i = j"
  by (simp add: slot_at_def mod_add_eq_iff)

lemma slot_at_0: "records_inv cap r \<Longrightarrow> 0 < cap \<Longrightarrow> slot_at r 0 = rec_head r"
  by (simp add: slot_at_def records_inv_def)

lemma slot_at_advance:
  "rec_head s = (rec_head r + 1) mod CAP r \<Longrightarrow> CAP s = CAP r \<Longrightarrow> slot_at s i = slot_at r (Suc i)"
  by (simp add: slot_at_def mod_simps)

lemma records_new_inv: "records_inv cap (records_new cap)"
  by (simp add: records_inv_def records_new_def CAP_def)

lemma records_items_new: "records_items (records_new cap) = []"
  by (simp add: records_items_def records_new_def)

lemma length_records_items [simp]: "length (records_items r) = rec_len r"
  by (simp add: records_items_def)

lemma nth_records_items: "i < rec_len r \<Longrightarrow> records_items r ! i = the (rec_entries r ! slot_at r i)"
  by (simp add: records_items_def)

text \<open>The three shapes of a call, on the retained records. A slot is addressed by its position
  in the queue; distinct positions are distinct array indices.\<close>

lemma records_invD:
  assumes "records_inv cap r"
  shows "CAP r = cap" and "length (rec_entries r) = cap" and "rec_len r \<le> cap"
    and "rec_lost r \<le> u64_max"
    and "0 < cap \<Longrightarrow> rec_head r < cap" and "i < rec_len r \<Longrightarrow> rec_entries r ! slot_at r i \<noteq> None"
  using assms by (auto simp: records_inv_def CAP_def)

lemma records_itemsI:
  assumes "length xs = rec_len s"
    and "\<And>k. k < rec_len s \<Longrightarrow> rec_entries s ! slot_at s k = Some (xs ! k)"
  shows "records_items s = xs"
  by (rule nth_equalityI) (simp_all add: assms nth_records_items)

lemma records_invI:
  assumes "CAP s = cap" and "rec_len s \<le> cap" and "0 < cap \<Longrightarrow> rec_head s < cap"
    and "rec_lost s \<le> u64_max"
    and "\<And>k. k < rec_len s \<Longrightarrow> rec_entries s ! slot_at s k = Some (xs ! k)"
  shows "records_inv cap s"
  using assms by (auto simp: records_inv_def)

lemma records_entry:
  "records_inv cap r \<Longrightarrow> k < rec_len r \<Longrightarrow>
     rec_entries r ! slot_at r k = Some (records_items r ! k)"
  using records_invD(6) [of cap r k] by (auto simp: nth_records_items)

lemma records_push_room:
  assumes i: "records_inv cap r" and room: "rec_len r < cap"
  shows "records_inv cap (records_push r x) \<and> records_items (records_push r x) = records_items r @ [x]"
proof -
  note d = records_invD [OF i]
  define s where "s = records_push r x"
  have f: "rec_entries s = (rec_entries r)[slot_at r (rec_len r) := Some x]"
    "rec_head s = rec_head r" "rec_len s = Suc (rec_len r)" "CAP s = cap" "rec_lost s = rec_lost r"
    using room d by (auto simp: s_def records_push_def slot_at_def CAP_def)
  have slot: "slot_at s k = slot_at r k" for k using f d by (simp add: slot_at_def)
  have e: "rec_entries s ! slot_at s k = Some ((records_items r @ [x]) ! k)" if "k < rec_len s" for k
  proof (cases "k = rec_len r")
    case True
    then show ?thesis using slot_at_lt [OF i] room d by (simp add: slot f nth_append)
  next
    case False
    then have "k < rec_len r" using that f by simp
    then show ?thesis
      using room d slot_at_eq_iff [of k r "rec_len r"]
      by (simp add: slot f nth_append records_entry [OF i])
  qed
  have "records_inv cap s" by (rule records_invI [OF _ _ _ _ e]) (use f d room in auto)
  moreover have "records_items s = records_items r @ [x]" by (rule records_itemsI [OF _ e]) (use f in auto)
  ultimately show ?thesis by (simp add: s_def)
qed

lemma records_push_full:
  assumes i: "records_inv cap r" and full: "rec_len r = cap" and pos: "0 < cap"
  shows "records_inv cap (records_push r x)
    \<and> records_items (records_push r x) = tl (records_items r) @ [x]"
proof -
  note d = records_invD [OF i]
  define s where "s = records_push r x"
  have f: "rec_entries s = (rec_entries r)[rec_head r := Some x]"
    "rec_head s = (rec_head r + 1) mod cap" "rec_len s = cap" "CAP s = cap"
    "rec_lost s \<le> u64_max"
    using full pos d by (auto simp: s_def records_push_def records_add_lost_def CAP_def)
  have slot: "slot_at s k = slot_at r (Suc k)" for k
    by (rule slot_at_advance) (use f d in simp_all)
  have e: "rec_entries s ! slot_at s k = Some ((tl (records_items r) @ [x]) ! k)"
    if "k < rec_len s" for k
  proof (cases "Suc k = cap")
    case True
    have "slot_at r cap = rec_head r" using d pos by (simp add: slot_at_def)
    with True show ?thesis using d pos full by (auto simp: slot f nth_append)
  next
    case False
    then have "Suc k < cap" using that f by simp
    then show ?thesis
      using full d slot_at_eq_iff [of 0 r "Suc k"] slot_at_0 [OF i pos]
      by (auto simp: slot f nth_append nth_tl records_entry [OF i])
  qed
  have "records_inv cap s" by (rule records_invI [OF _ _ _ _ e]) (use f d pos in auto)
  moreover have "records_items s = tl (records_items r) @ [x]"
    by (rule records_itemsI [OF _ e]) (use f full pos in auto)
  ultimately show ?thesis by (simp add: s_def)
qed

lemma records_pop_some:
  assumes i: "records_inv cap r" and pos: "0 < rec_len r"
  shows "records_inv cap (fst (records_pop r))
    \<and> records_items (fst (records_pop r)) = tl (records_items r)
    \<and> snd (records_pop r) = Some (hd (records_items r))"
proof -
  note d = records_invD [OF i]
  have cap: "0 < cap" using d pos by simp
  define s where "s = fst (records_pop r)"
  have f: "rec_entries s = (rec_entries r)[rec_head r := None]"
    "rec_head s = (rec_head r + 1) mod cap" "rec_len s = rec_len r - 1" "CAP s = cap"
    "rec_lost s = rec_lost r"
    using pos d by (auto simp: s_def records_pop_def CAP_def)
  have slot: "slot_at s k = slot_at r (Suc k)" for k
    by (rule slot_at_advance) (use f d in simp_all)
  have e: "rec_entries s ! slot_at s k = Some (tl (records_items r) ! k)" if "k < rec_len s" for k
    using that f d slot_at_eq_iff [of 0 r "Suc k"] slot_at_0 [OF i cap]
    by (simp add: slot nth_tl records_entry [OF i])
  have "records_inv cap s" by (rule records_invI [OF _ _ _ _ e]) (use f d cap in auto)
  moreover have "records_items s = tl (records_items r)" by (rule records_itemsI [OF _ e]) (use f in auto)
  moreover have "snd (records_pop r) = Some (hd (records_items r))"
    using pos slot_at_0 [OF i cap] records_entry [OF i pos]
    by (auto simp: records_pop_def hd_conv_nth simp flip: length_0_conv)
  ultimately show ?thesis by (simp add: s_def)
qed

lemma records_lost:
  "rec_lost (records_push r x) =
     (if CAP r = 0 \<or> rec_len r = CAP r then saturating_add u64_max (rec_lost r) 1 else rec_lost r)"
  "rec_lost (fst (records_pop r)) = rec_lost r"
  by (simp_all add: records_push_def records_pop_def records_add_lost_def)

lemma records_push_zero:
  assumes "records_inv 0 r"
  shows "records_inv 0 (records_push r x) \<and> records_items (records_push r x) = []"
  using assms by (auto simp: records_inv_def records_push_def records_add_lost_def CAP_def records_items_def)

lemma records_items_none: "rec_len r = 0 \<Longrightarrow> records_items r = []"
  by (simp add: records_items_def)

lemma records_pop_empty: "rec_len r = 0 \<Longrightarrow> records_pop r = (r, None)"
  by (simp add: records_pop_def)

interpretation ring: bounded_fifo cap "records_new cap" records_push records_pop records_items rec_lost
  "records_inv cap" for cap :: nat
proof (unfold_locales, goal_cases)
  case (4 r)
  then show ?case by (simp add: records_inv_def)
next
  case (5 r)
  then show ?case by (simp add: records_inv_def)
next
  case (6 r x)
  note d = records_invD [OF 6]
  consider "rec_len r < cap" | "rec_len r = cap" "0 < cap" | "cap = 0" using d by linarith
  then show ?case
    by cases (use 6 in \<open>simp_all add: records_push_room records_push_full records_push_zero\<close>)
next
  case (7 r x)
  note d = records_invD [OF 7]
  consider "rec_len r < cap" | "rec_len r = cap" "0 < cap" | "cap = 0" using d by linarith
  then show ?case
  proof cases
    case 2
    then show ?thesis using 7 records_push_full [of cap r x] by (simp add: drop_Suc)
  qed (use 7 d in \<open>simp_all add: records_push_room records_push_zero\<close>)
next
  case (8 r x)
  note d = records_invD [OF 8]
  then show ?case by (auto simp: records_lost saturating_add_def Suc_diff_le min_def)
next
  case (9 r)
  then show ?case by (cases "rec_len r") (auto simp: records_pop_some records_pop_empty)
next
  case (10 r)
  then show ?case
    by (cases "rec_len r") (auto simp: records_pop_some records_pop_empty records_items_none)
next
  case (12 r)
  then show ?case
    by (cases "rec_len r"; cases "records_items r")
      (auto simp: records_pop_some records_pop_empty simp flip: length_records_items)
qed (simp_all add: records_new_inv records_items_new records_lost, simp_all add: records_new_def)

subsection \<open>One connection's account\<close>

datatype direction = Import | Export

record connection =
  cn_id :: u64
  cn_generation :: u64

datatype outcome =
    Outcome_Admitted
  | Outcome_Completed
  | Outcome_Rejected transport_error
  | Outcome_Cancelled

record record_entry =
  re_connection :: connection
  re_contract :: contract
  re_direction :: direction
  re_sequence :: "u64 option"
  re_outcome :: outcome

record frame_record =
  fr_sequence :: "u64 option"
  fr_outcome :: outcome

record accountability =
  ac_connection :: connection
  ac_contract :: contract
  ac_direction :: direction
  ac_sequence :: "u64 option"
  ac_terminal :: bool
  ac_records :: "frame_record records"

definition accountability_new :: "connection \<Rightarrow> contract \<Rightarrow> direction \<Rightarrow> accountability" where
  "accountability_new cn c d =
     \<lparr>ac_connection = cn, ac_contract = c, ac_direction = d, ac_sequence = None,
      ac_terminal = False, ac_records = records_new 8\<rparr>"

definition acc_pop :: "accountability \<Rightarrow> accountability \<times> record_entry option" where
  "acc_pop a =
     (case records_pop (ac_records a) of (rs, r) \<Rightarrow>
        (a\<lparr>ac_records := rs\<rparr>,
         map_option (\<lambda>f. \<lparr>re_connection = ac_connection a, re_contract = ac_contract a,
             re_direction = ac_direction a, re_sequence = fr_sequence f,
             re_outcome = fr_outcome f\<rparr>) r))"

definition acc_lost :: "accountability \<Rightarrow> nat" where
  "acc_lost a = rec_lost (ac_records a)"

definition acc_observe :: "u64 \<Rightarrow> accountability \<Rightarrow> accountability" where
  "acc_observe n a = a\<lparr>ac_sequence := Some n\<rparr>"

definition acc_record :: "u64 option \<Rightarrow> outcome \<Rightarrow> accountability \<Rightarrow> accountability" where
  "acc_record n out a =
     (if ac_terminal a then a
      else a\<lparr>ac_records := records_push (ac_records a) \<lparr>fr_sequence = n, fr_outcome = out\<rparr>\<rparr>)"

definition acc_admitted :: "accountability \<Rightarrow> accountability" where
  "acc_admitted a = acc_record (ac_sequence a) Outcome_Admitted a"

definition acc_completed :: "u64 \<Rightarrow> accountability \<Rightarrow> accountability" where
  "acc_completed n a = acc_record (Some n) Outcome_Completed a"

definition acc_finish :: "transport_error \<Rightarrow> accountability \<Rightarrow> accountability" where
  "acc_finish e a = (acc_record (ac_sequence a) (Outcome_Rejected e) a)\<lparr>ac_terminal := True\<rparr>"

definition acc_cancel :: "accountability \<Rightarrow> accountability" where
  "acc_cancel a = (acc_record (ac_sequence a) Outcome_Cancelled a)\<lparr>ac_terminal := True\<rparr>"

lemmas acc_defs = acc_observe_def acc_record_def acc_admitted_def acc_completed_def acc_finish_def
  acc_cancel_def

subsection \<open>What a drained account tells\<close>

datatype acc_call =
    Observe u64
  | Record_Admitted
  | Record_Completed u64
  | Record_Finish transport_error
  | Record_Cancel
  | Drain

fun acc_step :: "accountability \<Rightarrow> acc_call \<Rightarrow> accountability \<times> record_entry option" where
  "acc_step a (Observe n) = (acc_observe n a, None)"
| "acc_step a Record_Admitted = (acc_admitted a, None)"
| "acc_step a (Record_Completed n) = (acc_completed n a, None)"
| "acc_step a (Record_Finish e) = (acc_finish e a, None)"
| "acc_step a Record_Cancel = (acc_cancel a, None)"
| "acc_step a Drain = acc_pop a"

definition acc_items :: "accountability \<Rightarrow> frame_record list" where
  "acc_items a = records_items (ac_records a)"

definition acc_inv :: "accountability \<Rightarrow> bool" where
  "acc_inv a \<longleftrightarrow> records_inv 8 (ac_records a)"

text \<open>Outcomes after which a connection records nothing.\<close>

fun terminal_outcome :: "outcome \<Rightarrow> bool" where
  "terminal_outcome (Outcome_Rejected _) = True"
| "terminal_outcome Outcome_Cancelled = True"
| "terminal_outcome _ = False"

lemma acc_inv_new: "acc_inv (accountability_new cn c d)"
  by (simp add: acc_inv_def accountability_new_def records_new_inv)

lemma acc_inv_step: "acc_inv a \<Longrightarrow> acc_inv (fst (acc_step a c))"
  by (cases c)
    (auto simp: acc_inv_def acc_defs acc_pop_def ring.invar_push split: prod.splits
      dest: ring.invar_pop)

lemma acc_record_items:
  "acc_inv a \<Longrightarrow> acc_items (acc_record n out a) =
     (if ac_terminal a then acc_items a
      else drop (length (acc_items a) - 7) (acc_items a @ [\<lparr>fr_sequence = n, fr_outcome = out\<rparr>]))"
  by (auto simp: acc_inv_def acc_items_def acc_record_def ring.items_push)

lemma acc_record_attribution [simp]:
  "ac_terminal (acc_record n out a) = ac_terminal a"
  "ac_connection (acc_record n out a) = ac_connection a"
  "ac_contract (acc_record n out a) = ac_contract a"
  "ac_direction (acc_record n out a) = ac_direction a"
  by (simp_all add: acc_record_def)

lemma acc_pop_items:
  "acc_inv a \<Longrightarrow> acc_items (fst (acc_pop a)) = tl (acc_items a)"
  by (auto simp: acc_inv_def acc_items_def acc_pop_def ring.items_pop split: prod.splits
      dest: ring.items_pop)

lemma acc_pop_terminal [simp]: "ac_terminal (fst (acc_pop a)) = ac_terminal a"
  by (simp add: acc_pop_def split: prod.splits)

text \<open>A list of outcomes in which a terminal one, if the account has ended, comes last.\<close>

definition settled :: "outcome list \<Rightarrow> bool \<Rightarrow> bool" where
  "settled xs ended \<longleftrightarrow> list_all (\<lambda>out. \<not> terminal_outcome out) (if ended then butlast xs else xs)"

lemma settled_record:
  assumes "settled (pre @ ys) False" and "\<not> terminal_outcome out \<or> ended"
  shows "settled (pre @ drop k ys @ [out]) ended"
proof -
  have "list_all (\<lambda>out. \<not> terminal_outcome out) (pre @ drop k ys)"
    using assms(1) by (auto simp: settled_def list_all_iff dest: in_set_dropD)
  then show ?thesis using assms(2) by (auto simp: settled_def butlast_append)
qed

lemma settled_cut: "settled xs False \<Longrightarrow> settled xs ended"
  by (auto simp: settled_def list_all_iff dest: in_set_butlastD)

lemma acc_record_settled:
  assumes "acc_inv a" and "settled (pre @ map fr_outcome (acc_items a)) (ac_terminal a)"
    and "\<not> terminal_outcome out \<or> ended" and "ac_terminal a \<longrightarrow> ended"
  shows "settled (pre @ map fr_outcome (acc_items (acc_record n out a))) ended"
  using assms by (cases "ac_terminal a") (simp_all add: acc_record_items settled_record drop_map [symmetric])

lemma acc_items_update [simp]:
  "acc_items (a\<lparr>ac_sequence := n\<rparr>) = acc_items a" "acc_items (a\<lparr>ac_terminal := t\<rparr>) = acc_items a"
  by (simp_all add: acc_items_def)

lemma acc_pop_settled:
  "acc_inv a \<Longrightarrow> acc_pop a = (a', out) \<Longrightarrow>
     map re_outcome (case out of None \<Rightarrow> [] | Some r \<Rightarrow> [r]) @ map fr_outcome (acc_items a')
       = map fr_outcome (acc_items a)"
  using ring.pop_value [of 8 "ac_records a"] ring.items_pop [of 8 "ac_records a"]
  by (auto simp: acc_pop_def acc_inv_def acc_items_def split: prod.splits list.splits)

lemma acc_step_settled:
  assumes "acc_inv a" and "settled (pre @ map fr_outcome (acc_items a)) (ac_terminal a)"
    and "acc_step a c = (a', out)"
  shows "settled (pre @ map re_outcome (case out of None \<Rightarrow> [] | Some r \<Rightarrow> [r])
            @ map fr_outcome (acc_items a')) (ac_terminal a')"
proof (cases c)
  case Drain
  then show ?thesis
    using assms acc_pop_settled [OF assms(1), of a' out] acc_pop_terminal [of a] by simp
qed (use assms in \<open>auto simp: acc_observe_def acc_admitted_def acc_completed_def acc_finish_def
    acc_cancel_def intro: acc_record_settled\<close>)

text \<open>What the host has drained in a run.\<close>

definition drained :: "record_entry option list \<Rightarrow> record_entry list" where
  "drained outs = List.map_filter (\<lambda>r. r) outs"

lemma drained_Cons [simp]:
  "drained (r # outs) = (case r of None \<Rightarrow> [] | Some x \<Rightarrow> [x]) @ drained outs"
  by (simp add: drained_def split: option.split)

lemma drained_Nil [simp]: "drained [] = []"
  by (simp add: drained_def)

lemma acc_run_settled:
  "acc_inv a \<Longrightarrow> settled (pre @ map fr_outcome (acc_items a)) (ac_terminal a) \<Longrightarrow>
   run_calls acc_step a cs = (a', outs) \<Longrightarrow>
     settled (pre @ map re_outcome (drained outs) @ map fr_outcome (acc_items a')) (ac_terminal a')"
proof (induction cs arbitrary: a pre outs)
  case Nil
  then show ?case by simp
next
  case (Cons c cs)
  obtain a1 out where s: "acc_step a c = (a1, out)" by (cases "acc_step a c")
  obtain outs' where r: "run_calls acc_step a1 cs = (a', outs')" and o: "outs = out # outs'"
    using Cons.prems(3) s by (auto split: prod.splits)
  have "acc_inv a1" using acc_inv_step [OF Cons.prems(1), of c] s by simp
  from Cons.IH [OF this _ r, of "pre @ map re_outcome (case out of None \<Rightarrow> [] | Some r \<Rightarrow> [r])"]
  show ?case using acc_step_settled [OF Cons.prems(1,2) s] by (simp add: o)
qed

lemma settled_new: "settled (map fr_outcome (acc_items (accountability_new cn c d))) False"
  by (simp add: settled_def acc_items_def accountability_new_def records_items_new)

lemma settled_butlast: "settled xs t \<Longrightarrow> list_all (\<lambda>out. \<not> terminal_outcome out) (butlast xs)"
  by (auto simp: settled_def list_all_iff dest: in_set_butlastD split: if_splits)

text \<open>Attribution comes from the account, never from the caller.\<close>

definition attributed :: "connection \<Rightarrow> contract \<Rightarrow> direction \<Rightarrow> record_entry \<Rightarrow> bool" where
  "attributed cn c d r \<longleftrightarrow> re_connection r = cn \<and> re_contract r = c \<and> re_direction r = d"

lemma acc_step_attribution:
  "acc_step a c = (a', out) \<Longrightarrow>
     ac_connection a' = ac_connection a \<and> ac_contract a' = ac_contract a
     \<and> ac_direction a' = ac_direction a
     \<and> list_all (attributed (ac_connection a) (ac_contract a) (ac_direction a)) (drained [out])"
  by (cases c) (auto simp: acc_observe_def acc_admitted_def acc_completed_def acc_finish_def
      acc_cancel_def acc_pop_def attributed_def split: prod.splits option.splits)

lemma acc_run_attribution:
  "run_calls acc_step a cs = (a', outs) \<Longrightarrow>
     list_all (attributed (ac_connection a) (ac_contract a) (ac_direction a)) (drained outs)"
proof (induction cs arbitrary: a outs)
  case (Cons c cs)
  obtain a1 out where s: "acc_step a c = (a1, out)" by (cases "acc_step a c")
  obtain outs' where r: "run_calls acc_step a1 cs = (a', outs')" and o: "outs = out # outs'"
    using Cons.prems s by (auto split: prod.splits)
  show ?case using Cons.IH [OF r] acc_step_attribution [OF s] by (auto simp: o)
qed simp

subsection \<open>Properties\<close>

text \<open>C28: The ring is a bounded history of its capacity, zero included: over any calls it gives
  the outputs of the list that drops its oldest record when full, retains the same records in the
  same order, and counts every dropped record, up to the largest \<open>u64\<close>.\<close>

theorem ring_refines_history:
  "run_calls (fifo_step cap) ([], 0) cs =
     (let (r, outs) = run_calls (queue_step records_push records_pop) (records_new cap) cs
      in ((records_items r, rec_lost r), outs))"
  using ring.run_refines [OF ring.invar_empty, of cap cs]
  by (simp add: ring.view_empty) (simp add: ring.view_def split: prod.split)

text \<open>C29: An account ends once: of everything drained and still retained, in order, only the last
  record can be a rejection or a cancellation, so nothing is recorded after a terminal outcome;
  and every drained record carries the provisioned connection, contract and direction.\<close>

theorem account_ends_once:
  "let (a, outs) = run_calls acc_step (accountability_new cn c d) cs;
       told = map re_outcome (drained outs) @ map fr_outcome (acc_items a)
   in list_all (\<lambda>out. \<not> terminal_outcome out) (butlast told)
      \<and> list_all (attributed cn c d) (drained outs)"
proof -
  obtain a outs where r: "run_calls acc_step (accountability_new cn c d) cs = (a, outs)"
    by (metis surj_pair)
  have "settled ([] @ map fr_outcome (acc_items (accountability_new cn c d)))
      (ac_terminal (accountability_new cn c d))"
    using settled_new by (simp add: accountability_new_def)
  from settled_butlast [OF acc_run_settled [OF acc_inv_new this r]] acc_run_attribution [OF r]
  show ?thesis by (simp add: r) (simp add: accountability_new_def)
qed

end
