(* ===== verification/Hiway_Operation.thy ===== *)
theory Hiway_Operation
  imports Hiway_Prelude
begin

text \<open>
  \<open>hiway/src/transport/operation.rs\<close>: the ownership of one operation slot, independent of
  the submission mechanism. The model is related to what the kernel holds: a ghost run counts
  the accepted originals and cancellations that have not terminated yet, and reclamation is
  shown to happen only when both counts are zero.
\<close>

subsection \<open>The slot\<close>

record op_id =
  op_slot :: u32
  op_generation :: u32

datatype phase = Available | Prepared | Submitted | Completed

datatype cancellation = Cancel_None | Cancel_Requested | Cancel_Submitted | Cancel_Completed

record operation =
  op_ident :: op_id
  op_phase :: phase
  op_cancellation :: cancellation

definition operation_new :: "u32 \<Rightarrow> operation" where
  "operation_new slot =
     \<lparr>op_ident = \<lparr>op_slot = slot, op_generation = 0\<rparr>, op_phase = Available,
      op_cancellation = Cancel_None\<rparr>"

text \<open>\<open>prepare\<close>: the generation wraps (\<open>wrapping_add\<close>).\<close>

definition prepare :: "operation \<Rightarrow> operation \<times> op_id option" where
  "prepare x =
     (if op_phase x \<noteq> Available then (x, None)
      else let i = (op_ident x)\<lparr>op_generation := op_generation (op_ident x) + 1\<rparr>
           in (x\<lparr>op_ident := i, op_phase := Prepared\<rparr>, Some i))"

definition accepted :: "operation \<Rightarrow> op_id \<Rightarrow> operation \<times> bool" where
  "accepted x i =
     (if i \<noteq> op_ident x \<or> op_phase x \<noteq> Prepared then (x, False)
      else (x\<lparr>op_phase := Submitted\<rparr>, True))"

definition cancel :: "operation \<Rightarrow> operation" where
  "cancel x =
     (case op_phase x of
        Prepared \<Rightarrow> x\<lparr>op_phase := Completed\<rparr>
      | Submitted \<Rightarrow>
          if op_cancellation x = Cancel_None then x\<lparr>op_cancellation := Cancel_Requested\<rparr> else x
      | _ \<Rightarrow> x)"

definition cancellation_of :: "operation \<Rightarrow> op_id option" where
  "cancellation_of x =
     (if op_cancellation x = Cancel_Requested then Some (op_ident x) else None)"

definition cancel_accepted :: "operation \<Rightarrow> op_id \<Rightarrow> operation \<times> bool" where
  "cancel_accepted x i =
     (if cancellation_of x \<noteq> Some i then (x, False)
      else (x\<lparr>op_cancellation := Cancel_Submitted\<rparr>, True))"

definition cancel_completed :: "operation \<Rightarrow> op_id \<Rightarrow> operation \<times> bool" where
  "cancel_completed x i =
     (if op_ident x \<noteq> i \<or> op_cancellation x \<noteq> Cancel_Submitted then (x, False)
      else (x\<lparr>op_cancellation := Cancel_Completed\<rparr>, True))"

definition completed :: "operation \<Rightarrow> op_id \<Rightarrow> operation \<times> bool" where
  "completed x i =
     (if op_ident x \<noteq> i \<or> op_phase x \<noteq> Submitted then (x, False)
      else let x' = x\<lparr>op_phase := Completed\<rparr>
           in (if op_cancellation x' = Cancel_Requested
               then x'\<lparr>op_cancellation := Cancel_None\<rparr> else x', True))"

definition reclaim :: "operation \<Rightarrow> operation \<times> bool" where
  "reclaim x =
     (if op_phase x \<noteq> Completed \<or> op_cancellation x = Cancel_Submitted then (x, False)
      else (x\<lparr>op_phase := Available, op_cancellation := Cancel_None\<rparr>, True))"

lemmas op_defs = prepare_def accepted_def cancel_def cancellation_of_def cancel_accepted_def
  cancel_completed_def completed_def reclaim_def operation_new_def Let_def

subsection \<open>Calls, runs and the kernel's view\<close>

datatype op_call =
    Prepare
  | Accept op_id
  | Cancel
  | Cancel_Accept op_id
  | Cancel_Complete op_id
  | Complete op_id
  | Reclaim

text \<open>One call, with whether it took effect (\<open>true\<close>, or \<open>Some\<close> for \<open>prepare\<close>).\<close>

fun op_step :: "operation \<Rightarrow> op_call \<Rightarrow> operation \<times> bool" where
  "op_step x Prepare = (case prepare x of (x', r) \<Rightarrow> (x', r \<noteq> None))"
| "op_step x (Accept i) = accepted x i"
| "op_step x Cancel = (cancel x, True)"
| "op_step x (Cancel_Accept i) = cancel_accepted x i"
| "op_step x (Cancel_Complete i) = cancel_completed x i"
| "op_step x (Complete i) = completed x i"
| "op_step x Reclaim = reclaim x"

text \<open>What the kernel still owes: requests it accepted whose completion was not consumed. The
  counters follow only the calls that took effect, never the slot's own phase.\<close>

record kernel_view =
  pending_originals :: int
  pending_cancels :: int

fun kernel_step :: "kernel_view \<Rightarrow> op_call \<Rightarrow> bool \<Rightarrow> kernel_view" where
  "kernel_step k (Accept i) True = k\<lparr>pending_originals := pending_originals k + 1\<rparr>"
| "kernel_step k (Complete i) True = k\<lparr>pending_originals := pending_originals k - 1\<rparr>"
| "kernel_step k (Cancel_Accept i) True = k\<lparr>pending_cancels := pending_cancels k + 1\<rparr>"
| "kernel_step k (Cancel_Complete i) True = k\<lparr>pending_cancels := pending_cancels k - 1\<rparr>"
| "kernel_step k _ _ = k"

fun op_run :: "operation \<times> kernel_view \<Rightarrow> op_call list \<Rightarrow> operation \<times> kernel_view" where
  "op_run s [] = s"
| "op_run (x, k) (c # cs) =
     (case op_step x c of (x', ok) \<Rightarrow> op_run (x', kernel_step k c ok) cs)"

definition kernel_idle :: kernel_view where
  "kernel_idle = \<lparr>pending_originals = 0, pending_cancels = 0\<rparr>"

text \<open>The invariant: the slot's phase and cancellation say exactly what the kernel owes, and a
  cancellation is only under way or finished for an operation that reached the kernel.\<close>

definition op_inv :: "operation \<Rightarrow> kernel_view \<Rightarrow> bool" where
  "op_inv x k \<longleftrightarrow>
     pending_originals k = (if op_phase x = Submitted then 1 else 0)
     \<and> pending_cancels k = (if op_cancellation x = Cancel_Submitted then 1 else 0)
     \<and> (op_cancellation x = Cancel_Requested \<longrightarrow> op_phase x = Submitted)
     \<and> (op_cancellation x \<noteq> Cancel_None \<longrightarrow> op_phase x \<in> {Submitted, Completed})"

lemma op_inv_new: "op_inv (operation_new slot) kernel_idle"
  by (simp add: op_inv_def op_defs kernel_idle_def)

lemma op_inv_step: "op_inv x k \<Longrightarrow> op_step x c = (x', ok) \<Longrightarrow> op_inv x' (kernel_step k c ok)"
  by (cases c) (auto simp: op_inv_def op_defs split: if_splits phase.splits)

lemma op_inv_run: "op_inv x k \<Longrightarrow> op_run (x, k) cs = (x', k') \<Longrightarrow> op_inv x' k'"
proof (induction cs arbitrary: x k)
  case Nil
  then show ?case by simp
next
  case (Cons c cs)
  obtain x1 ok where s: "op_step x c = (x1, ok)" by (cases "op_step x c")
  with Cons.prems(2) have "op_run (x1, kernel_step k c ok) cs = (x', k')" by simp
  then show ?case using Cons.IH [OF op_inv_step [OF Cons.prems(1) s]] by simp
qed

text \<open>Identifiers only change by \<open>prepare\<close>.\<close>

lemma op_step_ident:
  "op_step x c = (x', ok) \<Longrightarrow>
    op_ident x' = (if c = Prepare \<and> ok
      then (op_ident x)\<lparr>op_generation := op_generation (op_ident x) + 1\<rparr> else op_ident x)"
  by (cases c) (auto simp: op_defs split: if_splits phase.splits)

text \<open>The identifiers a run issues, in order.\<close>

fun issued :: "operation \<Rightarrow> op_call list \<Rightarrow> op_id list" where
  "issued x [] = []"
| "issued x (c # cs) =
     (case op_step x c of (x', ok) \<Rightarrow>
        (if c = Prepare \<and> ok then [op_ident x'] else []) @ issued x' cs)"

lemma issued_nth:
  "k < length (issued x cs) \<Longrightarrow>
     issued x cs ! k = (op_ident x)\<lparr>op_generation := op_generation (op_ident x) + 1 + of_nat k\<rparr>"
proof (induction cs arbitrary: x k)
  case Nil
  then show ?case by simp
next
  case (Cons c cs)
  obtain x1 ok where s: "op_step x c = (x1, ok)" by (cases "op_step x c")
  note ident = op_step_ident [OF s]
  show ?case
  proof (cases "c = Prepare \<and> ok")
    case True
    then show ?thesis
      using Cons.prems Cons.IH [of "k - 1" x1] s ident
      by (cases k) (auto simp: nth_append algebra_simps)
  next
    case False
    then show ?thesis using Cons.prems Cons.IH [of k x1] s ident by auto
  qed
qed

lemma issued_window_distinct:
  assumes "i < j" and "j < length (issued x cs)" and "j - i < 2 ^ 32"
  shows "issued x cs ! i \<noteq> issued x cs ! j"
proof
  assume eq: "issued x cs ! i = issued x cs ! j"
  have "op_generation (issued x cs ! i) = op_generation (issued x cs ! j)" by (simp only: eq)
  then have "(of_nat i :: u32) = of_nat j" using assms(1,2) by (simp add: issued_nth)
  then have "i mod 2 ^ 32 = j mod 2 ^ 32" by (simp add: word_of_nat_eq_iff take_bit_eq_mod)
  then have "2 ^ 32 dvd j - i" using assms(1) by (metis mod_eq_dvd_iff_nat less_imp_le)
  then have "2 ^ 32 \<le> j - i" using assms(1) by (intro dvd_imp_le) simp_all
  then show False using assms(3) by simp
qed

subsection \<open>Properties\<close>

text \<open>C26: A slot is handed out again only after everything the kernel accepted for it has
  terminated: over any sequence of calls, \<open>reclaim\<close> succeeds exactly when the operation is over
  and neither the original nor a cancellation is owed a completion, and a slot from which
  \<open>prepare\<close> can issue a new identifier is one the kernel owes nothing.\<close>

theorem reuse_needs_idle_kernel:
  assumes "op_run (operation_new slot, kernel_idle) cs = (x, k)"
  shows "(snd (reclaim x) \<longleftrightarrow> op_phase x = Completed \<and> k = kernel_idle)
    \<and> (snd (prepare x) \<noteq> None \<longrightarrow> k = kernel_idle)"
  using op_inv_run [OF op_inv_new assms]
  by (auto simp: op_inv_def reclaim_def prepare_def kernel_idle_def Let_def split: if_splits)

definition cancelled_calls :: "op_call list" where
  "cancelled_calls =
     (let i = \<lparr>op_slot = 7, op_generation = 1\<rparr>
      in [Prepare, Accept i, Cancel, Cancel_Accept i, Complete i])"

theorem reuse_needs_idle_kernel_witness:
  "\<not> snd (reclaim (fst (op_run (operation_new 7, kernel_idle) cancelled_calls)))"
proof -
  obtain x k where r: "op_run (operation_new 7, kernel_idle) cancelled_calls = (x, k)"
    by (metis surj_pair)
  have "snd (op_run (operation_new 7, kernel_idle) cancelled_calls) \<noteq> kernel_idle" by code_simp
  then show ?thesis using reuse_needs_idle_kernel [OF r] r by simp
qed

text \<open>C27: A completion can be attributed to one use of a slot: whatever calls are made, two
  identifiers issued fewer than \<open>2^32\<close> preparations apart differ, although generations wrap.\<close>

theorem issued_ids_distinct:
  assumes "i < j" and "j < length (issued x cs)" and "j - i < 2 ^ 32"
  shows "issued x cs ! i \<noteq> issued x cs ! j"
  using assms by (rule issued_window_distinct)

theorem issued_ids_distinct_witness:
  "issued (operation_new 3) [Prepare, Cancel, Reclaim, Prepare] ! 0
     \<noteq> issued (operation_new 3) [Prepare, Cancel, Reclaim, Prepare] ! 1"
  by (rule issued_ids_distinct) (simp_all add: op_defs)

end
