(* ===== verification/Hiway_Protocol.thy ===== *)
theory Hiway_Protocol
  imports Hiway_Frame Hiway_Accountability Hiway_Operation
begin

text \<open>
  \<open>hiway/src/transport/protocol.rs\<close>: the deterministic HWY1 protocol of one directed link.
  Storage and execution stay outside: the host asks for the \<open>effect\<close> of a lane, submits it and
  feeds back \<open>input\<close>s. An array indexed by \<open>Lane\<close> is a function of the lane; an operation
  that may panic (\<open>expect\<close>, \<open>unreachable!\<close>) returns an option, with \<open>None\<close> for the
  panic.
\<close>

subsection \<open>Lanes, effects, inputs\<close>

datatype lane = Lane_Data | Lane_CreditSend | Lane_CreditReceive

definition lane_ALL :: "lane list" where
  "lane_ALL = [Lane_Data, Lane_CreditSend, Lane_CreditReceive]"

datatype effect =
    Effect_Receive lane nat nat
  | Effect_Transmit lane nat nat
  | Effect_Provide
  | Effect_Admit nat u32
  | Effect_Cancel lane op_id

datatype io_result = Bytes nat | Retry | Failed int

datatype input =
    In_Accepted lane op_id
  | In_Completed op_id io_result bytes
  | In_Provided u64 nat
  | In_Admitted
  | In_Revoked
  | In_Closed transport_error

datatype stage = Source | Sending | Credit | Header | Payload | Admission

record protocol =
  p_contract :: contract
  p_direction :: direction
  p_capacity :: nat
  p_stage :: stage
  p_active :: "lane \<Rightarrow> (op_id \<times> effect) option"
  p_offsets :: "lane \<Rightarrow> nat"
  p_length :: nat
  p_sequence :: u64
  p_previous :: "u64 option"
  p_revision :: u32
  p_credited :: bool
  p_closed :: "transport_error option"
  p_account :: "accountability option"

definition protocol_new :: "contract \<Rightarrow> direction \<Rightarrow> nat \<Rightarrow> (protocol, transport_error) result" where
  "protocol_new c d capacity =
     (if capacity < HEADER_BYTES \<or> capacity - HEADER_BYTES > u32_max then Err Error_Capacity
      else Ok \<lparr>p_contract = c, p_direction = d, p_capacity = capacity,
        p_stage = (case d of Import \<Rightarrow> Header | Export \<Rightarrow> Source),
        p_active = (\<lambda>_. None), p_offsets = (\<lambda>_. 0), p_length = HEADER_BYTES,
        p_sequence = 0, p_previous = None, p_revision = c_revision c, p_credited = False,
        p_closed = None, p_account = None\<rparr>)"

definition with_connection ::
    "contract \<Rightarrow> direction \<Rightarrow> nat \<Rightarrow> connection \<Rightarrow> (protocol, transport_error) result" where
  "with_connection c d capacity cn =
     and_then (protocol_new c d capacity)
       (\<lambda>p. Ok (p\<lparr>p_account := Some (accountability_new cn c d)\<rparr>))"

definition pop_record :: "protocol \<Rightarrow> protocol \<times> record_entry option" where
  "pop_record p =
     (case p_account p of
        None \<Rightarrow> (p, None)
      | Some a \<Rightarrow> (case acc_pop a of (a', r) \<Rightarrow> (p\<lparr>p_account := Some a'\<rparr>, r)))"

definition lost_records :: "protocol \<Rightarrow> nat" where
  "lost_records p = (case p_account p of None \<Rightarrow> 0 | Some a \<Rightarrow> acc_lost a)"

text \<open>\<open>if let Some(accountability) = &mut self.accountability\<close>.\<close>

definition tell :: "(accountability \<Rightarrow> accountability) \<Rightarrow> protocol \<Rightarrow> protocol" where
  "tell f p = p\<lparr>p_account := map_option f (p_account p)\<rparr>"

definition observe_sequence :: "u64 \<Rightarrow> protocol \<Rightarrow> protocol" where
  "observe_sequence n p = tell (acc_observe n) p"

subsection \<open>Effects\<close>

text \<open>The effect of a lane that has no operation under way on an open protocol.\<close>

definition idle_effect :: "protocol \<Rightarrow> lane \<Rightarrow> effect option" where
  "idle_effect p l =
     (let offset = p_offsets p l in
      case l of
        Lane_Data \<Rightarrow>
          (case p_stage p of
             Source \<Rightarrow> Some Effect_Provide
           | Sending \<Rightarrow> Some (Effect_Transmit l offset (p_length p - offset))
           | Header \<Rightarrow> Some (Effect_Receive l offset (p_capacity p - offset))
           | Payload \<Rightarrow> Some (Effect_Receive l offset (p_length p - offset))
           | Admission \<Rightarrow>
               if \<not> p_credited p then Some (Effect_Admit (p_length p - HEADER_BYTES) (p_revision p))
               else None
           | Credit \<Rightarrow> None)
      | Lane_CreditSend \<Rightarrow>
          if p_direction p = Import \<and> p_credited p
          then Some (Effect_Transmit l offset (CREDIT_BYTES - offset)) else None
      | Lane_CreditReceive \<Rightarrow>
          Some (Effect_Receive l offset
                  (if p_direction p = Export then CREDIT_BYTES - offset else 1)))"

definition effect_of :: "protocol \<Rightarrow> lane \<Rightarrow> effect option" where
  "effect_of p l =
     (case p_active p l of
        Some (target, _) \<Rightarrow> map_option (\<lambda>_. Effect_Cancel l target) (p_closed p)
      | None \<Rightarrow> if p_closed p \<noteq> None then None else idle_effect p l)"

definition credit_bytes :: "protocol \<Rightarrow> bytes" where
  "credit_bytes p =
     put_at 1 (to_le_bytes 8 (case p_previous p of Some n \<Rightarrow> n | None \<Rightarrow> p_sequence p))
       (replicate CREDIT_BYTES 1)"

subsection \<open>Progress of a lane\<close>

text \<open>The arm \<open>Stage::Header if offset >= HEADER_BYTES\<close>. The sequence is observed before the
  header is checked, and the parsed fields are stored before the later checks.\<close>

definition progress_header ::
    "protocol \<Rightarrow> nat \<Rightarrow> bytes \<Rightarrow> protocol \<times> (unit, transport_error) result" where
  "progress_header p offset buffer =
     (if length buffer < HEADER_BYTES then (p, Err Error_Protocol)
      else
       (let p = observe_sequence (from_le_bytes (sub_slice 26 8 buffer)) p in
        if sub_slice 0 4 buffer \<noteq> HWY1
           \<or> sub_slice 4 16 buffer \<noteq> event_bytes (c_event (p_contract p))
           \<or> sub_slice 20 2 buffer \<noteq> to_le_bytes 2 (c_major (p_contract p))
        then (p, Err Error_Protocol)
        else
         (let p = p\<lparr>p_revision := from_le_bytes (sub_slice 22 4 buffer),
                     p_sequence := from_le_bytes (sub_slice 26 8 buffer)\<rparr>;
              len = unat (from_le_bytes (sub_slice 34 4 buffer) :: u32)
          in case checked_add usize_max HEADER_BYTES len of
               None \<Rightarrow> (p, Err Error_Capacity)
             | Some whole \<Rightarrow>
                (let p = p\<lparr>p_length := whole\<rparr> in
                 if p_length p > p_capacity p then (p, Err Error_Capacity)
                 else if offset > p_length p then (p, Err Error_Protocol)
                 else if (case p_previous p of
                            None \<Rightarrow> False
                          | Some prev \<Rightarrow> \<not> follows (c_delivery (p_contract p)) prev (p_sequence p))
                 then (p, Err Error_Protocol)
                 else (p\<lparr>p_stage := (if offset = p_length p then Admission else Payload)\<rparr>,
                       Ok ())))))"

definition progress_data ::
    "protocol \<Rightarrow> bytes \<Rightarrow> protocol \<times> (unit, transport_error) result" where
  "progress_data p buffer =
     (let offset = p_offsets p Lane_Data in
      case p_stage p of
        Sending \<Rightarrow>
          if offset = p_length p
          then (let p = p\<lparr>p_stage := (if p_credited p then Source else Credit)\<rparr> in
                (if p_credited p then tell (acc_completed (p_sequence p)) p else p, Ok ()))
          else (p, Ok ())
      | Header \<Rightarrow>
          if offset \<ge> HEADER_BYTES then progress_header p offset buffer else (p, Ok ())
      | Payload \<Rightarrow>
          if offset = p_length p then (p\<lparr>p_stage := Admission\<rparr>, Ok ()) else (p, Ok ())
      | _ \<Rightarrow> (p, Err Error_Protocol))"

text \<open>\<open>None\<close> is the panic of \<open>expect("credit follows admission")\<close>.\<close>

definition progress_credit_send ::
    "protocol \<Rightarrow> (protocol \<times> (unit, transport_error) result) option" where
  "progress_credit_send p =
     (if p_offsets p Lane_CreditSend = CREDIT_BYTES
      then (let p = p\<lparr>p_credited := False\<rparr> in
            if p_account p = None then Some (p, Ok ())
            else (case p_previous p of
                    None \<Rightarrow> None
                  | Some n \<Rightarrow> Some (tell (acc_completed n) p, Ok ())))
      else Some (p, Ok ()))"

definition progress_credit_receive ::
    "protocol \<Rightarrow> bytes \<Rightarrow> protocol \<times> (unit, transport_error) result" where
  "progress_credit_receive p buffer =
     (if p_direction p = Import then (p, Err Error_Protocol)
      else if p_offsets p Lane_CreditReceive = CREDIT_BYTES
      then (if length buffer < CREDIT_BYTES then (p, Err Error_Protocol)
            else if buffer ! 0 \<noteq> 1 \<or> sub_slice 1 8 buffer \<noteq> to_le_bytes 8 (p_sequence p)
                    \<or> p_credited p \<or> p_stage p \<notin> {Sending, Credit}
            then (p, Err Error_Protocol)
            else (let p = p\<lparr>p_credited := True,
                            p_offsets := (p_offsets p)(Lane_CreditReceive := 0)\<rparr> in
                  if p_stage p = Credit
                  then (tell (acc_completed (p_sequence p)) (p\<lparr>p_stage := Source\<rparr>), Ok ())
                  else (p, Ok ())))
      else (p, Ok ()))"

definition progress ::
    "protocol \<Rightarrow> lane \<Rightarrow> bytes \<Rightarrow> (protocol \<times> (unit, transport_error) result) option" where
  "progress p l buffer =
     (case l of
        Lane_Data \<Rightarrow> Some (progress_data p buffer)
      | Lane_CreditSend \<Rightarrow> progress_credit_send p
      | Lane_CreditReceive \<Rightarrow> Some (progress_credit_receive p buffer))"

subsection \<open>Inputs\<close>

text \<open>\<open>self.closed.get_or_insert(error)\<close>.\<close>

definition close_with :: "transport_error \<Rightarrow> protocol \<Rightarrow> protocol" where
  "close_with e p = p\<lparr>p_closed := (case p_closed p of None \<Rightarrow> Some e | Some e' \<Rightarrow> Some e')\<rparr>"

definition holds_op :: "protocol \<Rightarrow> op_id \<Rightarrow> lane \<Rightarrow> bool" where
  "holds_op p i l = (case p_active p l of None \<Rightarrow> False | Some (j, _) \<Rightarrow> j = i)"

text \<open>\<open>Receive { length: requested, .. } | Transmit { length: requested, .. }\<close>.\<close>

fun requested :: "effect \<Rightarrow> nat option" where
  "requested (Effect_Receive _ _ n) = Some n"
| "requested (Effect_Transmit _ _ n) = Some n"
| "requested _ = None"

definition transition_completed ::
    "protocol \<Rightarrow> op_id \<Rightarrow> io_result \<Rightarrow> bytes \<Rightarrow> (protocol \<times> (unit, transport_error) result) option" where
  "transition_completed p i r buffer =
     (case find (holds_op p i) lane_ALL of
        None \<Rightarrow> Some (p, Ok ())
      | Some l \<Rightarrow>
         (let eff = snd (the (p_active p l));
              p = p\<lparr>p_active := (p_active p)(l := None)\<rparr>
          in if p_closed p \<noteq> None then Some (p, Ok ())
             else (case r of
                     Retry \<Rightarrow> Some (p, Ok ())
                   | Failed code \<Rightarrow> Some (p, Err (Error_Io code))
                   | Bytes count \<Rightarrow>
                       if count = 0 then Some (p, Err Error_Closed)
                       else (case requested eff of
                               None \<Rightarrow> None
                             | Some n \<Rightarrow>
                                 if count > n then Some (p, Err Error_Protocol)
                                 else progress
                                   (p\<lparr>p_offsets := (p_offsets p)(l := p_offsets p l + count)\<rparr>)
                                   l buffer))))"

definition transition_accepted ::
    "protocol \<Rightarrow> lane \<Rightarrow> op_id \<Rightarrow> protocol \<times> (unit, transport_error) result" where
  "transition_accepted p l i =
     (case effect_of p l of
        None \<Rightarrow> (p, Err Error_Protocol)
      | Some eff \<Rightarrow>
          if requested eff = None then (p, Err Error_Protocol)
          else if list_ex (holds_op p i) lane_ALL then (p, Err Error_Protocol)
          else (p\<lparr>p_active := (p_active p)(l := Some (i, eff))\<rparr>, Ok ()))"

definition transition_provided ::
    "protocol \<Rightarrow> u64 \<Rightarrow> nat \<Rightarrow> protocol \<times> (unit, transport_error) result" where
  "transition_provided p n len =
     (case p_closed p of
        Some e \<Rightarrow> (p, Err e)
      | None \<Rightarrow>
          if p_stage p \<noteq> Source \<or> len < HEADER_BYTES \<or> len > p_capacity p
          then (p, Err Error_Protocol)
          else (let p = p\<lparr>p_sequence := n\<rparr>;
                    p = observe_sequence n p;
                    p = p\<lparr>p_length := len, p_offsets := (p_offsets p)(Lane_Data := 0),
                           p_credited := False, p_stage := Sending\<rparr>
                in (tell acc_admitted p, Ok ())))"

definition transition_admitted :: "protocol \<Rightarrow> protocol \<times> (unit, transport_error) result" where
  "transition_admitted p =
     (case p_closed p of
        Some e \<Rightarrow> (p, Err e)
      | None \<Rightarrow>
          if p_stage p \<noteq> Admission \<or> p_credited p then (p, Err Error_Protocol)
          else (let p = p\<lparr>p_previous := Some (p_sequence p)\<rparr>;
                    p = tell acc_admitted p
                in (p\<lparr>p_credited := True,
                       p_offsets := (p_offsets p)(Lane_CreditSend := 0, Lane_Data := 0),
                       p_length := HEADER_BYTES, p_stage := Header\<rparr>, Ok ())))"

fun transition :: "protocol \<Rightarrow> input \<Rightarrow> (protocol \<times> (unit, transport_error) result) option" where
  "transition p In_Revoked = Some (close_with Error_Revoked p, Ok ())"
| "transition p (In_Closed e) = Some (close_with e p, Ok ())"
| "transition p (In_Accepted l i) = Some (transition_accepted p l i)"
| "transition p (In_Completed i r buffer) = transition_completed p i r buffer"
| "transition p (In_Provided n len) = Some (transition_provided p n len)"
| "transition p In_Admitted = Some (transition_admitted p)"

text \<open>\<open>matches!(input, Revoked | Closed(Error::Closed | Error::Revoked))\<close>.\<close>

fun is_cancellation :: "input \<Rightarrow> bool" where
  "is_cancellation In_Revoked = True"
| "is_cancellation (In_Closed e) = (e = Error_Closed \<or> e = Error_Revoked)"
| "is_cancellation _ = False"

definition input_step ::
    "protocol \<Rightarrow> input \<Rightarrow> (protocol \<times> (unit, transport_error) result) option" where
  "input_step p i =
     (case transition p i of
        None \<Rightarrow> None
      | Some (p, r) \<Rightarrow>
         (let p = (case r of Err e \<Rightarrow> close_with e p | Ok _ \<Rightarrow> p);
              p = (case p_closed p of
                     None \<Rightarrow> p
                   | Some e \<Rightarrow> tell (if is_cancellation i then acc_cancel else acc_finish e) p)
          in Some (p, r)))"

subsection \<open>The invariant\<close>

fun stage_ok :: "direction \<Rightarrow> stage \<Rightarrow> bool" where
  "stage_ok Import s = (s \<in> {Header, Payload, Admission})"
| "stage_ok Export s = (s \<in> {Source, Sending, Credit})"

text \<open>Where the data lane stands within the current frame.\<close>

fun data_at :: "stage \<Rightarrow> nat \<Rightarrow> nat \<Rightarrow> nat \<Rightarrow> bool" where
  "data_at Source offset len capacity = True"
| "data_at Sending offset len capacity = (offset < len \<and> len \<le> capacity)"
| "data_at Credit offset len capacity = True"
| "data_at Header offset len capacity = (offset < HEADER_BYTES)"
| "data_at Payload offset len capacity = (offset < len \<and> HEADER_BYTES \<le> len \<and> len \<le> capacity)"
| "data_at Admission offset len capacity = (offset = len \<and> HEADER_BYTES \<le> len \<and> len \<le> capacity)"

definition data_ok :: "protocol \<Rightarrow> bool" where
  "data_ok p \<longleftrightarrow> data_at (p_stage p) (p_offsets p Lane_Data) (p_length p) (p_capacity p)"

definition credit_ok :: "protocol \<Rightarrow> bool" where
  "credit_ok p \<longleftrightarrow>
     (p_direction p = Import \<longrightarrow> p_offsets p Lane_CreditReceive = 0
          \<and> (p_credited p \<longrightarrow> p_previous p \<noteq> None \<and> p_offsets p Lane_CreditSend < CREDIT_BYTES))
     \<and> (p_direction p = Export \<longrightarrow> p_offsets p Lane_CreditReceive < CREDIT_BYTES
          \<and> (p_stage p = Credit \<longrightarrow> \<not> p_credited p))"

text \<open>On an open protocol the operation of a lane is the one its effect asks for.\<close>

definition lane_ok :: "protocol \<Rightarrow> lane \<Rightarrow> bool" where
  "lane_ok p l \<longleftrightarrow>
     (\<forall>i eff. p_active p l = Some (i, eff) \<longrightarrow> idle_effect p l = Some eff \<and> requested eff \<noteq> None)"

text \<open>No two lanes hold the same operation.\<close>

definition ops_ok :: "protocol \<Rightarrow> bool" where
  "ops_ok p \<longleftrightarrow> (\<forall>l l' i. holds_op p i l \<and> holds_op p i l' \<longrightarrow> l = l')"

definition capacity_ok :: "protocol \<Rightarrow> bool" where
  "capacity_ok p \<longleftrightarrow> HEADER_BYTES \<le> p_capacity p \<and> p_capacity p \<le> HEADER_BYTES + u32_max"

definition ended_ok :: "protocol \<Rightarrow> bool" where
  "ended_ok p \<longleftrightarrow> (case p_account p of None \<Rightarrow> True
     | Some a \<Rightarrow> acc_inv a \<and> (p_closed p \<noteq> None \<longrightarrow> ac_terminal a))"

text \<open>What holds while open, and what holds always.\<close>

definition open_ok :: "protocol \<Rightarrow> bool" where
  "open_ok p \<longleftrightarrow> stage_ok (p_direction p) (p_stage p) \<and> data_ok p \<and> credit_ok p \<and> (\<forall>l. lane_ok p l)"

definition base_ok :: "protocol \<Rightarrow> bool" where
  "base_ok p \<longleftrightarrow> capacity_ok p \<and> ops_ok p"

definition prot_inv :: "protocol \<Rightarrow> bool" where
  "prot_inv p \<longleftrightarrow> base_ok p \<and> ended_ok p \<and> (p_closed p = None \<longrightarrow> open_ok p)"

lemmas ok_defs = data_ok_def credit_ok_def ops_ok_def capacity_ok_def

lemma tell_simps [simp]:
  "p_contract (tell f p) = p_contract p" "p_direction (tell f p) = p_direction p"
  "p_capacity (tell f p) = p_capacity p" "p_stage (tell f p) = p_stage p"
  "p_active (tell f p) = p_active p" "p_offsets (tell f p) = p_offsets p"
  "p_length (tell f p) = p_length p" "p_sequence (tell f p) = p_sequence p"
  "p_previous (tell f p) = p_previous p" "p_revision (tell f p) = p_revision p"
  "p_credited (tell f p) = p_credited p" "p_closed (tell f p) = p_closed p"
  "p_account (tell f p) = map_option f (p_account p)"
  by (simp_all add: tell_def)

lemma close_with_simps [simp]:
  "p_contract (close_with e p) = p_contract p" "p_direction (close_with e p) = p_direction p"
  "p_capacity (close_with e p) = p_capacity p" "p_stage (close_with e p) = p_stage p"
  "p_active (close_with e p) = p_active p" "p_offsets (close_with e p) = p_offsets p"
  "p_length (close_with e p) = p_length p" "p_sequence (close_with e p) = p_sequence p"
  "p_previous (close_with e p) = p_previous p" "p_revision (close_with e p) = p_revision p"
  "p_credited (close_with e p) = p_credited p" "p_account (close_with e p) = p_account p"
  "p_closed (close_with e p) \<noteq> None"
  "p_closed p = None \<Longrightarrow> p_closed (close_with e p) = Some e"
  "p_closed p = Some e' \<Longrightarrow> p_closed (close_with e p) = Some e'"
  by (simp_all add: close_with_def split: option.splits)

text \<open>Which fields the predicates and effects read.\<close>

lemma idle_effect_cong:
  assumes "p_direction q = p_direction p" "p_capacity q = p_capacity p" "p_stage q = p_stage p"
    "p_offsets q = p_offsets p" "p_length q = p_length p" "p_revision q = p_revision p"
    "p_credited q = p_credited p"
  shows "idle_effect q l = idle_effect p l"
  unfolding idle_effect_def assms by (rule refl)

lemma idle_effect_tell [simp]: "idle_effect (tell f p) l = idle_effect p l"
  by (rule idle_effect_cong) simp_all

lemma open_ok_tell [simp]: "open_ok (tell f p) = open_ok p"
  by (simp add: open_ok_def data_ok_def credit_ok_def lane_ok_def)

lemma holds_op_tell [simp]: "holds_op (tell f p) i l = holds_op p i l"
  by (simp add: holds_op_def)

lemma base_ok_cong:
  "p_active q = p_active p \<Longrightarrow> p_capacity q = p_capacity p \<Longrightarrow> base_ok q = base_ok p"
  by (simp add: base_ok_def ops_ok_def capacity_ok_def holds_op_def)

lemma base_ok_release: "base_ok p \<Longrightarrow> base_ok (p\<lparr>p_active := (p_active p)(l := None)\<rparr>)"
  by (auto simp: base_ok_def ops_ok_def capacity_ok_def holds_op_def split: if_splits option.splits)

text \<open>Every value an operation may do to the account.\<close>

lemma acc_inv_ops [simp]:
  "acc_inv a \<Longrightarrow> acc_inv (acc_observe n a)" "acc_inv a \<Longrightarrow> acc_inv (acc_admitted a)"
  "acc_inv a \<Longrightarrow> acc_inv (acc_completed n a)" "acc_inv a \<Longrightarrow> acc_inv (acc_finish e a)"
  "acc_inv a \<Longrightarrow> acc_inv (acc_cancel a)"
  using acc_inv_step [of a "Observe n"] acc_inv_step [of a Record_Admitted]
    acc_inv_step [of a "Record_Completed n"] acc_inv_step [of a "Record_Finish e"]
    acc_inv_step [of a Record_Cancel] by simp_all

lemma acc_terminal_ops [simp]:
  "ac_terminal (acc_observe n a) = ac_terminal a" "ac_terminal (acc_admitted a) = ac_terminal a"
  "ac_terminal (acc_completed n a) = ac_terminal a" "ac_terminal (acc_finish e a)"
  "ac_terminal (acc_cancel a)"
  by (simp_all add: acc_observe_def acc_admitted_def acc_completed_def acc_finish_def acc_cancel_def)

lemma acc_terminal_idem:
  "ac_terminal a \<Longrightarrow> acc_finish e a = a" "ac_terminal a \<Longrightarrow> acc_cancel a = a"
  by (simp_all add: acc_finish_def acc_cancel_def acc_record_def)

text \<open>The three lanes one by one.\<close>

lemma all_lane: "(\<forall>l. P l) \<longleftrightarrow> P Lane_Data \<and> P Lane_CreditSend \<and> P Lane_CreditReceive"
  by (metis lane.exhaust)

lemma idle_effect_data:
  "idle_effect p Lane_Data =
     (case p_stage p of
        Source \<Rightarrow> Some Effect_Provide
      | Sending \<Rightarrow> Some (Effect_Transmit Lane_Data (p_offsets p Lane_Data) (p_length p - p_offsets p Lane_Data))
      | Header \<Rightarrow> Some (Effect_Receive Lane_Data (p_offsets p Lane_Data) (p_capacity p - p_offsets p Lane_Data))
      | Payload \<Rightarrow> Some (Effect_Receive Lane_Data (p_offsets p Lane_Data) (p_length p - p_offsets p Lane_Data))
      | Admission \<Rightarrow>
          if \<not> p_credited p then Some (Effect_Admit (p_length p - HEADER_BYTES) (p_revision p)) else None
      | Credit \<Rightarrow> None)"
  by (simp add: idle_effect_def Let_def split: stage.split)

lemma idle_effect_credit:
  "idle_effect p Lane_CreditSend =
     (if p_direction p = Import \<and> p_credited p
      then Some (Effect_Transmit Lane_CreditSend (p_offsets p Lane_CreditSend)
             (CREDIT_BYTES - p_offsets p Lane_CreditSend)) else None)"
  "idle_effect p Lane_CreditReceive =
     Some (Effect_Receive Lane_CreditReceive (p_offsets p Lane_CreditReceive)
             (if p_direction p = Export then CREDIT_BYTES - p_offsets p Lane_CreditReceive else 1))"
  by (simp_all add: idle_effect_def Let_def)

lemma lane_ok_None [simp]: "p_active p l = None \<Longrightarrow> lane_ok p l"
  by (simp add: lane_ok_def)

lemma lane_ok_cong: "p_active q l = p_active p l \<Longrightarrow> idle_effect q l = idle_effect p l \<Longrightarrow> lane_ok q l = lane_ok p l"
  by (simp add: lane_ok_def)

lemma no_data_op:
  "lane_ok p Lane_Data \<Longrightarrow> p_stage p \<in> {Source, Credit, Admission} \<Longrightarrow> p_active p Lane_Data = None"
  by (cases "p_active p Lane_Data") (auto simp: lane_ok_def idle_effect_data split: if_splits)

lemma no_credit_op:
  "lane_ok p Lane_CreditSend \<Longrightarrow> p_direction p = Export \<or> \<not> p_credited p \<Longrightarrow>
     p_active p Lane_CreditSend = None"
  by (cases "p_active p Lane_CreditSend") (auto simp: lane_ok_def idle_effect_credit)

text \<open>\<open>open_ok\<close> with the lanes apart; the rule that re-establishes it.\<close>

lemma open_ok_iff:
  "open_ok p \<longleftrightarrow> stage_ok (p_direction p) (p_stage p) \<and> data_ok p \<and> credit_ok p
    \<and> lane_ok p Lane_Data \<and> lane_ok p Lane_CreditSend \<and> lane_ok p Lane_CreditReceive"
  by (simp add: open_ok_def all_lane)

subsection \<open>Progress keeps the invariant\<close>

text \<open>What no progress ever changes.\<close>

definition same_frame :: "protocol \<Rightarrow> protocol \<Rightarrow> bool" where
  "same_frame p q \<longleftrightarrow> p_contract q = p_contract p \<and> p_direction q = p_direction p
     \<and> p_capacity q = p_capacity p \<and> p_active q = p_active p \<and> p_closed q = p_closed p
     \<and> p_previous q = p_previous p"

definition account_kept :: "protocol \<Rightarrow> protocol \<Rightarrow> bool" where
  "account_kept p q \<longleftrightarrow>
     (case p_account p of None \<Rightarrow> p_account q = None
      | Some a \<Rightarrow> (\<exists>a'. p_account q = Some a' \<and> (acc_inv a \<longrightarrow> acc_inv a') \<and> ac_terminal a' = ac_terminal a))"

lemma account_kept_refl [simp]: "p_account q = p_account p \<Longrightarrow> account_kept p q"
  by (simp add: account_kept_def split: option.split)

lemma account_kept_tell:
  assumes "p_account q = map_option f (p_account p)"
    and "\<And>a. acc_inv a \<Longrightarrow> acc_inv (f a)" and "\<And>a. ac_terminal (f a) = ac_terminal a"
  shows "account_kept p q"
  using assms by (auto simp: account_kept_def split: option.split)

lemma progress_header_frame:
  assumes "progress_header p off buffer = (q, r)"
  shows "same_frame p q" and "account_kept p q" and "p_credited q = p_credited p"
    and "p_offsets q = p_offsets p"
    and "r = Ok () \<Longrightarrow> off \<le> p_length q \<and> HEADER_BYTES \<le> p_length q \<and> p_length q \<le> p_capacity p
           \<and> p_stage q = (if off = p_length q then Admission else Payload)"
proof -
  note def = assms [unfolded progress_header_def Let_def]
  show "same_frame p q" "p_credited q = p_credited p" "p_offsets q = p_offsets p"
    using def by (auto simp: same_frame_def observe_sequence_def split: if_splits option.splits)
  have "p_account q = p_account p \<or> p_account q = map_option (acc_observe (from_le_bytes (sub_slice 26 8 buffer))) (p_account p)"
    using def by (auto simp: observe_sequence_def split: if_splits option.splits)
  then show "account_kept p q" by (auto intro: account_kept_tell)
  show "off \<le> p_length q \<and> HEADER_BYTES \<le> p_length q \<and> p_length q \<le> p_capacity p
           \<and> p_stage q = (if off = p_length q then Admission else Payload)" if "r = Ok ()"
    using def that by (auto simp: observe_sequence_def split: if_splits option.splits)
qed

text \<open>A data completion of at most the requested bytes.\<close>

lemma progress_data_frame:
  assumes "progress_data p buffer = (q, r)"
  shows "same_frame p q" and "account_kept p q" and "p_credited q = p_credited p"
    and "p_offsets q = p_offsets p"
proof -
  note def = assms [unfolded progress_data_def Let_def]
  have "same_frame p q \<and> account_kept p q \<and> p_credited q = p_credited p \<and> p_offsets q = p_offsets p"
  proof (cases "p_stage p = Header \<and> HEADER_BYTES \<le> p_offsets p Lane_Data")
    case True
    then have h: "progress_header p (p_offsets p Lane_Data) buffer = (q, r)" using def by simp
    show ?thesis using progress_header_frame(1-4) [OF h] by simp
  next
    case False
    then have "same_frame p q \<and> p_credited q = p_credited p \<and> p_offsets q = p_offsets p"
      using def by (auto simp: same_frame_def split: if_splits stage.splits)
    moreover have "p_account q = p_account p \<or> p_account q = map_option (acc_completed (p_sequence p)) (p_account p)"
      using False def by (auto split: if_splits stage.splits)
    then have "account_kept p q" by (auto intro: account_kept_tell)
    ultimately show ?thesis by simp
  qed
  then show "same_frame p q" "account_kept p q" "p_credited q = p_credited p" "p_offsets q = p_offsets p"
    by simp_all
qed

lemma credit_lanes_frame:
  assumes "same_frame p q" and "p_credited q = p_credited p"
    and "\<And>l. l \<noteq> Lane_Data \<Longrightarrow> p_offsets q l = p_offsets p l"
  shows "lane_ok q Lane_CreditSend = lane_ok p Lane_CreditSend"
    and "lane_ok q Lane_CreditReceive = lane_ok p Lane_CreditReceive"
  using assms by (auto simp: same_frame_def lane_ok_def idle_effect_credit)

lemma progress_data_open:
  assumes ok: "open_ok p" and idle: "p_active p Lane_Data = None"
    and eff: "idle_effect p Lane_Data = Some eff" "requested eff = Some n" "count \<le> n"
    and prog: "progress_data (p\<lparr>p_offsets := (p_offsets p)(Lane_Data := p_offsets p Lane_Data + count)\<rparr>)
                 buffer = (q, Ok ())"
  shows "open_ok q"
proof -
  let ?p = "p\<lparr>p_offsets := (p_offsets p)(Lane_Data := p_offsets p Lane_Data + count)\<rparr>"
  note frame = progress_data_frame [OF prog]
  have lanes: "lane_ok q Lane_Data" "lane_ok q Lane_CreditSend" "lane_ok q Lane_CreditReceive"
    using ok idle frame credit_lanes_frame [of p q]
    by (auto simp: open_ok_iff same_frame_def)
  have credit: "credit_ok q"
    if "p_stage q = Credit \<Longrightarrow> \<not> p_credited q"
    using ok frame that by (auto simp: open_ok_iff same_frame_def credit_ok_def)
  have stage: "stage_ok (p_direction q) (p_stage q) \<and> data_ok q \<and> (p_stage q = Credit \<longrightarrow> \<not> p_credited q)"
  proof (cases "p_stage p")
    case Header
    show ?thesis
    proof (cases "HEADER_BYTES \<le> p_offsets p Lane_Data + count")
      case True
      then have h: "progress_header ?p (p_offsets p Lane_Data + count) buffer = (q, Ok ())"
        using Header prog by (simp add: progress_data_def Let_def)
      show ?thesis
        using progress_header_frame(5) [OF h] Header ok frame
        by (auto simp: open_ok_iff same_frame_def data_ok_def elim: stage_ok.elims)
    qed (use Header ok prog in \<open>auto simp: progress_data_def open_ok_iff data_ok_def\<close>)
  next
    case Sending
    then show ?thesis
      using ok prog eff
      by (cases "p_direction p")
        (auto simp: progress_data_def open_ok_iff data_ok_def idle_effect_data split: if_splits)
  next
    case Payload
    then show ?thesis
      using ok prog eff
      by (cases "p_direction p")
        (auto simp: progress_data_def open_ok_iff data_ok_def idle_effect_data split: if_splits)
  qed (use prog in \<open>simp_all add: progress_data_def\<close>)
  with credit lanes show ?thesis by (simp add: open_ok_iff)
qed

text \<open>The credit lanes.\<close>

lemma progress_credit_send_open:
  assumes ok: "open_ok p" and idle: "p_active p Lane_CreditSend = None"
    and eff: "idle_effect p Lane_CreditSend = Some eff" "requested eff = Some n" "count \<le> n"
    and p': "p' = p\<lparr>p_offsets := (p_offsets p)(Lane_CreditSend := p_offsets p Lane_CreditSend + count)\<rparr>"
  shows "\<exists>q. progress_credit_send p' = Some (q, Ok ()) \<and> open_ok q \<and> same_frame p' q \<and> account_kept p' q"
proof -
  have imp: "p_direction p = Import" "p_credited p" using eff by (auto simp: idle_effect_credit split: if_splits)
  then obtain n0 where prev: "p_previous p = Some n0" and off: "p_offsets p Lane_CreditSend < CREDIT_BYTES"
    using ok by (auto simp: open_ok_iff credit_ok_def)
  have n: "n = CREDIT_BYTES - p_offsets p Lane_CreditSend" using eff imp by (auto simp: idle_effect_credit)
  have lane: "lane_ok q Lane_Data" if "p_active q = p_active p" "p_stage q = p_stage p"
    "p_offsets q Lane_Data = p_offsets p Lane_Data" "p_length q = p_length p"
    "p_capacity q = p_capacity p" for q
  proof (cases "p_stage p = Admission")
    case True
    then show ?thesis using no_data_op [of p] ok that by (simp add: open_ok_iff)
  next
    case False
    then have "idle_effect q Lane_Data = idle_effect p Lane_Data"
      using that by (simp add: idle_effect_data split: stage.split)
    then show ?thesis using ok that by (simp add: open_ok_iff lane_ok_def)
  qed
  show ?thesis
  proof (cases "p_offsets p' Lane_CreditSend = CREDIT_BYTES")
    case True
    define q where "q = tell (acc_completed n0) (p'\<lparr>p_credited := False\<rparr>)"
    have "progress_credit_send p' = Some (q, Ok ())"
      using True prev
      by (cases p; cases "p_account p") (simp_all add: progress_credit_send_def q_def p' tell_def Let_def)
    moreover have "open_ok q"
      using ok imp idle
      by (auto simp: open_ok_iff q_def p' data_ok_def credit_ok_def lane_ok_def [of _ Lane_CreditReceive]
          idle_effect_credit intro!: lane)
    moreover have "account_kept p' q"
      by (rule account_kept_tell [where f = "acc_completed n0"]) (simp_all add: q_def p')
    ultimately show ?thesis by (simp add: same_frame_def q_def p')
  next
    case False
    then have "progress_credit_send p' = Some (p', Ok ())" by (simp add: progress_credit_send_def)
    moreover have "open_ok p'"
      using ok imp idle False n eff(3) prev
      by (auto simp: open_ok_iff p' data_ok_def credit_ok_def lane_ok_def [of _ Lane_CreditReceive]
          idle_effect_credit intro!: lane)
    ultimately show ?thesis by (simp add: same_frame_def)
  qed
qed

lemma progress_credit_receive_frame:
  assumes "progress_credit_receive p buffer = (q, r)"
  shows "same_frame p q" and "account_kept p q"
proof -
  note def = assms [unfolded progress_credit_receive_def Let_def]
  show "same_frame p q" using def by (auto simp: same_frame_def split: if_splits)
  have "p_account q = p_account p \<or> p_account q = map_option (acc_completed (p_sequence p)) (p_account p)"
    using def by (auto split: if_splits)
  then show "account_kept p q" by (auto intro: account_kept_tell)
qed

lemma progress_credit_receive_open:
  assumes ok: "open_ok p" and idle: "p_active p Lane_CreditReceive = None"
    and eff: "idle_effect p Lane_CreditReceive = Some eff" "requested eff = Some n" "count \<le> n"
    and prog: "progress_credit_receive
          (p\<lparr>p_offsets := (p_offsets p)(Lane_CreditReceive := p_offsets p Lane_CreditReceive + count)\<rparr>)
          buffer = (q, Ok ())"
  shows "open_ok q"
proof -
  have exp: "p_direction p = Export"
    using prog by (cases "p_direction p") (auto simp: progress_credit_receive_def)
  then have st: "p_stage p \<in> {Source, Sending, Credit}" using ok by (simp add: open_ok_iff)
  note frame = progress_credit_receive_frame(1) [OF prog]
  have q: "p_length q = p_length p" "p_offsets q Lane_Data = p_offsets p Lane_Data"
    "p_offsets q Lane_CreditReceive < CREDIT_BYTES"
    "p_stage q = p_stage p \<or> p_stage p = Credit \<and> p_stage q = Source"
    "p_stage q = Credit \<Longrightarrow> \<not> p_credited q"
    using prog exp eff ok
    by (auto simp: progress_credit_receive_def idle_effect_credit open_ok_iff credit_ok_def Let_def
        split: if_splits)
  have "lane_ok q Lane_Data"
  proof (cases "p_stage q = p_stage p")
    case True
    then have "idle_effect q Lane_Data = idle_effect p Lane_Data"
      using frame q st by (auto simp: idle_effect_data same_frame_def)
    then show ?thesis using ok frame by (simp add: open_ok_iff lane_ok_def same_frame_def)
  next
    case False
    then have "p_active p Lane_Data = None" using q no_data_op [of p] ok by (simp add: open_ok_iff)
    then show ?thesis using frame by (simp add: same_frame_def)
  qed
  moreover have "lane_ok q Lane_CreditSend"
    using no_credit_op [of p] ok exp frame by (simp add: open_ok_iff same_frame_def)
  ultimately show ?thesis
    using ok q frame idle exp by (auto simp: open_ok_iff same_frame_def data_ok_def credit_ok_def)
qed

subsection \<open>Every input keeps the invariant and never panics\<close>

definition trans_ok :: "protocol \<Rightarrow> protocol \<Rightarrow> (unit, transport_error) result \<Rightarrow> bool" where
  "trans_ok p q r \<longleftrightarrow>
     base_ok q \<and> account_kept p q
     \<and> p_contract q = p_contract p \<and> p_direction q = p_direction p \<and> p_capacity q = p_capacity p
     \<and> (p_closed p \<noteq> None \<longrightarrow> p_closed q = p_closed p)
     \<and> (p_closed q = None \<and> r = Ok () \<longrightarrow> open_ok q)"

lemma base_ok_same_frame: "same_frame p q \<Longrightarrow> base_ok p \<Longrightarrow> base_ok q"
  using base_ok_cong [of q p] by (simp add: same_frame_def)

lemma trans_ok_same_frame:
  assumes "base_ok p" and "same_frame p q" and "account_kept p q"
    and "p_closed p = None \<Longrightarrow> r = Ok () \<Longrightarrow> open_ok q"
  shows "trans_ok p q r"
  using assms base_ok_same_frame [OF assms(2,1)] by (simp add: trans_ok_def same_frame_def)

lemma same_frame_refl [simp]: "same_frame p p"
  by (simp add: same_frame_def)

lemma trans_ok_close: "base_ok p \<Longrightarrow> trans_ok p (close_with e p) (Ok ())"
  using base_ok_cong [of "close_with e p" p]
  by (cases "p_closed p") (simp_all add: trans_ok_def)

lemma lane_ok_update_other:
  "l \<noteq> l' \<Longrightarrow> lane_ok (p\<lparr>p_active := (p_active p)(l := x)\<rparr>) l' = lane_ok p l'"
  using idle_effect_cong [of "p\<lparr>p_active := (p_active p)(l := x)\<rparr>" p l'] by (simp add: lane_ok_def)

lemma idle_effect_active [simp]: "idle_effect (p\<lparr>p_active := f\<rparr>) l = idle_effect p l"
  by (rule idle_effect_cong) simp_all

lemma open_ok_active:
  assumes "open_ok p"
    and "\<And>i eff. x = Some (i, eff) \<Longrightarrow> idle_effect p l = Some eff \<and> requested eff \<noteq> None"
  shows "open_ok (p\<lparr>p_active := (p_active p)(l := x)\<rparr>)"
proof -
  have "lane_ok (p\<lparr>p_active := (p_active p)(l := x)\<rparr>) l'" for l'
    using assms lane_ok_update_other [of l l' p x]
    by (cases "l' = l") (auto simp: open_ok_def lane_ok_def [of _ l])
  then show ?thesis using assms(1) by (simp add: open_ok_def data_ok_def credit_ok_def)
qed

lemma transition_accepted_ok:
  assumes inv: "prot_inv p" and t: "transition_accepted p l i = (q, r)"
  shows "trans_ok p q r"
proof (cases "r = Ok ()")
  case True
  then obtain eff where eff: "effect_of p l = Some eff" "requested eff \<noteq> None"
    and fresh: "\<not> list_ex (holds_op p i) lane_ALL"
    and q: "q = p\<lparr>p_active := (p_active p)(l := Some (i, eff))\<rparr>"
    using t by (auto simp: transition_accepted_def split: option.splits if_splits)
  have op: "p_closed p = None" "p_active p l = None" "idle_effect p l = Some eff"
    using eff by (auto simp: effect_of_def split: option.splits if_splits)
  have new: "\<not> holds_op p i l'" for l'
    using fresh by (cases l') (auto simp: lane_ALL_def)
  have held: "holds_op q j k \<longleftrightarrow> (if k = l then j = i else holds_op p j k)" for j k
    by (auto simp: q holds_op_def)
  have "ops_ok p" using inv by (simp add: prot_inv_def base_ok_def)
  then have "ops_ok q" using new by (auto simp: ops_ok_def held split: if_splits)
  then have "base_ok q" using inv by (auto simp: prot_inv_def base_ok_def capacity_ok_def q)
  moreover have "open_ok q"
    unfolding q by (rule open_ok_active) (use inv op eff in \<open>auto simp: prot_inv_def\<close>)
  ultimately show ?thesis by (simp add: trans_ok_def q)
next
  case False
  then have "q = p" using t by (auto simp: transition_accepted_def split: option.splits if_splits)
  then show ?thesis using inv False by (auto simp: prot_inv_def intro: trans_ok_same_frame)
qed

lemma transition_provided_ok:
  assumes inv: "prot_inv p" and t: "transition_provided p n len = (q, r)"
  shows "trans_ok p q r"
proof (cases "r = Ok ()")
  case True
  then have op: "p_closed p = None" "p_stage p = Source" and len: "HEADER_BYTES \<le> len" "len \<le> p_capacity p"
    using t by (auto simp: transition_provided_def Let_def split: option.splits if_splits)
  have ok: "open_ok p" "base_ok p" using inv op by (auto simp: prot_inv_def)
  have exp: "p_direction p = Export" using ok op by (cases "p_direction p") (auto simp: open_ok_iff)
  have none: "p_active p Lane_Data = None" "p_active p Lane_CreditSend = None"
    using ok op exp no_data_op [of p] no_credit_op [of p] by (auto simp: open_ok_iff)
  have q: "p_stage q = Sending" "p_offsets q = (p_offsets p)(Lane_Data := 0)" "p_length q = len"
    and frame: "same_frame p q"
    and acc: "p_account q = map_option (acc_admitted \<circ> acc_observe n) (p_account p)"
    using t op len
    by (auto simp: transition_provided_def Let_def observe_sequence_def same_frame_def
        option.map_comp)
  have "open_ok q"
    using ok none q frame exp len
    by (auto simp: open_ok_iff same_frame_def data_ok_def credit_ok_def HEADER_BYTES_def
        lane_ok_def [of _ Lane_CreditReceive] idle_effect_credit)
  moreover have "account_kept p q" by (rule account_kept_tell [OF acc]) simp_all
  ultimately show ?thesis using ok frame by (intro trans_ok_same_frame) simp_all
next
  case False
  then have "q = p"
    using t by (auto simp: transition_provided_def Let_def split: option.splits if_splits)
  then show ?thesis using inv False by (auto simp: prot_inv_def intro: trans_ok_same_frame)
qed

lemma transition_admitted_ok:
  assumes inv: "prot_inv p" and t: "transition_admitted p = (q, r)"
  shows "trans_ok p q r"
proof (cases "r = Ok ()")
  case True
  then have op: "p_closed p = None" "p_stage p = Admission" "\<not> p_credited p"
    using t by (auto simp: transition_admitted_def Let_def split: option.splits if_splits)
  have ok: "open_ok p" "base_ok p" using inv op by (auto simp: prot_inv_def)
  have imp: "p_direction p = Import" using ok op by (cases "p_direction p") (auto simp: open_ok_iff)
  have none: "p_active p Lane_Data = None" "p_active p Lane_CreditSend = None"
    using ok op no_data_op [of p] no_credit_op [of p] by (auto simp: open_ok_iff)
  have q: "q = (tell acc_admitted (p\<lparr>p_previous := Some (p_sequence p)\<rparr>))\<lparr>p_credited := True,
      p_offsets := (p_offsets p)(Lane_CreditSend := 0, Lane_Data := 0),
      p_length := HEADER_BYTES, p_stage := Header\<rparr>"
    using t op by (auto simp: transition_admitted_def Let_def)
  have "open_ok q"
    using ok none imp
    by (auto simp: q open_ok_iff data_ok_def credit_ok_def HEADER_BYTES_def CREDIT_BYTES_def
        lane_ok_def [of _ Lane_CreditReceive] idle_effect_credit)
  moreover have "account_kept p q"
    by (rule account_kept_tell [where f = acc_admitted]) (simp_all add: q)
  moreover have "base_ok q" using ok base_ok_cong [of q p] by (simp add: q)
  ultimately show ?thesis using op by (simp add: trans_ok_def q)
next
  case False
  then have "q = p"
    using t by (auto simp: transition_admitted_def Let_def split: option.splits if_splits)
  then show ?thesis using inv False by (auto simp: prot_inv_def intro: trans_ok_same_frame)
qed

lemma find_lane: "find P lane_ALL = Some l \<Longrightarrow> P l"
  by (simp add: lane_ALL_def split: if_splits)

lemma find_lane_None: "find P lane_ALL = None \<longleftrightarrow> (\<forall>l. \<not> P l)"
  by (simp add: lane_ALL_def all_lane)

lemma transition_completed_ok:
  assumes inv: "prot_inv p"
  shows "\<exists>q r. transition_completed p i res buffer = Some (q, r) \<and> trans_ok p q r"
proof (cases "find (holds_op p i) lane_ALL")
  case None
  then show ?thesis
    using inv by (auto simp: transition_completed_def prot_inv_def intro: trans_ok_same_frame)
next
  case (Some l)
  obtain eff where act: "p_active p l = Some (i, eff)"
    using find_lane [OF Some] by (auto simp: holds_op_def split: option.splits)
  define p1 where "p1 = p\<lparr>p_active := (p_active p)(l := None)\<rparr>"
  have base: "base_ok p1" using inv base_ok_release by (simp add: p1_def prot_inv_def)
  have same: "p_closed p1 = p_closed p" "p_account p1 = p_account p" "p_contract p1 = p_contract p"
    "p_direction p1 = p_direction p" "p_capacity p1 = p_capacity p" "p_offsets p1 = p_offsets p"
    "p_active p1 l = None"
    by (simp_all add: p1_def)
  have via: "trans_ok p q r" if "trans_ok p1 q r" for q r
    using that same by (simp add: trans_ok_def account_kept_def)
  show ?thesis
  proof (cases "p_closed p")
    case (Some e)
    then have "transition_completed p i res buffer = Some (p1, Ok ())"
      using \<open>find (holds_op p i) lane_ALL = Some l\<close> by (simp add: transition_completed_def Let_def p1_def)
    moreover have "trans_ok p1 p1 (Ok ())" using Some same base by (intro trans_ok_same_frame) simp_all
    ultimately show ?thesis using via by blast
  next
    case None
    have ok: "open_ok p" using inv None by (simp add: prot_inv_def)
    then have eff: "idle_effect p1 l = Some eff" "requested eff \<noteq> None"
      using act by (auto simp: open_ok_def lane_ok_def p1_def)
    then obtain n where n: "requested eff = Some n" by auto
    have ok1: "open_ok p1" unfolding p1_def by (rule open_ok_active [OF ok]) simp
    have stop: "trans_ok p1 p1 r" for r using base ok1 by (intro trans_ok_same_frame) simp_all
    have exec: "transition_completed p i res buffer =
        (case res of
           Retry \<Rightarrow> Some (p1, Ok ())
         | Failed code \<Rightarrow> Some (p1, Err (Error_Io code))
         | Bytes count \<Rightarrow>
             if count = 0 then Some (p1, Err Error_Closed)
             else if count > n then Some (p1, Err Error_Protocol)
             else progress (p1\<lparr>p_offsets := (p_offsets p1)(l := p_offsets p1 l + count)\<rparr>) l buffer)"
      using \<open>find (holds_op p i) lane_ALL = Some l\<close> None act n
      by (simp add: transition_completed_def Let_def p1_def split: io_result.split)
    show ?thesis
    proof (cases "\<exists>count. res = Bytes count \<and> 0 < count \<and> count \<le> n")
      case False
      then show ?thesis using stop via by (auto simp: exec split: io_result.split)
    next
      case True
      then obtain count where res: "res = Bytes count" "0 < count" "count \<le> n" by blast
      define p2 where "p2 = p1\<lparr>p_offsets := (p_offsets p1)(l := p_offsets p1 l + count)\<rparr>"
      have base2: "base_ok p2" using base base_ok_cong [of p2 p1] by (simp add: p2_def)
      have closed2: "p_closed p2 = p_closed p1" by (simp add: p2_def)
      have via2: "trans_ok p1 q r" if "trans_ok p2 q r" for q r
        using that by (simp add: trans_ok_def account_kept_def p2_def)
      have "\<exists>q r. progress p2 l buffer = Some (q, r) \<and> trans_ok p2 q r"
      proof (cases l)
        case Lane_Data
        obtain q r where pr: "progress_data p2 buffer = (q, r)" by (cases "progress_data p2 buffer")
        have "trans_ok p2 q r"
          by (rule trans_ok_same_frame [OF base2 progress_data_frame(1,2) [OF pr]])
            (use progress_data_open [OF ok1 _ _ n res(3), of buffer q] same eff pr Lane_Data in
              \<open>auto simp: p2_def\<close>)
        then show ?thesis using pr Lane_Data by (simp add: progress_def)
      next
        case Lane_CreditSend
        obtain q where pr: "progress_credit_send p2 = Some (q, Ok ())" and "open_ok q"
          "same_frame p2 q" "account_kept p2 q"
          using progress_credit_send_open [OF ok1 _ _ n res(3), of p2] same eff Lane_CreditSend
          by (auto simp: p2_def)
        then show ?thesis
          using Lane_CreditSend base2 by (auto simp: progress_def intro: trans_ok_same_frame)
      next
        case Lane_CreditReceive
        obtain q r where pr: "progress_credit_receive p2 buffer = (q, r)"
          by (cases "progress_credit_receive p2 buffer")
        have "trans_ok p2 q r"
          by (rule trans_ok_same_frame [OF base2 progress_credit_receive_frame [OF pr]])
            (use progress_credit_receive_open [OF ok1 _ _ n res(3), of buffer q] same eff pr
              Lane_CreditReceive in \<open>auto simp: p2_def\<close>)
        then show ?thesis using pr Lane_CreditReceive by (simp add: progress_def)
      qed
      then obtain q r where pr: "progress p2 l buffer = Some (q, r)" and t2: "trans_ok p2 q r" by blast
      have "transition_completed p i res buffer = Some (q, r)"
        unfolding exec using pr res by (simp add: p2_def)
      then show ?thesis using via [OF via2 [OF t2]] by blast
    qed
  qed
qed

lemma transition_ok:
  assumes "prot_inv p"
  shows "\<exists>q r. transition p i = Some (q, r) \<and> trans_ok p q r"
proof (cases i)
  case (In_Accepted l opn)
  then show ?thesis using transition_accepted_ok [OF assms] by (cases "transition_accepted p l opn") auto
next
  case (In_Provided n len)
  then show ?thesis using transition_provided_ok [OF assms] by (cases "transition_provided p n len") auto
next
  case In_Admitted
  then show ?thesis using transition_admitted_ok [OF assms] by (cases "transition_admitted p") auto
qed (use assms in \<open>auto simp: trans_ok_close prot_inv_def transition_completed_ok\<close>)

text \<open>The wrapper \<open>input\<close> closes on an error and ends the account of a closed protocol.\<close>

definition settle :: "input \<Rightarrow> protocol \<Rightarrow> (unit, transport_error) result \<Rightarrow> protocol" where
  "settle i q r =
     (let q = (case r of Err e \<Rightarrow> close_with e q | Ok _ \<Rightarrow> q)
      in case p_closed q of
           None \<Rightarrow> q
         | Some e \<Rightarrow> tell (if is_cancellation i then acc_cancel else acc_finish e) q)"

lemma input_step_settle:
  "input_step p i = map_option (\<lambda>(q, r). (settle i q r, r)) (transition p i)"
  by (simp add: input_step_def settle_def Let_def split: option.split)

lemma prot_inv_settle:
  assumes inv: "prot_inv p" and t: "trans_ok p q r"
  shows "prot_inv (settle i q r)"
proof -
  define q1 where "q1 = (case r of Err e \<Rightarrow> close_with e q | Ok _ \<Rightarrow> q)"
  have base: "base_ok q1"
    using t base_ok_cong [of q1 q] by (simp add: trans_ok_def q1_def split: result.split)
  have acc: "p_account q1 = p_account q" by (simp add: q1_def split: result.split)
  have "p_closed q1 = None \<Longrightarrow> open_ok q1"
    using t by (auto simp: q1_def trans_ok_def split: result.splits)
  moreover have "acc_inv a" if "p_account q = Some a" for a
    using that t inv by (auto simp: trans_ok_def account_kept_def prot_inv_def ended_ok_def split: option.splits)
  ultimately show ?thesis
    using base acc base_ok_cong [of "tell _ q1" q1]
    by (auto simp: settle_def prot_inv_def ended_ok_def simp flip: q1_def split: option.split)
qed

lemma prot_inv_input:
  assumes "prot_inv p"
  shows "\<exists>q r. input_step p i = Some (q, r) \<and> prot_inv q"
  using transition_ok [OF assms, of i] prot_inv_settle [OF assms] by (auto simp: input_step_settle)

lemma prot_inv_new:
  assumes "protocol_new c d capacity = Ok p"
  shows "prot_inv p"
  using assms
  by (cases d)
    (auto simp: protocol_new_def prot_inv_def base_ok_def ops_ok_def capacity_ok_def ended_ok_def open_ok_def
      data_ok_def credit_ok_def holds_op_def HEADER_BYTES_def CREDIT_BYTES_def split: if_splits)

lemma prot_inv_with_connection:
  assumes "with_connection c d capacity cn = Ok p"
  shows "prot_inv p"
proof -
  obtain p0 where p0: "protocol_new c d capacity = Ok p0"
    and p: "p = p0\<lparr>p_account := Some (accountability_new cn c d)\<rparr>"
    using assms by (auto simp: with_connection_def and_then_eq_Ok)
  have closed: "p_closed p0 = None" using p0 by (auto simp: protocol_new_def split: if_splits)
  have "open_ok p = open_ok p0"
    using idle_effect_cong [of p p0] by (simp add: p open_ok_def data_ok_def credit_ok_def lane_ok_def)
  then show ?thesis
    using prot_inv_new [OF p0] closed base_ok_cong [of p p0]
    by (simp add: prot_inv_def ended_ok_def p acc_inv_new)
qed

subsection \<open>Runs of the host\<close>

datatype host_call = Call input | Observe_Source u64 | Pop_Record

text \<open>One call of the host; \<open>Ok ()\<close> for the calls that return no result.\<close>

fun host_step :: "protocol \<Rightarrow> host_call \<Rightarrow> (protocol \<times> (unit, transport_error) result) option" where
  "host_step p (Call i) = input_step p i"
| "host_step p (Observe_Source n) = Some (observe_sequence n p, Ok ())"
| "host_step p Pop_Record = Some (fst (pop_record p), Ok ())"

fun host_run :: "protocol \<Rightarrow> host_call list \<Rightarrow> protocol option" where
  "host_run p [] = Some p"
| "host_run p (c # cs) = (case host_step p c of None \<Rightarrow> None | Some (q, _) \<Rightarrow> host_run q cs)"

definition started :: "contract \<Rightarrow> direction \<Rightarrow> nat \<Rightarrow> connection option \<Rightarrow> (protocol, transport_error) result"
  where
  "started c d capacity cn =
     (case cn of None \<Rightarrow> protocol_new c d capacity | Some x \<Rightarrow> with_connection c d capacity x)"

lemma prot_inv_started: "started c d capacity cn = Ok p \<Longrightarrow> prot_inv p"
  by (auto simp: started_def prot_inv_new prot_inv_with_connection split: option.splits)

lemma prot_inv_tell:
  assumes "prot_inv p" and "\<And>a. acc_inv a \<Longrightarrow> acc_inv (f a)" and "\<And>a. ac_terminal (f a) = ac_terminal a"
  shows "prot_inv (tell f p)"
  using assms base_ok_cong [of "tell f p" p]
  by (auto simp: prot_inv_def ended_ok_def split: option.splits)

lemma pop_record_tell: "fst (pop_record p) = tell (\<lambda>a. fst (acc_pop a)) p"
  by (cases p) (simp add: pop_record_def tell_def split: option.split prod.split)

lemma prot_inv_host_step:
  assumes "prot_inv p"
  shows "\<exists>q r. host_step p c = Some (q, r) \<and> prot_inv q"
proof (cases c)
  case (Call i)
  then show ?thesis using prot_inv_input [OF assms] by simp
next
  case (Observe_Source n)
  then show ?thesis using prot_inv_tell [OF assms, of "acc_observe n"] by (simp add: observe_sequence_def)
next
  case Pop_Record
  then show ?thesis
    using prot_inv_tell [OF assms, of "\<lambda>a. fst (acc_pop a)"] acc_inv_step [of _ Drain]
    by (simp add: pop_record_tell)
qed

lemma prot_inv_run:
  "prot_inv p \<Longrightarrow> \<exists>q. host_run p cs = Some q \<and> prot_inv q"
proof (induction cs arbitrary: p)
  case (Cons c cs)
  then show ?case using prot_inv_host_step [OF Cons.prems, of c] by fastforce
qed simp

lemma prot_inv_reachable:
  "started c d capacity cn = Ok p \<Longrightarrow> host_run p cs = Some q \<Longrightarrow> prot_inv q"
  using prot_inv_run [OF prot_inv_started, of c d capacity cn p cs] by auto

text \<open>What a run keeps: the contract, the direction, the capacity, and a closing reason.\<close>

lemma input_step_keeps:
  assumes "prot_inv p" and "input_step p i = Some (q, r)"
  shows "p_contract q = p_contract p" and "p_direction q = p_direction p"
    and "p_capacity q = p_capacity p" and "p_closed p \<noteq> None \<Longrightarrow> p_closed q = p_closed p"
proof -
  obtain q0 where t: "trans_ok p q0 r" and q: "q = settle i q0 r"
    using transition_ok [OF assms(1), of i] assms(2) by (auto simp: input_step_settle)
  show "p_contract q = p_contract p" "p_direction q = p_direction p" "p_capacity q = p_capacity p"
    using t by (auto simp: q settle_def Let_def trans_ok_def split: option.split result.split)
  show "p_closed q = p_closed p" if "p_closed p \<noteq> None"
    using t that
    by (cases r) (auto simp: q settle_def Let_def trans_ok_def split: option.split)
qed

lemma host_step_keeps:
  assumes "prot_inv p" and "host_step p c = Some (q, r)"
  shows "p_contract q = p_contract p" and "p_direction q = p_direction p"
    and "p_capacity q = p_capacity p" and "p_closed p \<noteq> None \<Longrightarrow> p_closed q = p_closed p"
  using assms input_step_keeps [OF assms(1), of _ q r]
  by (cases c; auto simp: observe_sequence_def pop_record_tell)+

lemma host_run_keeps:
  "prot_inv p \<Longrightarrow> host_run p cs = Some q \<Longrightarrow>
     p_contract q = p_contract p \<and> p_direction q = p_direction p \<and> p_capacity q = p_capacity p
     \<and> (p_closed p \<noteq> None \<longrightarrow> p_closed q = p_closed p)"
proof (induction cs arbitrary: p)
  case (Cons c cs)
  obtain p1 r where s: "host_step p c = Some (p1, r)" and i: "prot_inv p1"
    using prot_inv_host_step [OF Cons.prems(1)] by blast
  have "host_run p1 cs = Some q" using Cons.prems(2) s by simp
  from Cons.IH [OF i this] show ?case using host_step_keeps [OF Cons.prems(1) s] by auto
qed simp

lemma started_keeps:
  assumes "started c d capacity cn = Ok p"
  shows "p_contract p = c" and "p_direction p = d" and "p_capacity p = capacity"
    and "p_closed p = None" and "p_previous p = None" and "p_credited p = False"
    and "p_stage p = (case d of Import \<Rightarrow> Header | Export \<Rightarrow> Source)"
    and "p_active p = (\<lambda>_. None)" and "p_offsets p = (\<lambda>_. 0)"
  using assms
  by (auto simp: started_def protocol_new_def with_connection_def and_then_eq_Ok split: option.splits if_splits)

subsection \<open>Effects stay inside the buffers\<close>

fun effect_within :: "nat \<Rightarrow> lane \<Rightarrow> effect \<Rightarrow> bool" where
  "effect_within capacity l (Effect_Receive k offset len) =
     (k = l \<and> 0 < len \<and> offset + len \<le> (if l = Lane_Data then capacity else CREDIT_BYTES))"
| "effect_within capacity l (Effect_Transmit k offset len) =
     (k = l \<and> 0 < len \<and> offset + len \<le> (if l = Lane_Data then capacity else CREDIT_BYTES))"
| "effect_within capacity l Effect_Provide = (l = Lane_Data)"
| "effect_within capacity l (Effect_Admit len _) = (l = Lane_Data \<and> HEADER_BYTES + len \<le> capacity)"
| "effect_within capacity l (Effect_Cancel k _) = (k = l)"

lemma effect_within_inv:
  assumes "prot_inv p" and "effect_of p l = Some eff"
  shows "effect_within (p_capacity p) l eff"
proof (cases "p_active p l")
  case (Some a)
  then show ?thesis using assms by (auto simp: effect_of_def split: prod.splits option.splits)
next
  case None
  then have op: "p_closed p = None" and e: "idle_effect p l = Some eff"
    using assms(2) by (auto simp: effect_of_def split: if_splits)
  have ok: "open_ok p" and cap: "HEADER_BYTES \<le> p_capacity p"
    using assms(1) op by (auto simp: prot_inv_def base_ok_def capacity_ok_def)
  show ?thesis
  proof (cases l)
    case Lane_Data
    then show ?thesis using e ok cap
      by (cases "p_stage p") (auto simp: idle_effect_data open_ok_iff data_ok_def split: if_splits)
  next
    case Lane_CreditSend
    then show ?thesis using e ok
      by (auto simp: idle_effect_credit open_ok_iff credit_ok_def split: if_splits)
  next
    case Lane_CreditReceive
    then show ?thesis using e ok
      by (cases "p_direction p") (auto simp: idle_effect_credit open_ok_iff credit_ok_def CREDIT_BYTES_def)
  qed
qed

subsection \<open>Outstanding operations\<close>

definition outstanding :: "protocol \<Rightarrow> op_id list" where
  "outstanding p = List.map_filter (\<lambda>l. map_option fst (p_active p l)) lane_ALL"

lemma outstanding_iff: "i \<in> set (outstanding p) \<longleftrightarrow> (\<exists>l. holds_op p i l)"
proof -
  have "i \<in> set (outstanding p) \<longleftrightarrow> (\<exists>l \<in> set lane_ALL. holds_op p i l)"
    by (auto simp: outstanding_def lane_ALL_def holds_op_def split: option.splits)
  moreover have "set lane_ALL = UNIV" by (auto simp: lane_ALL_def intro: lane.exhaust)
  ultimately show ?thesis by simp
qed

text \<open>Which operations an input leaves outstanding. Only a completion of that very operation
  retires one, closed or not.\<close>

definition outstanding_after :: "protocol \<Rightarrow> input \<Rightarrow> (unit, transport_error) result \<Rightarrow> op_id set" where
  "outstanding_after p i r =
     (case i of
        In_Completed j _ _ \<Rightarrow> set (outstanding p) - {j}
      | In_Accepted _ j \<Rightarrow> if r = Ok () then insert j (set (outstanding p)) else set (outstanding p)
      | _ \<Rightarrow> set (outstanding p))"

lemma outstanding_cong: "p_active q = p_active p \<Longrightarrow> outstanding q = outstanding p"
  by (simp add: outstanding_def)

lemma progress_active:
  assumes "progress p l buffer = Some (q, r)"
  shows "p_active q = p_active p"
  using assms progress_data_frame(1) [of p buffer q r] progress_credit_receive_frame(1) [of p buffer q r]
  by (cases l)
    (auto simp: progress_def same_frame_def progress_credit_send_def Let_def split: if_splits option.splits)

lemma completed_active:
  assumes "transition_completed p i res buffer = Some (q, r)"
  shows "p_active q =
    (case find (holds_op p i) lane_ALL of None \<Rightarrow> p_active p | Some l \<Rightarrow> (p_active p)(l := None))"
proof (cases "find (holds_op p i) lane_ALL")
  case None
  then show ?thesis using assms by (simp add: transition_completed_def)
next
  case (Some l)
  then have "q = p\<lparr>p_active := (p_active p)(l := None)\<rparr>
      \<or> (\<exists>f. progress (p\<lparr>p_active := (p_active p)(l := None), p_offsets := f\<rparr>) l buffer = Some (q, r))"
    using assms
    by (auto simp: transition_completed_def Let_def split: if_splits io_result.splits option.splits)
  then have "p_active q = (p_active p)(l := None)" by (auto dest: progress_active)
  then show ?thesis using Some by simp
qed

lemma outstanding_completed:
  assumes ops: "ops_ok p" and t: "transition_completed p i res buffer = Some (q, r)"
  shows "set (outstanding q) = set (outstanding p) - {i}"
proof (cases "find (holds_op p i) lane_ALL")
  case None
  then have "outstanding q = outstanding p"
    using completed_active [OF t] by (intro outstanding_cong) simp
  then show ?thesis using None by (simp add: find_lane_None outstanding_iff)
next
  case (Some l)
  have held: "holds_op q j k \<longleftrightarrow> k \<noteq> l \<and> holds_op p j k" for j k
    using completed_active [OF t] Some by (simp add: holds_op_def)
  have "holds_op p i l" by (rule find_lane [OF Some])
  then have own: "holds_op p j l \<longleftrightarrow> j = i" and only: "holds_op p i k \<longleftrightarrow> k = l" for j k
    using ops by (auto simp: holds_op_def ops_ok_def split: option.splits)
  show ?thesis
  proof (rule set_eqI)
    fix x
    have "(\<exists>k. k \<noteq> l \<and> holds_op p x k) \<longleftrightarrow> (\<exists>k. holds_op p x k) \<and> x \<noteq> i"
      using own [of x] only by metis
    then show "x \<in> set (outstanding q) \<longleftrightarrow> x \<in> set (outstanding p) - {i}"
      by (simp add: outstanding_iff held)
  qed
qed

lemma outstanding_settle [simp]: "outstanding (settle i q r) = outstanding q"
  by (rule outstanding_cong) (simp add: settle_def Let_def split: option.split result.split)

lemma outstanding_close [simp]: "outstanding (close_with e p) = outstanding p"
  by (rule outstanding_cong) simp

lemma outstanding_input:
  assumes inv: "prot_inv p" and s: "input_step p i = Some (q, r)"
  shows "set (outstanding q) = outstanding_after p i r"
proof -
  obtain q0 where t: "transition p i = Some (q0, r)" and q: "outstanding q = outstanding q0"
    using s by (auto simp: input_step_settle)
  have "set (outstanding q0) = outstanding_after p i r"
  proof (cases i)
    case (In_Completed j res buffer)
    then show ?thesis
      using outstanding_completed [of p j res buffer q0 r] inv t
      by (simp add: outstanding_after_def prot_inv_def base_ok_def)
  next
    case (In_Accepted l j)
    show ?thesis
    proof (cases "r = Ok ()")
      case True
      then have q0: "holds_op q0 k l' \<longleftrightarrow> (if l' = l then k = j else holds_op p k l')"
        and none: "p_active p l = None" for k l'
        using t In_Accepted
        by (auto simp: transition_accepted_def effect_of_def holds_op_def split: option.splits if_splits)
      have "(\<exists>l'. if l' = l then x = j else holds_op p x l') \<longleftrightarrow> x = j \<or> (\<exists>l'. holds_op p x l')" for x
        using none by (metis holds_op_def option.simps(4))
      then show ?thesis
        using True In_Accepted by (auto simp: outstanding_after_def outstanding_iff q0)
    next
      case False
      then show ?thesis
        using t In_Accepted
        by (auto simp: transition_accepted_def outstanding_after_def split: option.splits if_splits)
    qed
  next
    case (In_Provided n len)
    then have "p_active q0 = p_active p"
      using t by (auto simp: transition_provided_def Let_def observe_sequence_def split: option.splits if_splits)
    then show ?thesis using In_Provided outstanding_cong [of q0 p] by (simp add: outstanding_after_def)
  next
    case In_Admitted
    then have "p_active q0 = p_active p"
      using t by (auto simp: transition_admitted_def Let_def split: option.splits if_splits)
    then show ?thesis using In_Admitted outstanding_cong [of q0 p] by (simp add: outstanding_after_def)
  qed (use t in \<open>auto simp: outstanding_after_def\<close>)
  then show ?thesis by (simp add: q)
qed

text \<open>A completion that matches no outstanding operation is the identity.\<close>

lemma tell_identity:
  assumes "\<And>a. p_account p = Some a \<Longrightarrow> f a = a"
  shows "tell f p = p"
  using assms by (cases p; cases "p_account p") (auto simp: tell_def)

lemma unmatched_completion:
  assumes inv: "prot_inv p" and i: "i \<notin> set (outstanding p)"
  shows "input_step p (In_Completed i res buffer) = Some (p, Ok ())"
proof -
  have "find (holds_op p i) lane_ALL = None" using i by (simp add: find_lane_None outstanding_iff)
  then have t: "transition p (In_Completed i res buffer) = Some (p, Ok ())"
    by (simp add: transition_completed_def)
  have "settle (In_Completed i res buffer) p (Ok ()) = p"
  proof (cases "p_closed p")
    case (Some e)
    have "tell (acc_finish e) p = p"
      by (rule tell_identity) (use inv Some in \<open>auto simp: prot_inv_def ended_ok_def intro: acc_terminal_idem\<close>)
    then show ?thesis by (simp add: settle_def Some)
  qed (simp add: settle_def)
  then show ?thesis using t by (simp add: input_step_settle)
qed

subsection \<open>An importer admits only sequences in order\<close>

text \<open>Between the header of a frame and its admission the sequence follows the last admitted one.\<close>

definition seq_ok :: "protocol \<Rightarrow> bool" where
  "seq_ok p \<longleftrightarrow> (p_stage p \<in> {Payload, Admission} \<longrightarrow>
     (\<forall>n. p_previous p = Some n \<longrightarrow> follows (c_delivery (p_contract p)) n (p_sequence p)))"

lemma seq_ok_cong:
  "p_stage q = p_stage p \<Longrightarrow> p_previous q = p_previous p \<Longrightarrow> p_sequence q = p_sequence p \<Longrightarrow>
   p_contract q = p_contract p \<Longrightarrow> seq_ok q = seq_ok p"
  by (simp add: seq_ok_def)

lemma progress_header_seq: "progress_header p off buffer = (q, Ok ()) \<Longrightarrow> seq_ok q"
  by (auto simp: progress_header_def Let_def observe_sequence_def seq_ok_def split: if_splits option.splits)

lemma progress_seq:
  assumes "progress p l buffer = Some (q, Ok ())" and "seq_ok p"
  shows "seq_ok q"
proof (cases l)
  case Lane_Data
  then have "progress_data p buffer = (q, Ok ())" using assms(1) by (simp add: progress_def)
  then show ?thesis
    using assms(2) progress_header_seq [of p "p_offsets p Lane_Data" buffer q]
    by (auto simp: progress_data_def Let_def seq_ok_def split: if_splits stage.splits)
next
  case Lane_CreditSend
  then have "p_stage q = p_stage p \<and> p_previous q = p_previous p \<and> p_sequence q = p_sequence p
      \<and> p_contract q = p_contract p"
    using assms(1) by (auto simp: progress_def progress_credit_send_def Let_def split: if_splits option.splits)
  then show ?thesis using assms(2) seq_ok_cong by blast
next
  case Lane_CreditReceive
  then show ?thesis
    using assms by (auto simp: progress_def progress_credit_receive_def Let_def seq_ok_def split: if_splits)
qed

lemma transition_seq:
  assumes "transition p i = Some (q, Ok ())" and "seq_ok p"
  shows "seq_ok q"
proof (cases i)
  case (In_Accepted l j)
  then show ?thesis
    using assms by (auto simp: transition_accepted_def seq_ok_def split: option.splits if_splits)
next
  case (In_Completed j res buffer)
  have "seq_ok (p\<lparr>p_active := f\<rparr>)" "seq_ok (p\<lparr>p_active := f, p_offsets := g\<rparr>)" for f g
    using assms(2) by (simp_all add: seq_ok_def)
  then show ?thesis
    using assms In_Completed
    by (auto simp: transition_completed_def Let_def split: option.splits if_splits io_result.splits
        intro: progress_seq)
next
  case (In_Provided n len)
  then show ?thesis
    using assms by (auto simp: transition_provided_def Let_def seq_ok_def split: option.splits if_splits)
next
  case In_Admitted
  then show ?thesis
    using assms by (auto simp: transition_admitted_def Let_def seq_ok_def split: option.splits if_splits)
qed (use assms in \<open>auto simp: seq_ok_def\<close>)

subsection \<open>Closure\<close>

text \<open>A closed protocol only asks for cancellations and accepts no operation.\<close>

lemma closed_effect: "p_closed p = Some e \<Longrightarrow> effect_of p l = Some eff \<Longrightarrow> \<exists>i. eff = Effect_Cancel l i \<and> i \<in> set (outstanding p)"
  using outstanding_iff [of _ p]
  by (fastforce simp: effect_of_def holds_op_def split: option.splits)

lemma closed_shrinks:
  assumes inv: "prot_inv p" and closed: "p_closed p = Some e" and s: "host_step p c = Some (q, r)"
  shows "set (outstanding q) \<subseteq> set (outstanding p)"
proof (cases c)
  case (Call i)
  show ?thesis
  proof (cases "\<exists>l j. i = In_Accepted l j")
    case True
    then obtain l j where i: "i = In_Accepted l j" by blast
    have "requested eff = None" if "effect_of p l = Some eff" for eff
      using closed_effect [OF closed that] by auto
    then have "transition p i = Some (p, Err Error_Protocol)"
      by (auto simp: i transition_accepted_def split: option.split)
    then show ?thesis using s Call by (auto simp: input_step_settle)
  next
    case False
    then show ?thesis
      using outstanding_input [OF inv, of i q r] s Call
      by (auto simp: outstanding_after_def split: input.splits)
  qed
qed (use s in \<open>auto simp: observe_sequence_def pop_record_tell outstanding_def\<close>)

lemma closed_run:
  "prot_inv p \<Longrightarrow> p_closed p = Some e \<Longrightarrow> host_run p cs = Some q \<Longrightarrow>
     p_closed q = Some e \<and> set (outstanding q) \<subseteq> set (outstanding p)"
proof (induction cs arbitrary: p)
  case (Cons c cs)
  obtain p1 r where s: "host_step p c = Some (p1, r)" and i: "prot_inv p1"
    using prot_inv_host_step [OF Cons.prems(1)] by blast
  have "p_closed p1 = Some e" using host_step_keeps(4) [OF Cons.prems(1) s] Cons.prems(2) by simp
  from Cons.IH [OF i this] closed_shrinks [OF Cons.prems(1,2) s] Cons.prems(3) s
  show ?case by auto
qed simp

subsection \<open>Properties\<close>

definition sample_contract :: contract where
  "sample_contract = \<lparr>c_event = EventId 5, c_major = 1, c_revision = 1, c_delivery = Ordered\<rparr>"

definition sample_importer :: protocol where
  "sample_importer = (case protocol_new sample_contract Import 64 of Ok p \<Rightarrow> p)"

definition sample_op :: op_id where
  "sample_op = \<lparr>op_slot = 1, op_generation = 1\<rparr>"

lemma sample_importer_eq:
  "sample_importer = \<lparr>p_contract = sample_contract, p_direction = Import, p_capacity = 64,
     p_stage = Header, p_active = (\<lambda>_. None), p_offsets = (\<lambda>_. 0), p_length = 38,
     p_sequence = 0, p_previous = None, p_revision = 1, p_credited = False, p_closed = None,
     p_account = None\<rparr>"
  by (simp add: sample_importer_def protocol_new_def HEADER_BYTES_def width_defs sample_contract_def)

lemma sample_importer_idle: "outstanding sample_importer = []"
  by (simp add: sample_importer_eq outstanding_def lane_ALL_def)

text \<open>The first receive of a new importer is accepted.\<close>

lemma sample_importer_accepts:
  "input_step sample_importer (In_Accepted Lane_Data sample_op) =
     Some (sample_importer\<lparr>p_active := (\<lambda>_. None)(Lane_Data := Some (sample_op, Effect_Receive Lane_Data 0 64))\<rparr>,
       Ok ())"
  by (simp add: sample_importer_eq input_step_settle settle_def transition_accepted_def effect_of_def
      idle_effect_data lane_ALL_def holds_op_def)

lemma sample_importer_started: "started sample_contract Import 64 None = Ok sample_importer"
  by (simp add: started_def sample_importer_def protocol_new_def HEADER_BYTES_def width_defs)

text \<open>C1: The protocol never panics and never asks for I/O outside its storage: whatever calls the
  host makes, with any identifiers, results and buffers, every call returns, and each effect it
  then asks for is non-empty and inside the frame buffer (or the nine credit bytes) of its lane.\<close>

theorem protocol_total_and_bounded:
  assumes "started c d capacity cn = Ok p"
  shows "\<exists>q. host_run p cs = Some q
    \<and> (\<forall>l eff. effect_of q l = Some eff \<longrightarrow> effect_within capacity l eff)"
proof -
  obtain q where q: "host_run p cs = Some q" and inv: "prot_inv q"
    using prot_inv_run [OF prot_inv_started [OF assms]] by blast
  have "p_capacity q = capacity"
    using host_run_keeps [OF prot_inv_started [OF assms] q] started_keeps(3) [OF assms] by simp
  then show ?thesis using q effect_within_inv [OF inv] by auto
qed

theorem protocol_total_and_bounded_witness:
  "\<exists>q. host_run sample_importer [Call (In_Accepted Lane_Data sample_op),
       Call (In_Completed sample_op (Bytes 5) [])] = Some q
     \<and> (\<forall>l eff. effect_of q l = Some eff \<longrightarrow> effect_within 64 l eff)"
  by (rule protocol_total_and_bounded [OF sample_importer_started])

text \<open>C22: The first closing reason is final. After it, whatever the host does, the reason stays, no
  further operation is accepted (the outstanding ones can only shrink), and the only effects are
  cancellations of operations still outstanding.\<close>

theorem closure_is_final:
  assumes "started c d capacity cn = Ok p" and "host_run p before = Some q" and "p_closed q = Some e"
    and "host_run q after = Some q'"
  shows "p_closed q' = Some e \<and> set (outstanding q') \<subseteq> set (outstanding q)
    \<and> (\<forall>l eff. effect_of q' l = Some eff \<longrightarrow> (\<exists>i \<in> set (outstanding q). eff = Effect_Cancel l i))"
proof -
  have inv: "prot_inv q" by (rule prot_inv_reachable [OF assms(1,2)])
  from closed_run [OF inv assms(3,4)] show ?thesis using closed_effect by blast
qed

theorem closure_is_final_witness:
  "\<exists>q q'. host_run sample_importer [Call (In_Accepted Lane_Data sample_op), Call In_Revoked] = Some q
     \<and> host_run q [Call (In_Closed Error_Protocol)] = Some q' \<and> p_closed q' = Some Error_Revoked"
proof -
  let ?before = "[Call (In_Accepted Lane_Data sample_op), Call In_Revoked]"
  obtain q where q: "host_run sample_importer ?before = Some q" and inv: "prot_inv q"
    using prot_inv_run [OF prot_inv_started [OF sample_importer_started]] by blast
  obtain q' where q': "host_run q [Call (In_Closed Error_Protocol)] = Some q'"
    using prot_inv_run [OF inv] by blast
  have "map_option p_closed (host_run sample_importer ?before) = Some (Some Error_Revoked)"
    by (simp add: sample_importer_accepts)
      (simp add: sample_importer_eq input_step_settle settle_def close_with_def)
  then have "p_closed q = Some Error_Revoked" using q by simp
  from closure_is_final [OF sample_importer_started q this q'] show ?thesis using q q' by blast
qed

text \<open>C21: Ownership of submitted storage is exact. In every reachable state an input changes the
  outstanding operations only by adding the identifier it accepts and by removing the identifier
  whose own completion arrives; closing, revoking and failing remove nothing.\<close>

theorem outstanding_exact:
  assumes "started c d capacity cn = Ok p" and "host_run p cs = Some q" and "input_step q i = Some (q', r)"
  shows "set (outstanding q') = outstanding_after q i r"
  by (rule outstanding_input [OF prot_inv_reachable [OF assms(1,2)] assms(3)])

theorem outstanding_exact_witness:
  "\<exists>q r. input_step sample_importer (In_Accepted Lane_Data sample_op) = Some (q, r)
     \<and> set (outstanding q) = {sample_op}"
proof -
  note s = sample_importer_accepts
  show ?thesis
    using outstanding_exact [OF sample_importer_started, of "[]", OF _ s]
    by (simp add: s outstanding_after_def sample_importer_idle)
qed

text \<open>C25: A completion whose identifier is not outstanding, such as a duplicate or a stale one, is
  ignored: in every reachable state it succeeds and leaves the whole protocol, its account
  included, as it was.\<close>

theorem stale_completion_ignored:
  assumes "started c d capacity cn = Ok p" and "host_run p cs = Some q" and "i \<notin> set (outstanding q)"
  shows "input_step q (In_Completed i res buffer) = Some (q, Ok ())"
  by (rule unmatched_completion [OF prot_inv_reachable [OF assms(1,2)] assms(3)])

theorem stale_completion_ignored_witness:
  "input_step sample_importer (In_Completed sample_op (Bytes 9) []) = Some (sample_importer, Ok ())"
  by (rule stale_completion_ignored [OF sample_importer_started, of "[]"]) (simp_all add: sample_importer_idle)

end
