(* ===== verification/Hiway_Link.thy ===== *)
theory Hiway_Link
  imports Hiway_Protocol
begin

text \<open>
  What the protocol of \<open>transport/protocol.rs\<close> achieves over whole runs: an importer admits
  sequences in the order its contract prescribes, reassembles a frame from any chunks the socket
  delivers, and an exporter has at most one frame under way and replaces it only after it was
  sent in full and acknowledged.
\<close>

subsection \<open>Admission order\<close>

text \<open>The sequences of the successful admissions of a run.\<close>

fun admissions :: "protocol \<Rightarrow> host_call list \<Rightarrow> u64 list" where
  "admissions p [] = []"
| "admissions p (c # cs) =
     (case host_step p c of
        None \<Rightarrow> []
      | Some (q, r) \<Rightarrow>
          (if c = Call In_Admitted \<and> r = Ok () then [p_sequence p] else []) @ admissions q cs)"

lemma completed_previous:
  assumes "transition_completed p i res buffer = Some (q, r)"
  shows "p_previous q = p_previous p"
proof -
  have prog: "p_previous q = p_previous p'" if "progress p' l buffer = Some (q, r)" for p' l
    using that progress_data_frame(1) [of p' buffer q r] progress_credit_receive_frame(1) [of p' buffer q r]
    by (cases l)
      (auto simp: progress_def same_frame_def progress_credit_send_def Let_def split: if_splits option.splits)
  show ?thesis
    using assms
    by (auto simp: transition_completed_def Let_def split: if_splits io_result.splits option.splits
        dest: prog)
qed

lemma transition_previous:
  assumes "transition p i = Some (q, r)"
  shows "p_previous q = (if i = In_Admitted \<and> r = Ok () then Some (p_sequence p) else p_previous p)"
  using assms completed_previous
  by (cases i)
    (auto simp: transition_accepted_def transition_provided_def transition_admitted_def Let_def
      observe_sequence_def split: option.splits if_splits)

lemma settle_simps [simp]:
  "p_previous (settle i q r) = p_previous q" "p_stage (settle i q r) = p_stage q"
  "p_sequence (settle i q r) = p_sequence q" "p_contract (settle i q r) = p_contract q"
  "p_offsets (settle i q r) = p_offsets q" "p_length (settle i q r) = p_length q"
  "p_active (settle i q r) = p_active q" "p_credited (settle i q r) = p_credited q"
  "p_capacity (settle i q r) = p_capacity q" "p_revision (settle i q r) = p_revision q"
  "p_direction (settle i q r) = p_direction q"
  by (simp_all add: settle_def Let_def split: option.split result.split)

lemma settle_closed: "p_closed (settle i q r) = None \<longleftrightarrow> p_closed q = None \<and> r = Ok ()"
  by (cases r) (auto simp: settle_def Let_def split: option.split)

lemma host_step_previous:
  assumes "host_step p c = Some (q, r)"
  shows "p_previous q = (if c = Call In_Admitted \<and> r = Ok () then Some (p_sequence p) else p_previous p)"
proof (cases c)
  case (Call i)
  obtain q0 where t: "transition p i = Some (q0, r)" and q: "q = settle i q0 r"
    using assms Call by (auto simp: input_step_settle)
  show ?thesis using transition_previous [OF t] by (simp add: q Call)
qed (use assms in \<open>auto simp: observe_sequence_def pop_record_tell\<close>)

definition open_seq_ok :: "protocol \<Rightarrow> bool" where
  "open_seq_ok p \<longleftrightarrow> (p_closed p = None \<longrightarrow> seq_ok p)"

lemma host_step_seq:
  assumes inv: "prot_inv p" and s: "host_step p c = Some (q, r)" and seq: "open_seq_ok p"
  shows "open_seq_ok q"
proof (cases c)
  case (Call i)
  obtain q0 where t: "transition p i = Some (q0, r)" and q: "q = settle i q0 r"
    using s Call by (auto simp: input_step_settle)
  have "seq_ok q" if op: "p_closed q = None"
  proof -
    have "p_closed p = None"
      using input_step_keeps(4) [OF inv, of i q r] s Call op by (cases "p_closed p") auto
    moreover have "r = Ok ()" using op by (simp add: q settle_closed)
    ultimately have "seq_ok q0" using t seq by (auto simp: open_seq_ok_def intro: transition_seq)
    then show ?thesis by (simp add: q seq_ok_def)
  qed
  then show ?thesis by (simp add: open_seq_ok_def)
qed (use s seq in \<open>auto simp: open_seq_ok_def seq_ok_def observe_sequence_def pop_record_tell\<close>)

text \<open>A successful admission comes in stage \<open>Admission\<close> of an open protocol, where the sequence
  has been checked.\<close>

lemma admitted_follows:
  assumes "host_step p (Call In_Admitted) = Some (q, Ok ())" and "open_seq_ok p"
    and "p_previous p = Some n"
  shows "follows (c_delivery (p_contract p)) n (p_sequence p)"
  using assms
  by (auto simp: input_step_settle transition_admitted_def Let_def open_seq_ok_def seq_ok_def
      split: option.splits if_splits)

lemma admissions_chain:
  "prot_inv p \<Longrightarrow> open_seq_ok p \<Longrightarrow>
     successively (follows (c_delivery (p_contract p)))
       ((case p_previous p of None \<Rightarrow> [] | Some n \<Rightarrow> [n]) @ admissions p cs)"
proof (induction cs arbitrary: p)
  case Nil
  then show ?case by (simp split: option.split)
next
  case (Cons c cs)
  obtain q r where s: "host_step p c = Some (q, r)" and inv: "prot_inv q"
    using prot_inv_host_step [OF Cons.prems(1)] by blast
  have contract: "p_contract q = p_contract p" by (rule host_step_keeps(1) [OF Cons.prems(1) s])
  note IH = Cons.IH [OF inv host_step_seq [OF Cons.prems(1) s Cons.prems(2)], unfolded contract]
  note prev = host_step_previous [OF s]
  show ?case
  proof (cases "c = Call In_Admitted \<and> r = Ok ()")
    case True
    have f: "follows (c_delivery (p_contract p)) n (p_sequence p)" if "p_previous p = Some n" for n
      using admitted_follows [OF _ Cons.prems(2) that, of q] s True by simp
    have "successively (follows (c_delivery (p_contract p))) (p_sequence p # admissions q cs)"
      using IH prev True by simp
    then show ?thesis using s True f by (auto split: option.split)
  next
    case False
    then show ?thesis using IH prev s by auto
  qed
qed

lemma admissions_started:
  assumes "started c d capacity cn = Ok p"
  shows "successively (follows (c_delivery c)) (admissions p cs)"
proof -
  note k = started_keeps [OF assms]
  have "open_seq_ok p" by (simp add: open_seq_ok_def seq_ok_def k)
  from admissions_chain [OF prot_inv_started [OF assms] this, of cs] show ?thesis by (simp add: k)
qed

subsection \<open>Reassembly of a frame\<close>

text \<open>One receive of \<open>count\<close> bytes on the data lane: submit the operation \<open>i\<close>, then complete it
  with the contents the buffer has by then.\<close>

definition receive_chunk :: "protocol \<Rightarrow> op_id \<Rightarrow> nat \<Rightarrow> bytes \<Rightarrow> protocol option" where
  "receive_chunk p i count buffer =
     (case input_step p (In_Accepted Lane_Data i) of
        Some (p1, Ok _) \<Rightarrow>
          (case input_step p1 (In_Completed i (Bytes count) buffer) of
             Some (p2, Ok _) \<Rightarrow> Some p2
           | _ \<Rightarrow> None)
      | _ \<Rightarrow> None)"

text \<open>A socket that delivers \<open>frame\<close> in chunks: each chunk names its operation, its size and
  whatever stale bytes lie behind the received ones.\<close>

fun receive_all :: "protocol \<Rightarrow> bytes \<Rightarrow> nat \<Rightarrow> (op_id \<times> nat \<times> bytes) list \<Rightarrow> protocol option" where
  "receive_all p frame k [] = Some p"
| "receive_all p frame k ((i, count, rest) # cs) =
     (case receive_chunk p i count (take (k + count) frame @ rest) of
        None \<Rightarrow> None
      | Some q \<Rightarrow> receive_all q frame (k + count) cs)"

lemma receive_chunk_progress:
  assumes "p_closed p = None" and "p_active p Lane_Data = None" and "i \<notin> set (outstanding p)"
    and eff: "idle_effect p Lane_Data = Some eff" "requested eff = Some n" and count: "0 < count" "count \<le> n"
    and prog: "progress_data (p\<lparr>p_offsets := (p_offsets p)(Lane_Data := p_offsets p Lane_Data + count)\<rparr>)
        buffer = (q, Ok ())"
    and "p_closed q = None"
  shows "receive_chunk p i count buffer = Some q"
proof -
  let ?p1 = "p\<lparr>p_active := (p_active p)(Lane_Data := Some (i, eff))\<rparr>"
  have no: "\<not> holds_op p i l" for l using assms(3) by (auto simp: outstanding_iff)
  have acc: "input_step p (In_Accepted Lane_Data i) = Some (?p1, Ok ())"
    using assms(1,2) eff no
    by (simp add: input_step_settle transition_accepted_def effect_of_def lane_ALL_def settle_def)
  have found: "find (holds_op ?p1 i) lane_ALL = Some Lane_Data"
    by (simp add: lane_ALL_def holds_op_def)
  have restored: "(p_active p)(Lane_Data := None) = p_active p" using assms(2) by (simp add: fun_upd_idem)
  have "transition ?p1 (In_Completed i (Bytes count) buffer) = Some (q, Ok ())"
    using assms(1) eff count found prog restored
    by (cases p) (simp add: transition_completed_def Let_def progress_def)
  then have "input_step ?p1 (In_Completed i (Bytes count) buffer) = Some (q, Ok ())"
    using assms by (simp add: input_step_settle settle_def)
  with acc show ?thesis by (simp add: receive_chunk_def)
qed

text \<open>The importer's state after \<open>k\<close> bytes of a frame with header \<open>frame_header e n _\<close>.\<close>

definition received ::
    "protocol \<Rightarrow> event_spec \<Rightarrow> u64 \<Rightarrow> nat \<Rightarrow> nat \<Rightarrow> protocol \<Rightarrow> bool" where
  "received p e n whole k q \<longleftrightarrow>
     p_closed q = None \<and> p_contract q = p_contract p \<and> p_direction q = p_direction p
     \<and> p_capacity q = p_capacity p \<and> p_active q = p_active p \<and> p_previous q = p_previous p
     \<and> p_credited q = p_credited p \<and> p_offsets q = (p_offsets p)(Lane_Data := k)
     \<and> (if k < HEADER_BYTES then p_stage q = Header
        else p_length q = whole \<and> p_sequence q = n \<and> p_revision q = SCHEMA_REVISION e
          \<and> p_stage q = (if k = whole then Admission else Payload))"

text \<open>An importer ready for a frame of event \<open>e\<close> with sequence \<open>n\<close>.\<close>

definition ready_for :: "protocol \<Rightarrow> event_spec \<Rightarrow> u64 \<Rightarrow> bool" where
  "ready_for p e n \<longleftrightarrow>
     p_closed p = None \<and> p_active p Lane_Data = None \<and> p_stage p = Header
     \<and> p_offsets p Lane_Data = 0
     \<and> c_event (p_contract p) = ID e \<and> c_major (p_contract p) = WIRE_MAJOR e
     \<and> (\<forall>m. p_previous p = Some m \<longrightarrow> follows (c_delivery (p_contract p)) m n)"

lemma sub_slice_take:
  "i + m \<le> k \<Longrightarrow> k \<le> length xs \<Longrightarrow> sub_slice i m (take k xs @ ys) = sub_slice i m xs"
  by (simp add: sub_slice_def drop_take min_absorb1)

lemma progress_header_frame_bytes:
  assumes ready: "ready_for p e n" and frame: "frame = frame_header e n (of_nat len) @ body"
    and len: "len = length body" "len \<le> u32_max" and cap: "length frame \<le> p_capacity p"
    and k: "HEADER_BYTES \<le> k" "k \<le> length frame"
    and q: "p_contract q = p_contract p" "p_previous q = p_previous p" "p_capacity q = p_capacity p"
  shows "progress_header q k (take k frame @ rest) =
    ((observe_sequence n q)\<lparr>p_revision := SCHEMA_REVISION e, p_sequence := n, p_length := length frame,
        p_stage := (if k = length frame then Admission else Payload)\<rparr>, Ok ())"
proof -
  let ?b = "take k frame @ rest"
  have slice: "sub_slice i m ?b = sub_slice i m frame" if "i + m \<le> 38" for i m
    using that k by (intro sub_slice_take) (auto simp: HEADER_BYTES_def)
  have whole: "length frame = HEADER_BYTES + len" using frame len by (simp add: HEADER_BYTES_def)
  have size: "unat (from_le_bytes (sub_slice 34 4 frame) :: u32) = len"
    using len by (simp add: frame frame_header_fields unat_of_nat u32_max_def)
  have fields_ok: "sub_slice 0 4 ?b = HWY1" "sub_slice 4 16 ?b = event_bytes (ID e)"
    "sub_slice 20 2 ?b = to_le_bytes 2 (WIRE_MAJOR e)"
    "from_le_bytes (sub_slice 22 4 ?b) = SCHEMA_REVISION e"
    "from_le_bytes (sub_slice 26 8 ?b) = n" "unat (from_le_bytes (sub_slice 34 4 ?b) :: u32) = len"
    using size by (simp_all add: slice) (simp_all add: frame frame_header_fields)
  have "HEADER_BYTES + len \<le> usize_max" using len by (simp add: HEADER_BYTES_def width_defs)
  then show ?thesis
    using k cap ready q
    by (simp add: progress_header_def Let_def fields_ok checked_add_def whole ready_for_def
        observe_sequence_def split: option.split)
qed

lemma received_start: "ready_for p e n \<Longrightarrow> received p e n whole 0 p"
  by (simp add: received_def ready_for_def HEADER_BYTES_def fun_upd_idem)

lemma outstanding_received: "received p e n whole k q \<Longrightarrow> outstanding q = outstanding p"
  by (rule outstanding_cong) (simp add: received_def)

lemma receive_chunk_ok:
  assumes ready: "ready_for p e n" and frame: "frame = frame_header e n (of_nat len) @ body"
    and len: "len = length body" "len \<le> u32_max" and cap: "length frame \<le> p_capacity p"
    and st: "received p e n (length frame) k q"
    and i: "i \<notin> set (outstanding p)" and count: "0 < count" "k + count \<le> length frame"
  shows "\<exists>q'. receive_chunk q i count (take (k + count) frame @ rest) = Some q'
      \<and> received p e n (length frame) (k + count) q'"
proof -
  have whole: "length frame = HEADER_BYTES + len" using frame len by (simp add: HEADER_BYTES_def)
  have q: "p_closed q = None" "p_active q Lane_Data = None" "i \<notin> set (outstanding q)"
    "p_offsets q Lane_Data = k" "p_contract q = p_contract p" "p_previous q = p_previous p"
    "p_capacity q = p_capacity p"
    using st ready i outstanding_received [OF st] by (auto simp: received_def ready_for_def)
  obtain eff m where eff: "idle_effect q Lane_Data = Some eff" "requested eff = Some m" and m: "count \<le> m"
    using st count cap whole q
    by (cases "k < HEADER_BYTES") (auto simp: received_def idle_effect_data)
  let ?q1 = "q\<lparr>p_offsets := (p_offsets q)(Lane_Data := p_offsets q Lane_Data + count)\<rparr>"
  have "\<exists>q'. progress_data ?q1 (take (k + count) frame @ rest) = (q', Ok ())
      \<and> received p e n (length frame) (k + count) q'"
  proof (cases "k < HEADER_BYTES \<and> HEADER_BYTES \<le> k + count")
    case True
    then have "progress_header ?q1 (k + count) (take (k + count) frame @ rest) =
      ((observe_sequence n ?q1)\<lparr>p_revision := SCHEMA_REVISION e, p_sequence := n,
        p_length := length frame,
        p_stage := (if k + count = length frame then Admission else Payload)\<rparr>, Ok ())"
      using progress_header_frame_bytes [OF ready frame len cap, of "k + count" ?q1 rest] count q by simp
    moreover have "p_stage q = Header" using st True by (simp add: received_def)
    ultimately show ?thesis
      using st True q by (simp add: progress_data_def Let_def received_def observe_sequence_def)
  next
    case False
    then consider "k + count < HEADER_BYTES" | "HEADER_BYTES \<le> k" by linarith
    then show ?thesis
    proof cases
      case 1
      then have "p_stage q = Header" using st by (simp add: received_def)
      then have "progress_data ?q1 (take (k + count) frame @ rest) = (?q1, Ok ())"
        using 1 q by (simp add: progress_data_def)
      then show ?thesis using 1 st by (simp add: received_def)
    next
      case 2
      then have "p_stage q = Payload" "p_length q = length frame" using st count by (auto simp: received_def)
      then have "progress_data ?q1 (take (k + count) frame @ rest) =
          (if k + count = length frame then ?q1\<lparr>p_stage := Admission\<rparr> else ?q1, Ok ())"
        using q by (simp add: progress_data_def)
      then show ?thesis using 2 st count by (simp add: received_def)
    qed
  qed
  then obtain q' where prog: "progress_data ?q1 (take (k + count) frame @ rest) = (q', Ok ())"
    and st': "received p e n (length frame) (k + count) q'" by blast
  have "p_closed q' = None" using st' by (simp add: received_def)
  from receive_chunk_progress [OF q(1-3) eff count(1) m prog this] st' show ?thesis by blast
qed

text \<open>Any division of the frame into chunks ends with the whole frame received.\<close>

lemma receive_all_ok:
  assumes ready: "ready_for p e n" and frame: "frame = frame_header e n (of_nat len) @ body"
    and len: "len = length body" "len \<le> u32_max" and cap: "length frame \<le> p_capacity p"
  shows "received p e n (length frame) k q \<Longrightarrow> list_all (\<lambda>(i, count, _). i \<notin> set (outstanding p) \<and> 0 < count) cs
     \<Longrightarrow> k + sum_list (map (fst \<circ> snd) cs) \<le> length frame
     \<Longrightarrow> \<exists>q'. receive_all q frame k cs = Some q'
       \<and> received p e n (length frame) (k + sum_list (map (fst \<circ> snd) cs)) q'"
proof (induction cs arbitrary: k q)
  case (Cons c cs)
  obtain i count rest where c: "c = (i, count, rest)" by (cases c)
  obtain q1 where q1: "receive_chunk q i count (take (k + count) frame @ rest) = Some q1"
    and st: "received p e n (length frame) (k + count) q1"
    using receive_chunk_ok [OF ready frame len cap Cons.prems(1), of i count rest] Cons.prems c by auto
  show ?case using Cons.IH [OF st] Cons.prems q1 c by (simp add: add.assoc)
qed simp

lemma received_effect:
  assumes "received p e n (HEADER_BYTES + len) (HEADER_BYTES + len) q" and "p_active p Lane_Data = None"
    and "\<not> p_credited p"
  shows "effect_of q Lane_Data = Some (Effect_Admit len (SCHEMA_REVISION e))" and "p_sequence q = n"
    and "p_closed q = None"
  using assms by (auto simp: received_def effect_of_def idle_effect_data)

lemma ready_started:
  assumes "started (contract_of e) Import capacity cn = Ok p"
  shows "ready_for p e n"
  using started_keeps [OF assms] by (simp add: ready_for_def contract_of_def)

text \<open>The bytes of a frame reach the importer whole, for every lossless codec: the importer asks to
  admit the payload's length and revision, and decoding that slice gives the payload back.\<close>

lemma encoded_frame_received:
  assumes codec: "lossless_codec codec valid" and valid: "valid x"
    and fits: "wc_encoded_len codec x \<le> u32_max" "HEADER_BYTES + wc_encoded_len codec x \<le> length out"
      "length out \<le> usize_max" "HEADER_BYTES + wc_encoded_len codec x \<le> p_capacity p"
    and ready: "ready_for p (wc_spec codec) n" and idle: "outstanding p = []" and "\<not> p_credited p"
    and cs: "list_all (\<lambda>(_, count, _). 0 < count) cs"
      "sum_list (map (fst \<circ> snd) cs) = HEADER_BYTES + wc_encoded_len codec x"
  obtains buf q where "encode_frame codec n x out = (buf, Ok (HEADER_BYTES + wc_encoded_len codec x))"
    and "receive_all p (take (HEADER_BYTES + wc_encoded_len codec x) buf) 0 cs = Some q"
    and "effect_of q Lane_Data =
         Some (Effect_Admit (wc_encoded_len codec x) (SCHEMA_REVISION (wc_spec codec)))"
    and "wc_decode codec (sub_slice HEADER_BYTES (wc_encoded_len codec x) buf)
         (SCHEMA_REVISION (wc_spec codec)) = Ok x"
    and "received p (wc_spec codec) n (HEADER_BYTES + wc_encoded_len codec x)
           (HEADER_BYTES + wc_encoded_len codec x) q"
proof -
  let ?e = "wc_spec codec" and ?len = "wc_encoded_len codec x"
  obtain body where b: "encode_frame codec n x out =
       (frame_header ?e n (of_nat ?len) @ body @ drop (HEADER_BYTES + ?len) out, Ok (HEADER_BYTES + ?len))"
    and len: "length body = ?len" and dec: "wc_decode codec body (SCHEMA_REVISION ?e) = Ok x"
    using lossless_codec.encode_frame_ok [OF codec valid fits(1-3)] by blast
  define buf where "buf = frame_header ?e n (of_nat ?len) @ body @ drop (HEADER_BYTES + ?len) out"
  have frame: "take (HEADER_BYTES + ?len) buf = frame_header ?e n (of_nat ?len) @ body"
    using len by (simp add: buf_def HEADER_BYTES_def)
  have slice: "sub_slice HEADER_BYTES ?len buf = body"
    using len by (simp add: buf_def HEADER_BYTES_def sub_slice_append_right sub_slice_append_left)
  have whole: "HEADER_BYTES + ?len \<le> length buf"
    using len fits(2) by (simp add: buf_def HEADER_BYTES_def)
  obtain q where q: "receive_all p (take (HEADER_BYTES + ?len) buf) 0 cs = Some q"
    and r: "received p ?e n (HEADER_BYTES + ?len) (HEADER_BYTES + ?len) q"
    using receive_all_ok [OF ready frame _ fits(1), of 0 p cs] received_start [OF ready, of "HEADER_BYTES + ?len"]
      cs len fits(4) idle whole
    by (auto simp: case_prod_unfold list_all_iff)
  have "p_active p Lane_Data = None" using ready by (simp add: ready_for_def)
  from that [OF b [folded buf_def] q received_effect(1) [OF r this \<open>\<not> p_credited p\<close>] _ r]
  show thesis using dec slice by simp
qed

subsection \<open>A whole session\<close>

text \<open>The importer's host transmits the credit in chunks of its own.\<close>

definition credit_chunk :: "protocol \<Rightarrow> op_id \<Rightarrow> nat \<Rightarrow> protocol option" where
  "credit_chunk p i count =
     (case input_step p (In_Accepted Lane_CreditSend i) of
        Some (p1, Ok _) \<Rightarrow>
          (case input_step p1 (In_Completed i (Bytes count) []) of
             Some (p2, Ok _) \<Rightarrow> Some p2
           | _ \<Rightarrow> None)
      | _ \<Rightarrow> None)"

fun send_credit :: "protocol \<Rightarrow> (op_id \<times> nat) list \<Rightarrow> protocol option" where
  "send_credit p [] = Some p"
| "send_credit p ((i, count) # cs) =
     (case credit_chunk p i count of None \<Rightarrow> None | Some q \<Rightarrow> send_credit q cs)"

text \<open>The trip of one message: the exporter's buffer it is encoded into, how the sockets cut its
  frame, and how they cut the credit that answers it.\<close>

record 'p trip =
  tr_payload :: 'p
  tr_sequence :: u64
  tr_buffer :: bytes
  tr_chunks :: "(op_id \<times> nat \<times> bytes) list"
  tr_credits :: "(op_id \<times> nat) list"

text \<open>A session of the importer: each frame is received, admitted and credited; with the sequence,
  the decoded payload and the bytes of the credit.\<close>

fun session ::
    "'p wire_codec \<Rightarrow> protocol \<Rightarrow> 'p trip list
       \<Rightarrow> (protocol \<times> (u64 \<times> ('p, wire_error) result \<times> bytes) list) option" where
  "session codec p [] = Some (p, [])"
| "session codec p (f # fs) =
     (case encode_frame codec (tr_sequence f) (tr_payload f) (tr_buffer f) of
        (buf, Ok n) \<Rightarrow>
         (case receive_all p (take n buf) 0 (tr_chunks f) of
            None \<Rightarrow> None
          | Some q \<Rightarrow>
             (case effect_of q Lane_Data of
                Some (Effect_Admit len revision) \<Rightarrow>
                 (case input_step q In_Admitted of
                    Some (q1, Ok _) \<Rightarrow>
                     (case send_credit q1 (tr_credits f) of
                        None \<Rightarrow> None
                      | Some q2 \<Rightarrow>
                         map_option (apsnd (Cons (p_sequence q,
                              wc_decode codec (sub_slice HEADER_BYTES len buf) revision, credit_bytes q1)))
                           (session codec q2 fs))
                  | _ \<Rightarrow> None)
              | _ \<Rightarrow> None))
      | _ \<Rightarrow> None)"

definition trip_ok :: "'p wire_codec \<Rightarrow> ('p \<Rightarrow> bool) \<Rightarrow> nat \<Rightarrow> 'p trip \<Rightarrow> bool" where
  "trip_ok codec valid capacity f \<longleftrightarrow>
     (let len = wc_encoded_len codec (tr_payload f) in
      valid (tr_payload f) \<and> len \<le> u32_max \<and> HEADER_BYTES + len \<le> length (tr_buffer f)
      \<and> length (tr_buffer f) \<le> usize_max \<and> HEADER_BYTES + len \<le> capacity
      \<and> list_all (\<lambda>(_, count, _). 0 < count) (tr_chunks f)
      \<and> sum_list (map (fst \<circ> snd) (tr_chunks f)) = HEADER_BYTES + len
      \<and> list_all (\<lambda>(_, count). 0 < count) (tr_credits f)
      \<and> sum_list (map snd (tr_credits f)) = CREDIT_BYTES)"

text \<open>The importer after \<open>k\<close> bytes of the credit for \<open>n\<close>.\<close>

definition crediting :: "protocol \<Rightarrow> u64 \<Rightarrow> nat \<Rightarrow> protocol \<Rightarrow> bool" where
  "crediting p n k q \<longleftrightarrow>
     p_closed q = None \<and> p_contract q = p_contract p \<and> p_direction q = Import
     \<and> p_capacity q = p_capacity p \<and> p_active q = (\<lambda>_. None) \<and> p_previous q = Some n
     \<and> p_stage q = Header \<and> p_offsets q Lane_Data = 0 \<and> p_offsets q Lane_CreditSend = k
     \<and> p_credited q = (k < CREDIT_BYTES)"

lemma credit_chunk_ok:
  assumes c: "crediting p n k q" and k: "k < CREDIT_BYTES" and count: "0 < count" "k + count \<le> CREDIT_BYTES"
  shows "\<exists>q'. credit_chunk q i count = Some q' \<and> crediting p n (k + count) q'"
proof -
  let ?eff = "Effect_Transmit Lane_CreditSend k (CREDIT_BYTES - k)"
  let ?q1 = "q\<lparr>p_active := (p_active q)(Lane_CreditSend := Some (i, ?eff))\<rparr>"
  note q = c [unfolded crediting_def]
  have acc: "input_step q (In_Accepted Lane_CreditSend i) = Some (?q1, Ok ())"
    using q k
    by (simp add: input_step_settle transition_accepted_def effect_of_def lane_ALL_def settle_def
        idle_effect_credit holds_op_def)
  let ?q2 = "q\<lparr>p_offsets := (p_offsets q)(Lane_CreditSend := k + count)\<rparr>"
  have found: "find (holds_op ?q1 i) lane_ALL = Some Lane_CreditSend"
    using q by (simp add: lane_ALL_def holds_op_def)
  have "\<exists>q'. progress_credit_send ?q2 = Some (q', Ok ()) \<and> crediting p n (k + count) q'"
    using q count by (auto simp: progress_credit_send_def Let_def crediting_def)
  then obtain q' where prog: "progress_credit_send ?q2 = Some (q', Ok ())" and st: "crediting p n (k + count) q'"
    by blast
  have restored: "(p_active q)(Lane_CreditSend := None) = p_active q" using q by auto
  have "transition ?q1 (In_Completed i (Bytes count) []) = Some (q', Ok ())"
    using q count found prog restored
    by (cases q) (simp add: transition_completed_def Let_def progress_def)
  then have "input_step ?q1 (In_Completed i (Bytes count) []) = Some (q', Ok ())"
    using st by (simp add: input_step_settle settle_def crediting_def)
  then show ?thesis using acc st by (simp add: credit_chunk_def)
qed

lemma send_credit_ok:
  "crediting p n k q \<Longrightarrow> list_all (\<lambda>(_, count). 0 < count) cs \<Longrightarrow> k + sum_list (map snd cs) = CREDIT_BYTES
     \<Longrightarrow> \<exists>q'. send_credit q cs = Some q' \<and> crediting p n CREDIT_BYTES q'"
proof (induction cs arbitrary: k q)
  case (Cons c cs)
  obtain i count where c: "c = (i, count)" by (cases c)
  have "k < CREDIT_BYTES" "0 < count" "k + count \<le> CREDIT_BYTES" using Cons.prems c by auto
  from credit_chunk_ok [OF Cons.prems(1) this, of i]
  obtain q1 where q1: "credit_chunk q i count = Some q1" "crediting p n (k + count) q1" by blast
  show ?case using Cons.IH [OF q1(2)] Cons.prems q1(1) c by simp
qed simp

lemma admitted_crediting:
  assumes r: "received p e n whole whole q" and whole: "HEADER_BYTES \<le> whole" and idle: "p_active p = (\<lambda>_. None)"
    and "\<not> p_credited p" and imp: "p_direction p = Import"
  shows "\<exists>q1. input_step q In_Admitted = Some (q1, Ok ()) \<and> crediting p n 0 q1"
  using assms
  by (auto simp: received_def input_step_settle transition_admitted_def settle_def Let_def crediting_def
      CREDIT_BYTES_def split: option.splits)

lemma session_ok:
  assumes codec: "lossless_codec codec valid"
  shows "\<lbrakk>p_closed p = None; p_contract p = contract_of (wc_spec codec); p_direction p = Import;
      p_active p = (\<lambda>_. None); p_stage p = Header; p_offsets p Lane_Data = 0; \<not> p_credited p;
      list_all (trip_ok codec valid (p_capacity p)) fs;
      successively (follows (DELIVERY (wc_spec codec)))
        ((case p_previous p of None \<Rightarrow> [] | Some m \<Rightarrow> [m]) @ map tr_sequence fs)\<rbrakk>
    \<Longrightarrow> \<exists>q. session codec p fs =
          Some (q, map (\<lambda>f. (tr_sequence f, Ok (tr_payload f), 1 # to_le_bytes 8 (tr_sequence f))) fs)"
proof (induction fs arbitrary: p)
  case (Cons f fs)
  let ?len = "wc_encoded_len codec (tr_payload f)" and ?n = "tr_sequence f"
  have f: "trip_ok codec valid (p_capacity p) f" using Cons.prems(8) by simp
  have ready: "ready_for p (wc_spec codec) ?n"
    using Cons.prems(1-6,9) by (auto simp: ready_for_def contract_of_def split: option.splits)
  have idle: "outstanding p = []" using Cons.prems(4) by (simp add: outstanding_def lane_ALL_def)
  obtain buf q where enc: "encode_frame codec ?n (tr_payload f) (tr_buffer f) = (buf, Ok (HEADER_BYTES + ?len))"
    and q: "receive_all p (take (HEADER_BYTES + ?len) buf) 0 (tr_chunks f) = Some q"
    and eff: "effect_of q Lane_Data = Some (Effect_Admit ?len (SCHEMA_REVISION (wc_spec codec)))"
    and dec: "wc_decode codec (sub_slice HEADER_BYTES ?len buf) (SCHEMA_REVISION (wc_spec codec)) = Ok (tr_payload f)"
    and r: "received p (wc_spec codec) ?n (HEADER_BYTES + ?len) (HEADER_BYTES + ?len) q"
    using encoded_frame_received [OF codec _ _ _ _ _ ready idle Cons.prems(7), of "tr_payload f" "tr_buffer f" "tr_chunks f"] f
    by (auto simp: trip_ok_def Let_def)
  obtain q1 where q1: "input_step q In_Admitted = Some (q1, Ok ())" "crediting p ?n 0 q1"
    using admitted_crediting [OF r _ Cons.prems(4,7,3)] by auto
  obtain q2 where q2: "send_credit q1 (tr_credits f) = Some q2" "crediting p ?n CREDIT_BYTES q2"
    using send_credit_ok [OF q1(2), of "tr_credits f"] f by (auto simp: trip_ok_def Let_def)
  have credit: "credit_bytes q1 = 1 # to_le_bytes 8 ?n"
    using q1(2) by (simp add: credit_bytes_def crediting_def CREDIT_BYTES_def put_at_def numeral_eq_Suc)
  have seq: "p_sequence q = ?n" using r by (simp add: received_def)
  note c = q2(2) [unfolded crediting_def]
  have "successively (follows (DELIVERY (wc_spec codec))) (?n # map tr_sequence fs)"
    using Cons.prems(9) by (auto split: option.splits)
  then obtain q3 where "session codec q2 fs =
      Some (q3, map (\<lambda>f. (tr_sequence f, Ok (tr_payload f), 1 # to_le_bytes 8 (tr_sequence f))) fs)"
    using Cons.IH [of q2] Cons.prems(2,8) c by auto
  then show ?case using enc q eff q1(1) q2(1) seq credit dec by simp
qed simp

subsection \<open>An exporter stops and waits\<close>

text \<open>A ghost account of the exchange, kept from the calls and their results alone: the frame last
  provided, the bytes of it the socket took, and whether a full credit for it arrived.\<close>

record exchange =
  x_frame :: "(u64 \<times> nat) option"
  x_sent :: nat
  x_credit :: nat
  x_acked :: bool

definition exchange_none :: exchange where
  "exchange_none = \<lparr>x_frame = None, x_sent = 0, x_credit = 0, x_acked = False\<rparr>"

definition is_credit_for :: "(u64 \<times> nat) option \<Rightarrow> bytes \<Rightarrow> bool" where
  "is_credit_for f buffer =
     (case f of None \<Rightarrow> False
      | Some (n, _) \<Rightarrow> take CREDIT_BYTES buffer = 1 # to_le_bytes 8 n)"

fun exchange_step :: "exchange \<Rightarrow> protocol \<Rightarrow> host_call \<Rightarrow> exchange" where
  "exchange_step x p (Call (In_Provided n len)) =
     x\<lparr>x_frame := Some (n, len), x_sent := 0, x_acked := False\<rparr>"
| "exchange_step x p (Call (In_Completed i (Bytes k) buffer)) =
     (if holds_op p i Lane_Data then x\<lparr>x_sent := x_sent x + k\<rparr>
      else if holds_op p i Lane_CreditReceive
      then (if x_credit x + k = CREDIT_BYTES
            then x\<lparr>x_credit := 0, x_acked := is_credit_for (x_frame x) buffer\<rparr>
            else x\<lparr>x_credit := x_credit x + k\<rparr>)
      else x)"
| "exchange_step x p _ = x"

definition exchange_done :: "exchange \<Rightarrow> bool" where
  "exchange_done x \<longleftrightarrow> (case x_frame x of None \<Rightarrow> True | Some (_, len) \<Rightarrow> x_sent x = len \<and> x_acked x)"

text \<open>A run in which every frame is provided only when the previous one is done.\<close>

fun stops_and_waits :: "protocol \<Rightarrow> exchange \<Rightarrow> host_call list \<Rightarrow> bool" where
  "stops_and_waits p x [] = True"
| "stops_and_waits p x (c # cs) =
     (case host_step p c of
        None \<Rightarrow> False
      | Some (q, r) \<Rightarrow>
          (case c of Call (In_Provided _ _) \<Rightarrow> r \<noteq> Ok () \<or> exchange_done x | _ \<Rightarrow> True)
          \<and> stops_and_waits q (if r = Ok () then exchange_step x p c else x) cs)"

definition exchange_ok :: "protocol \<Rightarrow> exchange \<Rightarrow> bool" where
  "exchange_ok p x \<longleftrightarrow>
     x_credit x = p_offsets p Lane_CreditReceive
     \<and> (p_stage p = Source \<longrightarrow> exchange_done x)
     \<and> (p_stage p = Sending \<longrightarrow> x_frame x = Some (p_sequence p, p_length p)
          \<and> x_sent x = p_offsets p Lane_Data \<and> x_acked x = p_credited p)
     \<and> (p_stage p = Credit \<longrightarrow> x_frame x = Some (p_sequence p, p_length p)
          \<and> x_sent x = p_length p \<and> \<not> x_acked x)"

lemma completed_Ok_cases:
  assumes t: "transition_completed p i res buffer = Some (q, Ok ())" and "p_closed p = None"
  obtains (unmatched) "\<forall>l. \<not> holds_op p i l" "q = p"
    | (retry) l where "holds_op p i l" "res = Retry" "q = p\<lparr>p_active := (p_active p)(l := None)\<rparr>"
    | (bytes) l k n eff where "p_active p l = Some (i, eff)" "requested eff = Some n"
        "res = Bytes k" "0 < k" "k \<le> n"
        "progress (p\<lparr>p_active := (p_active p)(l := None),
            p_offsets := (p_offsets p)(l := p_offsets p l + k)\<rparr>) l buffer = Some (q, Ok ())"
proof (cases "find (holds_op p i) lane_ALL")
  case None
  then have "q = p" using t by (simp add: transition_completed_def)
  with None show thesis using unmatched by (simp add: find_lane_None)
next
  case (Some l)
  have h: "holds_op p i l" by (rule find_lane [OF Some])
  then obtain eff where act: "p_active p l = Some (i, eff)"
    by (auto simp: holds_op_def split: option.splits)
  show thesis
  proof (cases res)
    case (Bytes k)
    then show thesis
      using t Some assms(2) act bytes [of l eff _ k]
      by (auto simp: transition_completed_def Let_def split: if_splits option.splits)
  qed (use t Some assms(2) h retry in \<open>auto simp: transition_completed_def Let_def\<close>)
qed

lemma take_CREDIT_BYTES:
  assumes "CREDIT_BYTES \<le> length buffer" and "buffer ! 0 = 1" and "sub_slice 1 8 buffer = bs"
  shows "take CREDIT_BYTES buffer = 1 # bs"
proof (cases buffer)
  case (Cons b rest)
  then show ?thesis using assms by (simp add: CREDIT_BYTES_def sub_slice_def)
qed (use assms in \<open>simp add: CREDIT_BYTES_def\<close>)

lemma exchange_completed:
  assumes inv: "prot_inv p" and op: "p_closed p = None" and exp: "p_direction p = Export"
    and x: "exchange_ok p x" and t: "transition_completed p i res buffer = Some (q, Ok ())"
  shows "exchange_ok q (exchange_step x p (Call (In_Completed i res buffer)))"
  using t op
proof (cases rule: completed_Ok_cases)
  case unmatched
  then show ?thesis using x by (cases res) simp_all
next
  case (retry l)
  then show ?thesis using x by (simp add: exchange_ok_def)
next
  case (bytes l k n eff)
  have ok: "open_ok p" and ops: "ops_ok p" using inv op by (auto simp: prot_inv_def base_ok_def)
  have eff: "idle_effect p l = Some eff" using ok bytes(1) by (auto simp: open_ok_def lane_ok_def)
  have held: "holds_op p i l' \<longleftrightarrow> l' = l" for l'
    using ops bytes(1) by (auto simp: holds_op_def ops_ok_def split: option.splits)
  show ?thesis
  proof (cases l)
    case Lane_Data
    then have st: "p_stage p = Sending" and n: "n = p_length p - p_offsets p Lane_Data"
      using ok exp eff bytes(2) by (auto simp: open_ok_iff idle_effect_data)
    have "q = (if p_offsets p Lane_Data + k = p_length p
        then (if p_credited p
          then tell (acc_completed (p_sequence p)) (p\<lparr>p_active := (p_active p)(Lane_Data := None),
            p_offsets := (p_offsets p)(Lane_Data := p_offsets p Lane_Data + k), p_stage := Source\<rparr>)
          else p\<lparr>p_active := (p_active p)(Lane_Data := None),
            p_offsets := (p_offsets p)(Lane_Data := p_offsets p Lane_Data + k), p_stage := Credit\<rparr>)
        else p\<lparr>p_active := (p_active p)(Lane_Data := None),
            p_offsets := (p_offsets p)(Lane_Data := p_offsets p Lane_Data + k)\<rparr>)"
      using bytes(6) Lane_Data st by (simp add: progress_def progress_data_def Let_def split: if_splits)
    moreover have "holds_op p i Lane_Data" using held Lane_Data by simp
    ultimately show ?thesis
      using bytes(3) x st by (simp add: exchange_ok_def exchange_done_def)
  next
    case Lane_CreditSend
    then have False using no_credit_op [of p] ok exp bytes(1) by (simp add: open_ok_iff)
    then show ?thesis ..
  next
    case Lane_CreditReceive
    then have pr: "progress_credit_receive (p\<lparr>p_active := (p_active p)(l := None),
        p_offsets := (p_offsets p)(l := p_offsets p l + k)\<rparr>) buffer = (q, Ok ())"
      using bytes by (simp add: progress_def)
    show ?thesis
    proof (cases "p_offsets p Lane_CreditReceive + k = CREDIT_BYTES")
      case True
      then have "CREDIT_BYTES \<le> length buffer" "buffer ! 0 = 1"
        "sub_slice 1 8 buffer = to_le_bytes 8 (p_sequence p)" "p_stage p \<in> {Sending, Credit}"
        using pr exp Lane_CreditReceive by (auto simp: progress_credit_receive_def split: if_splits)
      then have cr: "take CREDIT_BYTES buffer = 1 # to_le_bytes 8 (p_sequence p)"
        and st: "p_stage p = Sending \<or> p_stage p = Credit"
        using take_CREDIT_BYTES by auto
      have q: "p_offsets q = (p_offsets p)(Lane_CreditReceive := 0)" "p_credited q"
        "p_stage q = (if p_stage p = Credit then Source else p_stage p)"
        "p_sequence q = p_sequence p" "p_length q = p_length p"
        using True pr exp Lane_CreditReceive by (auto simp: progress_credit_receive_def Let_def split: if_splits)
      have "holds_op p i Lane_CreditReceive" "\<not> holds_op p i Lane_Data"
        using held Lane_CreditReceive by simp_all
      then have step: "exchange_step x p (Call (In_Completed i res buffer)) =
          x\<lparr>x_credit := 0, x_acked := is_credit_for (x_frame x) buffer\<rparr>"
        using x True bytes(3) by (simp add: exchange_ok_def)
      show ?thesis
        using st x unfolding step
        by (auto simp: exchange_ok_def exchange_done_def is_credit_for_def q cr)
    next
      case False
      then have q: "q = p\<lparr>p_active := (p_active p)(l := None),
          p_offsets := (p_offsets p)(l := p_offsets p l + k)\<rparr>"
        using pr exp Lane_CreditReceive by (simp add: progress_credit_receive_def)
      have "holds_op p i Lane_CreditReceive" "\<not> holds_op p i Lane_Data"
        using held Lane_CreditReceive by simp_all
      then have step: "exchange_step x p (Call (In_Completed i res buffer)) = x\<lparr>x_credit := x_credit x + k\<rparr>"
        using x False bytes(3) by (simp add: exchange_ok_def)
      show ?thesis
        using x Lane_CreditReceive unfolding step
        by (auto simp: exchange_ok_def q exchange_done_def split: option.splits)
    qed
  qed
qed

lemma exchange_transition:
  assumes inv: "prot_inv p" and op: "p_closed p = None" "p_closed q = None" and exp: "p_direction p = Export"
    and x: "exchange_ok p x" and t: "transition p i = Some (q, Ok ())"
  shows "exchange_ok q (exchange_step x p (Call i))"
proof (cases i)
  case (In_Completed j res buffer)
  then show ?thesis using exchange_completed [OF inv op(1) exp x] t by simp
next
  case (In_Accepted l j)
  then show ?thesis
    using t x by (auto simp: transition_accepted_def exchange_ok_def split: option.splits if_splits)
next
  case (In_Provided n len)
  then have "p_stage q = Sending" "p_sequence q = n" "p_length q = len"
    "p_offsets q = (p_offsets p)(Lane_Data := 0)" "\<not> p_credited q"
    using t op by (auto simp: transition_provided_def Let_def observe_sequence_def split: if_splits)
  then show ?thesis using x In_Provided by (simp add: exchange_ok_def)
next
  case In_Admitted
  have "p_stage p \<noteq> Admission"
    using inv op exp by (auto simp: prot_inv_def open_ok_iff)
  then show ?thesis using In_Admitted t op by (simp add: transition_admitted_def)
next
  case In_Revoked
  then show ?thesis using t op by (auto simp: close_with_def)
next
  case (In_Closed e)
  then show ?thesis using t op by (auto simp: close_with_def)
qed

text \<open>A frame is provided only in stage \<open>Source\<close> of an open protocol.\<close>

lemma provided_done:
  assumes "host_step p (Call (In_Provided n len)) = Some (q, Ok ())"
    and "p_closed p = None \<longrightarrow> exchange_ok p x"
  shows "exchange_done x"
  using assms
  by (auto simp: input_step_settle transition_provided_def Let_def exchange_ok_def
      split: option.splits if_splits)

lemma exchange_cong:
  "p_stage q = p_stage p \<Longrightarrow> p_sequence q = p_sequence p \<Longrightarrow> p_length q = p_length p \<Longrightarrow>
   p_offsets q = p_offsets p \<Longrightarrow> p_credited q = p_credited p \<Longrightarrow> exchange_ok q x = exchange_ok p x"
  by (simp add: exchange_ok_def)

lemma exchange_host_step:
  assumes inv: "prot_inv p" and exp: "p_direction p = Export"
    and x: "p_closed p = None \<longrightarrow> exchange_ok p x" and s: "host_step p c = Some (q, r)"
  shows "p_closed q = None \<longrightarrow> exchange_ok q (if r = Ok () then exchange_step x p c else x)"
proof (cases c)
  case (Call i)
  obtain q0 where t: "transition p i = Some (q0, r)" and q: "q = settle i q0 r"
    using s Call by (auto simp: input_step_settle)
  show ?thesis
  proof
    assume open_q: "p_closed q = None"
    then have r: "r = Ok ()" and op0: "p_closed q0 = None" by (simp_all add: q settle_closed)
    have "p_closed p = None"
      using input_step_keeps(4) [OF inv, of i q r] s Call open_q by (cases "p_closed p") auto
    then have "exchange_ok q0 (exchange_step x p c)"
      using exchange_transition [OF inv _ op0 exp] x t r Call by simp
    then show "exchange_ok q (if r = Ok () then exchange_step x p c else x)"
      using r by (simp add: q exchange_ok_def)
  qed
next
  case (Observe_Source n)
  then show ?thesis
    using s x exchange_cong [of "observe_sequence n p" p x] by (auto simp: observe_sequence_def)
next
  case Pop_Record
  then show ?thesis using s x exchange_cong [of "fst (pop_record p)" p x] by (auto simp: pop_record_tell)
qed

lemma stops_and_waits_run:
  "prot_inv p \<Longrightarrow> p_direction p = Export \<Longrightarrow> p_closed p = None \<longrightarrow> exchange_ok p x \<Longrightarrow>
     stops_and_waits p x cs"
proof (induction cs arbitrary: p x)
  case (Cons c cs)
  obtain q r where s: "host_step p c = Some (q, r)" and inv: "prot_inv q"
    using prot_inv_host_step [OF Cons.prems(1)] by blast
  have "p_direction q = Export" using host_step_keeps(2) [OF Cons.prems(1) s] Cons.prems(2) by simp
  from Cons.IH [OF inv this exchange_host_step [OF Cons.prems s]]
  have rest: "stops_and_waits q (if r = Ok () then exchange_step x p c else x) cs" .
  have "case c of Call (In_Provided _ _) \<Rightarrow> r \<noteq> Ok () \<or> exchange_done x | _ \<Rightarrow> True"
    using provided_done [OF _ Cons.prems(3)] s by (auto split: host_call.split input.split)
  with rest s show ?case by simp
qed simp

lemma stops_and_waits_started:
  assumes "started c Export capacity cn = Ok p"
  shows "stops_and_waits p exchange_none cs"
proof (rule stops_and_waits_run [OF prot_inv_started [OF assms]])
  note k = started_keeps [OF assms]
  show "p_direction p = Export" by (simp add: k)
  show "p_closed p = None \<longrightarrow> exchange_ok p exchange_none"
    by (simp add: k exchange_ok_def exchange_none_def exchange_done_def)
qed

subsection \<open>Properties\<close>

text \<open>C10: An importer admits sequences in the order its contract prescribes: in any run the
  sequences of successive admissions follow each other, by exactly one for ordered events (so none
  is skipped, repeated or reordered) and strictly upwards for latest-value events.\<close>

theorem admissions_in_order:
  assumes "started c d capacity cn = Ok p"
  shows "successively (follows (c_delivery c)) (admissions p cs)"
  by (rule admissions_started [OF assms])

theorem admissions_in_order_witness:
  "successively (follows Ordered) (admissions sample_importer
     [Call (In_Accepted Lane_Data sample_op),
      Call (In_Completed sample_op (Bytes 38) (frame_header (default_spec (EventId 5)) 8 0)),
      Call In_Admitted])"
  using admissions_in_order [OF sample_importer_started]
  by (simp only: sample_contract_def contract.simps)

text \<open>C8: From codec to decision, for a whole session. The frames of a lossless codec, their
  sequences successive for the event's delivery and their lengths within the importer's buffer, are
  received by a newly started importer of the same event one after the other. However the sockets
  cut the frames and the credits into chunks, and whatever stale bytes lie behind the received ones,
  the importer asks to admit each payload under its own sequence, decoding gives each payload back,
  and each credit names the sequence it answers.\<close>

theorem session_delivered:
  assumes "lossless_codec codec valid"
    and "started (contract_of (wc_spec codec)) Import capacity cn = Ok p"
    and "list_all (trip_ok codec valid capacity) fs"
    and "successively (follows (DELIVERY (wc_spec codec))) (map tr_sequence fs)"
  shows "\<exists>q. session codec p fs =
    Some (q, map (\<lambda>f. (tr_sequence f, Ok (tr_payload f), 1 # to_le_bytes 8 (tr_sequence f))) fs)"
  using session_ok [OF assms(1), of p fs] started_keeps [OF assms(2)] assms(3,4) by simp

definition example_trips :: "u64 trip list" where
  "example_trips =
     [\<lparr>tr_payload = 77, tr_sequence = 8, tr_buffer = replicate 64 0,
       tr_chunks = [(sample_op, 20, [1, 2]), (sample_op, 20, []), (sample_op, 6, [3])],
       tr_credits = [(sample_op, 4), (sample_op, 5)]\<rparr>,
      \<lparr>tr_payload = 78, tr_sequence = 9, tr_buffer = replicate 46 1,
       tr_chunks = [(sample_op, 46, [])], tr_credits = [(sample_op, 9)]\<rparr>]"

theorem session_delivered_witness:
  "\<exists>q. session (noise_codec (EventId 5)) sample_importer example_trips =
     Some (q, [(8, Ok 77, 1 # to_le_bytes 8 (8 :: u64)), (9, Ok 78, 1 # to_le_bytes 8 (9 :: u64))])"
proof -
  let ?c = "noise_codec (EventId 5)"
  have spec: "wc_spec ?c = default_spec (EventId 5)" "wc_encoded_len ?c x = 8" for x
    by (simp_all add: noise_codec_def)
  have contract: "contract_of (default_spec (EventId 5)) = sample_contract"
    by (simp add: contract_of_def default_spec_def sample_contract_def)
  have ok: "list_all (trip_ok ?c always 64) example_trips"
    by (simp add: example_trips_def trip_ok_def always_def spec width_defs HEADER_BYTES_def CREDIT_BYTES_def)
  have succ: "successively (follows (DELIVERY (wc_spec ?c))) (map tr_sequence example_trips)"
    by (simp add: example_trips_def spec default_spec_def checked_add_word_def)
  have "started (contract_of (wc_spec ?c)) Import 64 None = Ok sample_importer"
    using sample_importer_started by (simp add: spec contract)
  from session_delivered [OF noise.lossless_codec_axioms this ok succ]
  show ?thesis by (simp only: example_trips_def list.map trip.simps)
qed

text \<open>C2: An exporter stops and waits: in any run it lets the host provide a frame only when no
  frame was provided before, or the socket has taken every byte of the previous one and a complete
  credit carrying that frame's sequence has arrived.\<close>

theorem exporter_stops_and_waits:
  assumes "started c Export capacity cn = Ok p"
  shows "stops_and_waits p exchange_none cs"
  by (rule stops_and_waits_started [OF assms])

theorem exporter_stops_and_waits_witness:
  "\<exists>p. started sample_contract Export 64 None = Ok p
     \<and> stops_and_waits p exchange_none [Call (In_Provided 1 40), Call (In_Provided 2 40)]"
proof -
  obtain p where "started sample_contract Export 64 None = Ok p"
    by (simp add: started_def protocol_new_def HEADER_BYTES_def width_defs)
  then show ?thesis using exporter_stops_and_waits by blast
qed

end
