(* ===== verification/Hiway_Stream.thy ===== *)
theory Hiway_Stream
  imports Hiway_Event
begin

text \<open>
  The contract of a bounded retained stream, as \<open>hiway/src/local.rs\<close> documents it for every
  backend: publications get consecutive sequences, a subscription's items account for every
  sequence from its start (as data or inside a gap), observers may be told of gaps, required
  receivers never are. The interface \<open>event_stream\<close> states it for one call; the lemmas
  about whole runs are proved from it once, for every backend that provides it.
\<close>

subsection \<open>Vocabulary\<close>

datatype subscription_role = Observer | Required

datatype 't stream_item = Data (item_sequence: nat) (item_value: 't) | Gap (gap_from: nat) (gap_to: nat)

fun stream_item_map :: "('t \<Rightarrow> 'u) \<Rightarrow> 't stream_item \<Rightarrow> 'u stream_item" where
  "stream_item_map f (Data n v) = Data n (f v)"
| "stream_item_map f (Gap a b) = Gap a b"

text \<open>The sequences an item accounts for: \<open>[start, end)\<close>.\<close>

fun item_start :: "'t stream_item \<Rightarrow> nat" where
  "item_start (Data n _) = n"
| "item_start (Gap a _) = a"

fun item_end :: "'t stream_item \<Rightarrow> nat" where
  "item_end (Data n _) = n + 1"
| "item_end (Gap _ b) = b"

datatype ('t, 'k, 'i) stream_call =
    Publish 't
  | Take 'k
  | Subscribe subscription_role
  | Detach 'k
  | Close close_reason
  | Internal 'i

datatype ('t, 'k) stream_out =
    Sent "(unit, 't try_send_error) result"
  | Took "('t stream_item option, receive_error) result"
  | Joined "('k, topic_error) result"
  | Silent

text \<open>What each call of a run contributes, in order.\<close>

fun gather :: "('c \<Rightarrow> 'o \<Rightarrow> 'x list) \<Rightarrow> 'c list \<Rightarrow> 'o list \<Rightarrow> 'x list" where
  "gather f (c # cs) (out # outs) = f c out @ gather f cs outs"
| "gather f _ _ = []"

text \<open>The items a run gives to one subscription.\<close>

fun took_item :: "('t, 'k, 'i) stream_call \<Rightarrow> ('t, 'k) stream_out \<Rightarrow> 'k \<Rightarrow> 't stream_item list" where
  "took_item (Take k') (Took (Ok (Some it))) k = (if k' = k then [it] else [])"
| "took_item _ _ _ = []"

abbreviation items_of :: "'k \<Rightarrow> ('t, 'k, 'i) stream_call list \<Rightarrow> ('t, 'k) stream_out list \<Rightarrow> 't stream_item list" where
  "items_of k \<equiv> gather (\<lambda>c out. took_item c out k)"

text \<open>The values a run admits.\<close>

fun admitted_value :: "('t, 'k, 'i) stream_call \<Rightarrow> ('t, 'k) stream_out \<Rightarrow> 't list" where
  "admitted_value (Publish v) (Sent (Ok _)) = [v]"
| "admitted_value _ _ = []"

abbreviation admitted_values :: "('t, 'k, 'i) stream_call list \<Rightarrow> ('t, 'k) stream_out list \<Rightarrow> 't list" where
  "admitted_values \<equiv> gather admitted_value"

text \<open>\<open>iter().position(Option::is_none)\<close>, how every backend finds a free subscriber slot.\<close>

fun position_none :: "'x option list \<Rightarrow> nat option" where
  "position_none [] = None"
| "position_none (None # xs) = Some 0"
| "position_none (Some _ # xs) = map_option Suc (position_none xs)"

lemma position_none_Some:
  "position_none xs = Some i \<Longrightarrow> i < length xs \<and> xs ! i = None"
  by (induction xs arbitrary: i rule: position_none.induct) auto

lemma position_none_None: "position_none xs = None \<longleftrightarrow> None \<notin> set xs"
  by (induction xs rule: position_none.induct) auto

text \<open>Items that account for the sequences from \<open>n\<close> without hole or overlap, with the values of
  \<open>log\<close>.\<close>

fun tiles :: "'t list \<Rightarrow> nat \<Rightarrow> 't stream_item list \<Rightarrow> bool" where
  "tiles log n [] = (n \<le> length log)"
| "tiles log n (it # its) =
     (item_start it = n \<and> n < item_end it
      \<and> (case it of Data m v \<Rightarrow> m < length log \<and> v = log ! m | Gap _ _ \<Rightarrow> True)
      \<and> tiles log (item_end it) its)"

text \<open>Items in increasing order with the values of \<open>log\<close>, possibly with sequences left out.\<close>

fun climbs :: "'t list \<Rightarrow> nat \<Rightarrow> 't stream_item list \<Rightarrow> bool" where
  "climbs log n [] = True"
| "climbs log n (it # its) =
     (n \<le> item_start it \<and> item_start it < item_end it
      \<and> (case it of Data m v \<Rightarrow> m < length log \<and> v = log ! m | Gap _ _ \<Rightarrow> True)
      \<and> climbs log (item_end it) its)"

fun is_data :: "'t stream_item \<Rightarrow> bool" where
  "is_data (Data _ _) = True"
| "is_data (Gap _ _) = False"

lemma tiles_climbs: "tiles log n its \<Longrightarrow> climbs log n its"
  by (induction its arbitrary: n) auto

lemma tiles_data:
  "tiles log n its \<Longrightarrow> list_all is_data its \<Longrightarrow>
     map item_value its = take (length its) (drop n log) \<and> n + length its \<le> length log"
proof (induction its arbitrary: n)
  case (Cons it its)
  then obtain m v where it: "it = Data m v" by (cases it) auto
  with Cons.prems have n: "m = n" "n < length log" "v = log ! n" "tiles log (n + 1) its"
    and d: "list_all is_data its" by auto
  have "drop n log = log ! n # drop (n + 1) log" using n(2) by (simp add: Cons_nth_drop_Suc)
  then show ?case using Cons.IH [OF n(4) d] n it by simp
qed simp

lemma tiles_append_log: "tiles log n its \<Longrightarrow> tiles (log @ later) n its"
  by (induction its arbitrary: n) (auto simp: nth_append split: stream_item.splits)

lemma climbs_append_log: "climbs log n its \<Longrightarrow> climbs (log @ later) n its"
  by (induction its arbitrary: n) (auto simp: nth_append split: stream_item.splits)

lemma took_item_cases: "took_item c out k = [] \<or> (\<exists>it. took_item c out k = [it])"
  by (cases "(c, out, k)" rule: took_item.cases) auto

subsection \<open>The interface\<close>

text \<open>\<open>log_of\<close> is everything ever admitted, \<open>cursor_of\<close> the next sequence and role of a live
  subscription; both may be ghosts of the implementation. Its calls are the backend's own:
  \<open>admits\<close> and \<open>takes\<close> read off a call and its output what it admitted and what it gave to a
  subscription, \<open>detaches\<close> which subscription it ends.\<close>

locale event_stream =
  fixes delivery_of :: "'s \<Rightarrow> delivery"
    and log_of :: "'s \<Rightarrow> 't list"
    and cursor_of :: "'s \<Rightarrow> 'k \<Rightarrow> (nat \<times> subscription_role) option"
    and good :: "'s \<Rightarrow> bool"
    and step :: "'s \<Rightarrow> 'c \<Rightarrow> 's \<times> 'o"
    and admits :: "'c \<Rightarrow> 'o \<Rightarrow> 't list"
    and takes :: "'c \<Rightarrow> 'o \<Rightarrow> 'k \<Rightarrow> 't stream_item list"
    and detaches :: "'c \<Rightarrow> 'k \<Rightarrow> bool"
  assumes takes_single: "takes c out k = [] \<or> (\<exists>it. takes c out k = [it])"
    and good_step: "good s \<Longrightarrow> good (fst (step s c))"
    and delivery_step: "good s \<Longrightarrow> delivery_of (fst (step s c)) = delivery_of s"
    and log_step: "good s \<Longrightarrow>
        log_of (fst (step s c)) = log_of s @ admits c (snd (step s c))"
    and cursor_le: "good s \<Longrightarrow> cursor_of s k = Some (n, r) \<Longrightarrow> n \<le> length (log_of s)"
    and cursor_step: "good s \<Longrightarrow> cursor_of s k = Some (n, r) \<Longrightarrow> \<not> detaches c k \<Longrightarrow>
        takes c (snd (step s c)) k = [] \<Longrightarrow> cursor_of (fst (step s c)) k = Some (n, r)"
    and take_step: "good s \<Longrightarrow> cursor_of s k = Some (n, r) \<Longrightarrow>
        takes c (snd (step s c)) k = [it] \<Longrightarrow>
        cursor_of (fst (step s c)) k = Some (item_end it, r) \<and> n \<le> item_start it
        \<and> item_start it < item_end it \<and> item_end it \<le> length (log_of s)
        \<and> (delivery_of s = Ordered \<longrightarrow> item_start it = n)
        \<and> (case it of Data m v \<Rightarrow> v = log_of s ! m | Gap _ _ \<Rightarrow> r \<noteq> Required)"
begin

lemma run_log:
  "good s \<Longrightarrow> run_calls step s cs = (s', outs) \<Longrightarrow>
     good s' \<and> log_of s' = log_of s @ gather admits cs outs \<and> delivery_of s' = delivery_of s"
proof (induction cs arbitrary: s outs)
  case (Cons c cs)
  obtain s1 out where s: "step s c = (s1, out)" by (cases "step s c")
  obtain outs' where r: "run_calls step s1 cs = (s', outs')" and o: "outs = out # outs'"
    using Cons.prems(2) s by (auto split: prod.splits)
  have "good s1" using good_step [OF Cons.prems(1), of c] s by simp
  from Cons.IH [OF this r] show ?case
    using log_step [OF Cons.prems(1), of c] delivery_step [OF Cons.prems(1), of c] s o by simp
qed simp

text \<open>A subscription that is not detached during a run: what it received, and where it stands.\<close>

lemma run_items:
  "good s \<Longrightarrow> run_calls step s cs = (s', outs) \<Longrightarrow> cursor_of s k = Some (n, r) \<Longrightarrow>
     \<forall>c \<in> set cs. \<not> detaches c k \<Longrightarrow>
     climbs (log_of s') n (gather (\<lambda>c out. takes c out k) cs outs)
     \<and> (delivery_of s = Ordered \<longrightarrow> tiles (log_of s') n (gather (\<lambda>c out. takes c out k) cs outs))
     \<and> (r = Required \<longrightarrow> list_all is_data (gather (\<lambda>c out. takes c out k) cs outs))
     \<and> (\<exists>m. cursor_of s' k = Some (m, r))"
proof (induction cs arbitrary: s n outs)
  case Nil
  then show ?case using cursor_le by auto
next
  case (Cons c cs)
  obtain s1 out where s: "step s c = (s1, out)" by (cases "step s c")
  obtain outs' where run: "run_calls step s1 cs = (s', outs')" and o: "outs = out # outs'"
    using Cons.prems(2) s by (auto split: prod.splits)
  have good1: "good s1" using good_step [OF Cons.prems(1), of c] s by simp
  have del: "delivery_of s1 = delivery_of s" using delivery_step [OF Cons.prems(1), of c] s by simp
  have c: "\<not> detaches c k" and cs: "\<forall>c \<in> set cs. \<not> detaches c k" using Cons.prems(4) by auto
  note step_log = log_step [OF Cons.prems(1), of c, unfolded s fst_conv snd_conv]
  obtain later where log': "log_of s' = log_of s1 @ later" using run_log [OF good1 run] by auto
  show ?case
  proof (cases "takes c out k = []")
    case True
    then have "cursor_of s1 k = Some (n, r)"
      using cursor_step [OF Cons.prems(1,3) c] s by simp
    from Cons.IH [OF good1 run this cs] show ?thesis using True o del by simp
  next
    case False
    then obtain it where it: "takes c out k = [it]" using takes_single [of c out k] by blast
    note t = take_step [OF Cons.prems(1,3), of c it, unfolded s fst_conv snd_conv, OF it]
    have "item_end it \<le> length (log_of s')" using t step_log log' by simp
    moreover have "log_of s' ! m = log_of s ! m" if "m < length (log_of s)" for m
      using that step_log log' by (simp add: nth_append)
    ultimately show ?thesis
      using Cons.IH [OF good1 run _ cs, of "item_end it"] t it o del
      by (cases it) auto
  qed
qed

text \<open>A required receiver of an ordered stream gets the log itself, from its starting point.\<close>

lemma run_required:
  assumes "good s" and "run_calls step s cs = (s', outs)" and "cursor_of s k = Some (n, Required)"
    and "\<forall>c \<in> set cs. \<not> detaches c k" and "delivery_of s = Ordered"
  shows "map item_value (gather (\<lambda>c out. takes c out k) cs outs) =
    take (length (gather (\<lambda>c out. takes c out k) cs outs)) (drop n (log_of s @ gather admits cs outs))"
  using run_items [OF assms(1-4)] run_log [OF assms(1,2)] assms(5) tiles_data by fastforce

end

end
