(* ===== verification/Hiway_Static_Stream.thy ===== *)
theory Hiway_Static_Stream
  imports Hiway_Stream
begin

text \<open>
  The state of a static stream of \<open>hiway/src/local.rs\<close>: a fixed ring of retained values and a
  fixed table of cursors behind one lock. Arrays are lists, so \<open>CAP\<close> and \<open>SUBS\<close> are their
  lengths; sequences and generations are the code's \<open>u64\<close> counters with their checked
  increments. The ghost \<open>log\<close> collects what \<open>send_now\<close> admitted; the theory shows that the
  ring is a window of it and provides the contract \<open>event_stream\<close>.
\<close>

subsection \<open>State and operations\<close>

record subscriber_key =
  key_index :: nat
  key_generation :: nat

record cursor =
  cu_generation :: nat
  cu_next :: nat
  cu_role :: subscription_role

text \<open>\<open>Interest as u8\<close>.\<close>

definition Interest_Send :: u8 where "Interest_Send = 1"
definition Interest_Receive :: u8 where "Interest_Receive = 2"

record 't stream_state =
  ss_delivery :: delivery
  ss_values :: "'t option list"
  ss_tail :: nat
  ss_cursors :: "cursor option list"
  ss_next_generation :: nat
  ss_closed :: "close_reason option"
  ss_changed :: u8

abbreviation ss_cap :: "'t stream_state \<Rightarrow> nat" where
  "ss_cap s \<equiv> length (ss_values s)"

definition state_new :: "delivery \<Rightarrow> nat \<Rightarrow> nat \<Rightarrow> 't stream_state" where
  "state_new d cap subs = \<lparr>ss_delivery = d, ss_values = replicate cap None, ss_tail = 0,
     ss_cursors = replicate subs None, ss_next_generation = 0, ss_closed = None, ss_changed = 0\<rparr>"

text \<open>The constructors of a stream; \<open>None\<close> is a failed assertion.\<close>

definition static_new :: "delivery \<Rightarrow> nat \<Rightarrow> nat \<Rightarrow> 't stream_state option" where
  "static_new d cap subs =
     (if \<not> 0 < cap then None
      else if \<not> (d \<noteq> Latest \<or> cap = 1) then None
      else Some (state_new d cap subs))"

definition stream_subscribe ::
    "'t stream_state \<Rightarrow> subscription_role \<Rightarrow> 't stream_state \<times> (subscriber_key, topic_error) result" where
  "stream_subscribe s role =
     (case ss_closed s of
        Some reason \<Rightarrow>
          (s, Err (if reason = CloseReason_Revoked then TopicError_Revoked else TopicError_Denied))
      | None \<Rightarrow>
          if ss_delivery s = Latest \<and> role = Required then (s, Err TopicError_InvalidConfig)
          else
           (case position_none (ss_cursors s) of
              None \<Rightarrow> (s, Err TopicError_Capacity)
            | Some index \<Rightarrow>
               (let generation = ss_next_generation s in
                case checked_add u64_max generation 1 of
                  None \<Rightarrow> (s, Err TopicError_Capacity)
                | Some g \<Rightarrow>
                   (s\<lparr>ss_next_generation := g,
                      ss_cursors := (ss_cursors s)[index := Some
                        \<lparr>cu_generation = generation,
                         cu_next = (if ss_delivery s = Latest then ss_tail s - 1 else ss_tail s),
                         cu_role = role\<rparr>]\<rparr>,
                    Ok \<lparr>key_index = index, key_generation = generation\<rparr>))))"

text \<open>Whether a required cursor still needs the sequence that would be overwritten.\<close>

definition required_at :: "nat \<Rightarrow> cursor option \<Rightarrow> bool" where
  "required_at overwritten c =
     (case c of None \<Rightarrow> False
      | Some c \<Rightarrow> cu_role c = Required \<and> cu_next c \<le> overwritten)"

definition stream_send_now ::
    "'t stream_state \<Rightarrow> 't \<Rightarrow> 't stream_state \<times> (unit, 't try_send_error) result" where
  "stream_send_now s v =
     (case ss_closed s of
        Some reason \<Rightarrow>
          (s, Err (if reason = CloseReason_Revoked then TrySend_Revoked v else TrySend_Closed v))
      | None \<Rightarrow>
         (case checked_add u64_max (ss_tail s) 1 of
            None \<Rightarrow> (s, Err (TrySend_SequenceExhausted v))
          | Some nxt \<Rightarrow>
              if ss_tail s \<ge> ss_cap s
                 \<and> list_ex (required_at (ss_tail s - ss_cap s)) (ss_cursors s)
              then (s, Err (TrySend_Full v))
              else (s\<lparr>ss_values := (ss_values s)[ss_tail s mod ss_cap s := Some v],
                      ss_tail := nxt,
                      ss_changed := ss_changed s OR Interest_Receive\<rparr>, Ok ())))"

text \<open>The cursor a key still owns.\<close>

definition key_cursor :: "'t stream_state \<Rightarrow> subscriber_key \<Rightarrow> cursor option" where
  "key_cursor s k =
     (if key_index k < length (ss_cursors s)
      then (case ss_cursors s ! key_index k of
              None \<Rightarrow> None
            | Some c \<Rightarrow> if cu_generation c = key_generation k then Some c else None)
      else None)"

definition set_cursor :: "nat \<Rightarrow> cursor \<Rightarrow> 't stream_state \<Rightarrow> 't stream_state" where
  "set_cursor i c s = s\<lparr>ss_cursors := (ss_cursors s)[i := Some c]\<rparr>"

definition touch :: "u8 \<Rightarrow> 't stream_state \<Rightarrow> 't stream_state" where
  "touch interest s = s\<lparr>ss_changed := ss_changed s OR interest\<rparr>"

text \<open>The cursor is updated in place, so the jump of a latest-state cursor persists. \<open>None\<close> is
  the panic of \<open>expect("retained sequence has a value")\<close>.\<close>

definition stream_recv_now ::
    "'t stream_state \<Rightarrow> subscriber_key
      \<Rightarrow> ('t stream_state \<times> ('t stream_item option, receive_error) result) option" where
  "stream_recv_now s k =
     (case ss_closed s of
        Some reason \<Rightarrow> Some (s, Err (ReceiveError_Closed reason))
      | None \<Rightarrow>
         (case key_cursor s k of
            None \<Rightarrow> Some (s, Err (ReceiveError_Closed CloseReason_Closed))
          | Some c \<Rightarrow>
             (let c = (if ss_delivery s = Latest
                       then c\<lparr>cu_next := max (cu_next c) (ss_tail s - 1)\<rparr> else c);
                  s = set_cursor (key_index k) c s;
                  oldest = ss_tail s - ss_cap s
              in if cu_next c < oldest
                 then Some (touch Interest_Send (set_cursor (key_index k) (c\<lparr>cu_next := oldest\<rparr>) s),
                            Ok (Some (Gap (cu_next c) oldest)))
                 else if cu_next c = ss_tail s then Some (s, Ok None)
                 else (let n = cu_next c in
                       case ss_values s ! (n mod ss_cap s) of
                         None \<Rightarrow> None
                       | Some v \<Rightarrow>
                           Some (touch Interest_Send (set_cursor (key_index k) (c\<lparr>cu_next := n + 1\<rparr>) s),
                                 Ok (Some (Data n v)))))))"

text \<open>The access of \<open>StaticReceiver::drop\<close> and of \<open>StaticStream::close\<close>.\<close>

definition stream_detach :: "'t stream_state \<Rightarrow> subscriber_key \<Rightarrow> 't stream_state" where
  "stream_detach s k =
     (if key_cursor s k \<noteq> None
      then touch Interest_Send (s\<lparr>ss_cursors := (ss_cursors s)[key_index k := None]\<rparr>)
      else s)"

definition stream_close :: "'t stream_state \<Rightarrow> close_reason \<Rightarrow> 't stream_state" where
  "stream_close s reason =
     s\<lparr>ss_closed := (case ss_closed s of None \<Rightarrow> Some reason | Some r \<Rightarrow> Some r),
       ss_values := replicate (ss_cap s) None, ss_changed := 0xFF\<rparr>"

subsection \<open>The invariant\<close>

definition cursor_ok :: "'t stream_state \<Rightarrow> cursor \<Rightarrow> bool" where
  "cursor_ok s c \<longleftrightarrow>
     cu_next c \<le> ss_tail s \<and> cu_generation c < ss_next_generation s
     \<and> (cu_role c = Required \<longrightarrow> ss_delivery s = Ordered \<and> ss_tail s \<le> cu_next c + ss_cap s)"

definition stream_inv :: "'t stream_state \<Rightarrow> bool" where
  "stream_inv s \<longleftrightarrow>
     0 < ss_cap s \<and> (ss_delivery s = Latest \<longrightarrow> ss_cap s = 1) \<and> ss_tail s \<le> u64_max
     \<and> list_all (\<lambda>c. case c of None \<Rightarrow> True | Some c \<Rightarrow> cursor_ok s c) (ss_cursors s)"

text \<open>While the stream is open, the ring holds the last \<open>CAP\<close> values of the log.\<close>

definition retained :: "'t stream_state \<Rightarrow> 't list \<Rightarrow> bool" where
  "retained s xs \<longleftrightarrow>
     length xs = ss_tail s
     \<and> (ss_closed s = None \<longrightarrow>
         (\<forall>n < ss_tail s. ss_tail s \<le> n + ss_cap s \<longrightarrow> ss_values s ! (n mod ss_cap s) = Some (xs ! n)))"

subsection \<open>Every operation keeps it\<close>

lemma stream_invI:
  assumes "stream_inv s" and "ss_cap t = ss_cap s" and "ss_delivery t = ss_delivery s"
    and "ss_tail t = ss_tail s" and "ss_next_generation s \<le> ss_next_generation t"
    and "\<And>c. Some c \<in> set (ss_cursors t) \<Longrightarrow> Some c \<in> set (ss_cursors s) \<or> cursor_ok t c"
  shows "stream_inv t"
  using assms by (fastforce simp: stream_inv_def list_all_iff cursor_ok_def split: option.splits)

lemma cursor_okD: "stream_inv s \<Longrightarrow> Some c \<in> set (ss_cursors s) \<Longrightarrow> cursor_ok s c"
  by (fastforce simp: stream_inv_def list_all_iff split: option.splits)

lemma key_cursor_mem: "key_cursor s k = Some c \<Longrightarrow> Some c \<in> set (ss_cursors s)"
  by (auto simp: key_cursor_def in_set_conv_nth split: if_splits option.splits)

lemma key_cursor_nth:
  "key_cursor s k = Some c \<longleftrightarrow>
     key_index k < length (ss_cursors s) \<and> ss_cursors s ! key_index k = Some c
     \<and> cu_generation c = key_generation k"
  by (auto simp: key_cursor_def split: option.splits)

lemma set_cursor_simps [simp]:
  "ss_delivery (set_cursor i c s) = ss_delivery s" "ss_values (set_cursor i c s) = ss_values s"
  "ss_tail (set_cursor i c s) = ss_tail s" "ss_closed (set_cursor i c s) = ss_closed s"
  "ss_next_generation (set_cursor i c s) = ss_next_generation s"
  "ss_cursors (set_cursor i c s) = (ss_cursors s)[i := Some c]"
  by (simp_all add: set_cursor_def)

lemma touch_simps [simp]:
  "ss_delivery (touch m s) = ss_delivery s" "ss_values (touch m s) = ss_values s"
  "ss_tail (touch m s) = ss_tail s" "ss_closed (touch m s) = ss_closed s"
  "ss_next_generation (touch m s) = ss_next_generation s" "ss_cursors (touch m s) = ss_cursors s"
  by (simp_all add: touch_def)

lemma key_cursor_touch [simp]: "key_cursor (touch m s) k = key_cursor s k"
  by (simp add: key_cursor_def)

lemma cursor_ok_touch [simp]: "cursor_ok (touch m s) c = cursor_ok s c"
  "cursor_ok (set_cursor i d s) c = cursor_ok s c"
  by (simp_all add: cursor_ok_def)

lemma retained_cong:
  assumes "ss_values t = ss_values s" and "ss_tail t = ss_tail s" and "ss_closed t = ss_closed s"
  shows "retained t xs = retained s xs"
  using assms by (simp add: retained_def)

text \<open>Moving the cursor of a live key forward, within the bounds of its role.\<close>

lemma key_cursor_set:
  assumes "key_cursor s k = Some c" and "cu_generation d = cu_generation c"
  shows "key_cursor (set_cursor (key_index k) d s) k = Some d"
    and "k' \<noteq> k \<Longrightarrow> key_cursor s k' = Some e \<Longrightarrow> key_cursor (set_cursor (key_index k) d s) k' = Some e"
proof -
  show "key_cursor (set_cursor (key_index k) d s) k = Some d"
    using assms by (auto simp: key_cursor_nth)
  assume "k' \<noteq> k" and "key_cursor s k' = Some e"
  then have "key_index k' \<noteq> key_index k"
    using assms(1) by (auto simp: key_cursor_nth intro: subscriber_key.equality)
  then show "key_cursor (set_cursor (key_index k) d s) k' = Some e"
    using \<open>key_cursor s k' = Some e\<close> by (simp add: key_cursor_nth)
qed

lemma stream_inv_set:
  assumes "stream_inv s" and "cursor_ok s d"
  shows "stream_inv (set_cursor i d s)"
  by (rule stream_invI [OF assms(1)]) (use assms(2) set_update_subset_insert [of "ss_cursors s" i "Some d"] in auto)

text \<open>What receiving does, as one rule per outcome.\<close>

definition moved :: "'t stream_state \<Rightarrow> cursor \<Rightarrow> nat" where
  "moved s c = (if ss_delivery s = Latest then max (cu_next c) (ss_tail s - 1) else cu_next c)"

lemma moved_le: "cursor_ok s c \<Longrightarrow> cu_next c \<le> moved s c \<and> moved s c \<le> ss_tail s"
  by (auto simp: moved_def cursor_ok_def)

lemma stream_recv_cases:
  assumes inv: "stream_inv s" and ret: "retained s xs"
  obtains (closed) reason where "ss_closed s = Some reason"
      "stream_recv_now s k = Some (s, Err (ReceiveError_Closed reason))"
    | (stale) "ss_closed s = None" "key_cursor s k = None"
      "stream_recv_now s k = Some (s, Err (ReceiveError_Closed CloseReason_Closed))"
    | (gap) c where "ss_closed s = None" "key_cursor s k = Some c" "moved s c + ss_cap s < ss_tail s"
      "ss_delivery s = Ordered" "cu_role c \<noteq> Required"
      "stream_recv_now s k = Some (touch Interest_Send
          (set_cursor (key_index k) (c\<lparr>cu_next := ss_tail s - ss_cap s\<rparr>) s),
         Ok (Some (Gap (moved s c) (ss_tail s - ss_cap s))))"
    | (none) c where "ss_closed s = None" "key_cursor s k = Some c" "cu_next c = ss_tail s"
      "stream_recv_now s k = Some (s, Ok None)"
    | (data) c where "ss_closed s = None" "key_cursor s k = Some c" "moved s c < ss_tail s"
      "ss_tail s \<le> moved s c + ss_cap s"
      "stream_recv_now s k = Some (touch Interest_Send
          (set_cursor (key_index k) (c\<lparr>cu_next := moved s c + 1\<rparr>) s),
         Ok (Some (Data (moved s c) (xs ! moved s c))))"
proof (cases "ss_closed s")
  case (Some reason)
  then show thesis using closed by (simp add: stream_recv_now_def)
next
  case None
  note open_s = this
  show thesis
  proof (cases "key_cursor s k")
    case None
    then show thesis using stale open_s by (simp add: stream_recv_now_def)
  next
    case (Some c)
    have ok: "cursor_ok s c" by (rule cursor_okD [OF inv key_cursor_mem [OF Some]])
    let ?m = "moved s c"
    let ?i = "key_index k"
    have bounds: "cu_next c \<le> ?m" "?m \<le> ss_tail s" using moved_le [OF ok] by auto
    have twice: "set_cursor i d (set_cursor i e s) = set_cursor i d s" for i d e
      by (simp add: set_cursor_def)
    have c1: "(if ss_delivery s = Latest then c\<lparr>cu_next := max (cu_next c) (ss_tail s - 1)\<rparr> else c)
        = c\<lparr>cu_next := ?m\<rparr>"
      by (simp add: moved_def)
    have same: "set_cursor ?i (c\<lparr>cu_next := cu_next c\<rparr>) s = s"
      using Some by (cases s) (simp add: set_cursor_def key_cursor_nth list_update_same_conv)
    have exec: "stream_recv_now s k =
       (if ?m < ss_tail s - ss_cap s
        then Some (touch Interest_Send (set_cursor ?i (c\<lparr>cu_next := ss_tail s - ss_cap s\<rparr>) s),
               Ok (Some (Gap ?m (ss_tail s - ss_cap s))))
        else if ?m = ss_tail s then Some (set_cursor ?i (c\<lparr>cu_next := ?m\<rparr>) s, Ok None)
        else (case ss_values s ! (?m mod ss_cap s) of
                None \<Rightarrow> None
              | Some v \<Rightarrow> Some (touch Interest_Send (set_cursor ?i (c\<lparr>cu_next := ?m + 1\<rparr>) s),
                  Ok (Some (Data ?m v)))))"
      using open_s Some unfolding stream_recv_now_def
      by (simp only: option.case c1 Let_def) (simp add: twice split: option.split)
    consider "?m + ss_cap s < ss_tail s" | "?m = ss_tail s" | "?m < ss_tail s" "ss_tail s \<le> ?m + ss_cap s"
      using bounds by linarith
    then show thesis
    proof cases
      case 1
      have "ss_delivery s = Ordered"
        using 1 inv by (cases "ss_delivery s") (auto simp: moved_def stream_inv_def)
      moreover have "cu_role c \<noteq> Required" using 1 ok bounds by (auto simp: cursor_ok_def)
      moreover have "stream_recv_now s k = Some (touch Interest_Send
          (set_cursor ?i (c\<lparr>cu_next := ss_tail s - ss_cap s\<rparr>) s),
         Ok (Some (Gap ?m (ss_tail s - ss_cap s))))"
        unfolding exec using 1 by (simp add: less_diff_conv)
      ultimately show thesis using gap [OF open_s Some 1] by blast
    next
      case 2
      have at_tail: "cu_next c = ss_tail s"
        using 2 ok by (cases "ss_delivery s"; cases "ss_tail s") (auto simp: moved_def cursor_ok_def max_def split: if_splits)
      have "stream_recv_now s k = Some (s, Ok None)"
        unfolding exec using 2 at_tail same by simp
      then show thesis using none [OF open_s Some at_tail] by blast
    next
      case 3
      then have "ss_values s ! (?m mod ss_cap s) = Some (xs ! ?m)"
        using ret open_s by (simp add: retained_def)
      then have "stream_recv_now s k = Some (touch Interest_Send
          (set_cursor ?i (c\<lparr>cu_next := ?m + 1\<rparr>) s), Ok (Some (Data ?m (xs ! ?m))))"
        unfolding exec using 3 by simp
      then show thesis using data [OF open_s Some 3] by blast
    qed
  qed
qed

subsection \<open>The machine and its contract\<close>

text \<open>One call against the stream with the ghost log. \<open>Internal ()\<close> is \<open>maintain\<close>, which takes
  the pending change flags.\<close>

type_synonym 't static = "'t stream_state \<times> 't list"

fun static_step ::
    "'t static \<Rightarrow> ('t, subscriber_key, unit) stream_call \<Rightarrow> 't static \<times> ('t, subscriber_key) stream_out"
  where
  "static_step (s, xs) (Publish v) =
     (case stream_send_now s v of (s', r) \<Rightarrow> ((s', if is_ok r then xs @ [v] else xs), Sent r))"
| "static_step (s, xs) (Take k) =
     (case stream_recv_now s k of None \<Rightarrow> ((s, xs), Silent) | Some (s', r) \<Rightarrow> ((s', xs), Took r))"
| "static_step (s, xs) (Subscribe role) =
     (case stream_subscribe s role of (s', r) \<Rightarrow> ((s', xs), Joined r))"
| "static_step (s, xs) (Detach k) = ((stream_detach s k, xs), Silent)"
| "static_step (s, xs) (Close reason) = ((stream_close s reason, xs), Silent)"
| "static_step (s, xs) (Internal _) = ((s\<lparr>ss_changed := 0\<rparr>, xs), Silent)"

fun static_good :: "'t static \<Rightarrow> bool" where
  "static_good (s, xs) \<longleftrightarrow> stream_inv s \<and> retained s xs"

fun static_cursor :: "'t static \<Rightarrow> subscriber_key \<Rightarrow> (nat \<times> subscription_role) option" where
  "static_cursor (s, xs) k = map_option (\<lambda>c. (cu_next c, cu_role c)) (key_cursor s k)"

text \<open>Sending.\<close>

lemma send_ok_required:
  assumes "ss_cap s \<le> ss_tail s" and "\<not> list_ex (required_at (ss_tail s - ss_cap s)) (ss_cursors s)"
    and "Some c \<in> set (ss_cursors s)" and "cu_role c = Required"
  shows "ss_tail s < cu_next c + ss_cap s"
  using assms by (fastforce simp: list_ex_iff required_at_def)

lemma stream_send_cases:
  assumes "stream_send_now s v = (s', r)"
  obtains (sent) "r = Ok ()" "ss_closed s = None" "ss_tail s < u64_max"
      "s' = s\<lparr>ss_values := (ss_values s)[ss_tail s mod ss_cap s := Some v], ss_tail := ss_tail s + 1,
              ss_changed := ss_changed s OR Interest_Receive\<rparr>"
      "ss_tail s < ss_cap s \<or> \<not> list_ex (required_at (ss_tail s - ss_cap s)) (ss_cursors s)"
    | (refused) e where "r = Err e" "try_send_into_inner e = v" "s' = s"
proof (cases "ss_closed s")
  case (Some reason)
  then show thesis using assms refused by (auto simp: stream_send_now_def split: if_splits)
next
  case None
  show thesis
  proof (cases "ss_tail s < u64_max")
    case False
    then show thesis using assms None refused by (auto simp: stream_send_now_def checked_add_def)
  next
    case True
    note below = this
    show thesis
    proof (cases "ss_tail s \<ge> ss_cap s \<and> list_ex (required_at (ss_tail s - ss_cap s)) (ss_cursors s)")
      case True
      then show thesis using assms None below refused by (auto simp: stream_send_now_def checked_add_def)
    next
      case False
      then have "ss_tail s < ss_cap s \<or> \<not> list_ex (required_at (ss_tail s - ss_cap s)) (ss_cursors s)"
        by linarith
      then show thesis
        using assms None False sent below by (auto simp: stream_send_now_def checked_add_def)
    qed
  qed
qed

lemma stream_inv_send:
  assumes inv: "stream_inv s" and "ss_tail s < u64_max"
    and room: "ss_tail s < ss_cap s \<or> \<not> list_ex (required_at (ss_tail s - ss_cap s)) (ss_cursors s)"
  shows "stream_inv (s\<lparr>ss_values := (ss_values s)[i := Some v], ss_tail := ss_tail s + 1, ss_changed := m\<rparr>)"
    (is "stream_inv ?t")
proof -
  have "cursor_ok ?t c" if "Some c \<in> set (ss_cursors s)" for c
  proof -
    have "cursor_ok s c" by (rule cursor_okD [OF inv that])
    moreover have "ss_tail s + 1 \<le> cu_next c + ss_cap s" if "cu_role c = Required"
      using room send_ok_required [OF _ _ \<open>Some c \<in> set (ss_cursors s)\<close> that] by linarith
    ultimately show ?thesis by (auto simp: cursor_ok_def)
  qed
  then show ?thesis
    using assms by (auto simp: stream_inv_def list_all_iff split: option.split)
qed

lemma retained_send:
  assumes cap: "0 < ss_cap s" and ret: "retained s xs" and "ss_closed s = None"
  shows "retained (s\<lparr>ss_values := (ss_values s)[ss_tail s mod ss_cap s := Some v], ss_tail := ss_tail s + 1,
           ss_changed := m\<rparr>) (xs @ [v])"
proof -
  let ?i = "ss_tail s mod ss_cap s"
  have "(ss_values s)[?i := Some v] ! (n mod ss_cap s) = Some ((xs @ [v]) ! n)"
    if n: "n < ss_tail s + 1" "ss_tail s + 1 \<le> n + ss_cap s" for n
  proof (cases "n = ss_tail s")
    case True
    then show ?thesis using ret cap by (simp add: retained_def nth_append)
  next
    case False
    define d where "d = ss_tail s - n"
    have d: "ss_tail s = n + d" "0 < d" "d < ss_cap s" using n False by (auto simp: d_def)
    have "n mod ss_cap s \<noteq> ?i" using mod_add_neq [of 0 d "ss_cap s" n] d by simp
    then show ?thesis using ret n False assms(3) by (simp add: retained_def nth_append)
  qed
  then show ?thesis using ret assms(3) by (simp add: retained_def)
qed

text \<open>Subscribing.\<close>

lemma stream_subscribe_cases:
  assumes "stream_subscribe s role = (s', r)"
  obtains (joined) i where "ss_closed s = None" "i < length (ss_cursors s)" "ss_cursors s ! i = None"
      "role = Required \<Longrightarrow> ss_delivery s = Ordered" "ss_next_generation s < u64_max"
      "r = Ok \<lparr>key_index = i, key_generation = ss_next_generation s\<rparr>"
      "s' = s\<lparr>ss_next_generation := ss_next_generation s + 1,
              ss_cursors := (ss_cursors s)[i := Some \<lparr>cu_generation = ss_next_generation s,
                cu_next = (if ss_delivery s = Latest then ss_tail s - 1 else ss_tail s),
                cu_role = role\<rparr>]\<rparr>"
    | (refused) e where "r = Err e" "s' = s"
proof (cases "\<exists>e. r = Err e \<and> s' = s")
  case True
  then show thesis using refused by blast
next
  case False
  then have open_s: "ss_closed s = None" and role: "\<not> (ss_delivery s = Latest \<and> role = Required)"
    using assms by (auto simp: stream_subscribe_def split: option.splits)
  then obtain i where i: "position_none (ss_cursors s) = Some i"
    using assms False by (cases "position_none (ss_cursors s)") (auto simp: stream_subscribe_def)
  have room: "ss_next_generation s < u64_max"
  proof (rule ccontr)
    assume "\<not> ss_next_generation s < u64_max"
    then show False
      using assms open_s role i False by (auto simp: stream_subscribe_def Let_def checked_add_def)
  qed
  show thesis
  proof (rule joined [OF open_s])
    show "i < length (ss_cursors s)" "ss_cursors s ! i = None" using position_none_Some [OF i] by auto
    show "ss_delivery s = Ordered" if "role = Required" using role that by (cases "ss_delivery s") auto
    show "ss_next_generation s < u64_max" by (rule room)
  qed (use assms open_s role i room in \<open>auto simp: stream_subscribe_def Let_def checked_add_def\<close>)
qed

lemma stream_inv_subscribe:
  assumes inv: "stream_inv s" and "stream_subscribe s role = (s', r)"
  shows "stream_inv s'"
  using assms(2)
proof (cases rule: stream_subscribe_cases)
  case (joined i)
  let ?c = "\<lparr>cu_generation = ss_next_generation s,
    cu_next = (if ss_delivery s = Latest then ss_tail s - 1 else ss_tail s), cu_role = role\<rparr>"
  have "cursor_ok s' ?c"
    using joined by (auto simp: cursor_ok_def)
  then show ?thesis
    using set_update_subset_insert [of "ss_cursors s" i "Some ?c"] joined
    by (intro stream_invI [OF inv]) auto
qed (use inv in simp)

text \<open>Detaching and closing.\<close>

lemma stream_inv_detach:
  assumes "stream_inv s"
  shows "stream_inv (stream_detach s k)"
proof (rule stream_invI [OF assms])
  fix c assume "Some c \<in> set (ss_cursors (stream_detach s k))"
  then show "Some c \<in> set (ss_cursors s) \<or> cursor_ok (stream_detach s k) c"
    using set_update_subset_insert [of "ss_cursors s" "key_index k" None]
    by (auto simp: stream_detach_def split: if_splits)
qed (simp_all add: stream_detach_def)

lemma stream_inv_close:
  assumes "stream_inv s"
  shows "stream_inv (stream_close s reason)"
  by (rule stream_invI [OF assms]) (simp_all add: stream_close_def)

lemma stream_inv_touch: "stream_inv s \<Longrightarrow> stream_inv (touch m s)"
  by (rule stream_invI [of s]) simp_all

lemma retained_move: "retained (touch m (set_cursor i c s)) xs = retained s xs"
  by (rule retained_cong) simp_all

lemma retained_other:
  "retained s xs \<Longrightarrow> retained (stream_detach s k) xs"
  "retained s xs \<Longrightarrow> retained (stream_close s reason) xs"
  by (auto simp: retained_def stream_detach_def stream_close_def split: option.splits)

lemma static_good_step:
  assumes "static_good s"
  shows "static_good (fst (static_step s c))"
proof -
  obtain st xs where s: "s = (st, xs)" by (cases s)
  have inv: "stream_inv st" and ret: "retained st xs" using assms s by auto
  show ?thesis
  proof (cases c)
    case (Publish v)
    obtain s' r where r: "stream_send_now st v = (s', r)" by (cases "stream_send_now st v")
    from r show ?thesis
    proof (cases rule: stream_send_cases)
      case sent
      have "0 < ss_cap st" using inv by (simp add: stream_inv_def)
      with sent show ?thesis
        using Publish s r stream_inv_send [OF inv sent(3,5)] retained_send [OF _ ret sent(2)] by simp
    qed (use Publish s r inv ret in simp)
  next
    case (Take k)
    from inv ret show ?thesis
    proof (cases rule: stream_recv_cases [where k = k])
      case (gap c)
      have "cursor_ok st (c\<lparr>cu_next := ss_tail st - ss_cap st\<rparr>)"
        using cursor_okD [OF inv key_cursor_mem [OF gap(2)]] gap by (auto simp: cursor_ok_def)
      then show ?thesis
        using gap Take s ret stream_inv_touch [OF stream_inv_set [OF inv]] by (simp add: retained_move)
    next
      case (data c)
      have "cursor_ok st (c\<lparr>cu_next := moved st c + 1\<rparr>)"
        using cursor_okD [OF inv key_cursor_mem [OF data(2)]] data by (auto simp: cursor_ok_def moved_def)
      then show ?thesis
        using data Take s ret stream_inv_touch [OF stream_inv_set [OF inv]] by (simp add: retained_move)
    qed (use Take s inv ret in simp_all)
  next
    case (Subscribe role)
    obtain s' r where r: "stream_subscribe st role = (s', r)" by (cases "stream_subscribe st role")
    have "retained s' xs"
      using r by (cases rule: stream_subscribe_cases) (use ret in \<open>auto simp: retained_def\<close>)
    then show ?thesis using Subscribe s r stream_inv_subscribe [OF inv r] by simp
  next
    case (Internal i)
    have "stream_inv (st\<lparr>ss_changed := 0\<rparr>)" by (rule stream_invI [OF inv]) auto
    then show ?thesis using Internal s ret by (simp add: retained_def)
  qed (use s inv ret in \<open>simp_all add: stream_inv_detach stream_inv_close retained_other\<close>)
qed

text \<open>The laws of the contract, one lemma per law where it needs one.\<close>

lemma send_key_cursor:
  "stream_send_now s v = (s', r) \<Longrightarrow> key_cursor s' k = key_cursor s k"
  by (erule stream_send_cases) (simp_all add: key_cursor_def)

lemma subscribe_key_cursor:
  assumes "stream_subscribe s role = (s', r)" and "key_cursor s k = Some c"
  shows "key_cursor s' k = Some c"
  using assms(1)
  by (cases rule: stream_subscribe_cases) (use assms(2) in \<open>auto simp: key_cursor_nth nth_list_update\<close>)

lemma detach_key_cursor:
  assumes "k' \<noteq> k" and "key_cursor s k = Some c"
  shows "key_cursor (stream_detach s k') k = Some c"
proof (cases "key_cursor s k'")
  case (Some d)
  then have "key_index k' \<noteq> key_index k"
    using assms by (auto simp: key_cursor_nth intro: subscriber_key.equality)
  then show ?thesis using Some assms(2) by (simp add: stream_detach_def key_cursor_nth)
qed (use assms in \<open>simp add: stream_detach_def\<close>)

lemma other_key_cursor [simp]:
  "key_cursor (stream_close s reason) k = key_cursor s k"
  "key_cursor (s\<lparr>ss_changed := m\<rparr>) k = key_cursor s k"
  by (simp_all add: key_cursor_def stream_close_def)

text \<open>Receiving with key \<open>k'\<close> seen by key \<open>k\<close>.\<close>

lemma take_other_key:
  assumes inv: "stream_inv s" and ret: "retained s xs" and "k' \<noteq> k" and "key_cursor s k = Some c"
    and "stream_recv_now s k' = Some (s', r)"
  shows "key_cursor s' k = Some c"
  using inv ret
proof (cases rule: stream_recv_cases [where k = k'])
  case (gap d)
  then show ?thesis
    using assms key_cursor_set(2) [OF gap(2), of "d\<lparr>cu_next := ss_tail s - ss_cap s\<rparr>" k c] by simp
next
  case (data d)
  then show ?thesis
    using assms key_cursor_set(2) [OF data(2), of "d\<lparr>cu_next := moved s d + 1\<rparr>" k c] by simp
qed (use assms in simp_all)

lemma static_cursor_step:
  assumes good: "static_good s" and cur: "static_cursor s k = Some (n, role)" and "c \<noteq> Detach k"
    and none: "took_item c (snd (static_step s c)) k = []"
  shows "static_cursor (fst (static_step s c)) k = Some (n, role)"
proof -
  obtain st xs where s: "s = (st, xs)" by (cases s)
  have inv: "stream_inv st" and ret: "retained st xs" using good s by auto
  obtain cu where k: "key_cursor st k = Some cu" and nr: "n = cu_next cu" "role = cu_role cu"
    using cur s by auto
  have kept: ?thesis if "key_cursor (fst (fst (static_step s c))) k = Some cu"
    using that nr by (cases "fst (static_step s c)") simp
  show ?thesis
  proof (cases c)
    case (Publish v)
    then show ?thesis using kept k s send_key_cursor [of st v] by (auto split: prod.splits)
  next
    case (Take k')
    show ?thesis
    proof (cases "k' = k")
      case False
      show ?thesis
      proof (cases "stream_recv_now st k'")
        case (Some a)
        then show ?thesis
          using kept take_other_key [OF inv ret False k, of "fst a" "snd a"] Take s by (auto split: prod.splits)
      qed (use kept Take s k in simp)
    next
      case True
      from inv ret show ?thesis
      proof (cases rule: stream_recv_cases [where k = k])
        case (gap d)
        then show ?thesis using none Take True s by simp
      next
        case (data d)
        then show ?thesis using none Take True s by simp
      qed (use kept Take True s k in simp_all)
    qed
  next
    case (Subscribe role')
    then show ?thesis using kept k s subscribe_key_cursor [of st role'] by (auto split: prod.splits)
  next
    case (Detach k')
    then show ?thesis using kept k s detach_key_cursor [of k' k st] assms(3) by auto
  qed (use kept k s in auto)
qed

lemma static_take_step:
  assumes good: "static_good s" and cur: "static_cursor s k = Some (n, role)"
    and it: "took_item c (snd (static_step s c)) k = [it]"
  shows "static_cursor (fst (static_step s c)) k = Some (item_end it, role) \<and> n \<le> item_start it
    \<and> item_start it < item_end it \<and> item_end it \<le> length (snd s)
    \<and> (ss_delivery (fst s) = Ordered \<longrightarrow> item_start it = n)
    \<and> (case it of Data m v \<Rightarrow> v = snd s ! m | Gap _ _ \<Rightarrow> role \<noteq> Required)"
proof -
  obtain st xs where s: "s = (st, xs)" by (cases s)
  have inv: "stream_inv st" and ret: "retained st xs" using good s by auto
  have len: "length xs = ss_tail st" using ret by (simp add: retained_def)
  obtain cu where k: "key_cursor st k = Some cu" and nr: "n = cu_next cu" "role = cu_role cu"
    using cur s by auto
  have c: "c = Take k" using it by (cases "(c, snd (static_step s c), k)" rule: took_item.cases) (auto split: if_splits)
  have "cursor_ok st cu" by (rule cursor_okD [OF inv key_cursor_mem [OF k]])
  note m = moved_le [OF this]
  from inv ret show ?thesis
  proof (cases rule: stream_recv_cases [where k = k])
    case (gap d)
    then have d: "d = cu" using k by simp
    have "it = Gap (moved st cu) (ss_tail st - ss_cap st)" using gap it c s d by simp
    then show ?thesis
      using gap m nr len d c s key_cursor_set(1) [OF k, of "cu\<lparr>cu_next := ss_tail st - ss_cap st\<rparr>"]
      by (auto simp: moved_def)
  next
    case (data d)
    then have d: "d = cu" using k by simp
    have "it = Data (moved st cu) (xs ! moved st cu)" using data it c s d by simp
    then show ?thesis
      using data m nr len d c s key_cursor_set(1) [OF k, of "cu\<lparr>cu_next := moved st cu + 1\<rparr>"]
      by (auto simp: moved_def)
  qed (use it c s in simp_all)
qed

lemma static_log_step:
  "snd (fst (static_step s c)) = snd s @ admitted_value c (snd (static_step s c))"
proof -
  obtain st xs where s: "s = (st, xs)" by (cases s)
  show ?thesis
  proof (cases c)
    case (Publish v)
    then show ?thesis
      using s by (cases "stream_send_now st v"; cases "snd (stream_send_now st v)") auto
  qed (use s in \<open>auto split: option.splits prod.splits\<close>)
qed

lemma static_delivery_step:
  assumes "static_good s"
  shows "ss_delivery (fst (fst (static_step s c))) = ss_delivery (fst s)"
proof -
  obtain st xs where s: "s = (st, xs)" by (cases s)
  have inv: "stream_inv st" and ret: "retained st xs" using assms s by auto
  show ?thesis
  proof (cases c)
    case (Publish v)
    obtain s' r where r: "stream_send_now st v = (s', r)" by (cases "stream_send_now st v")
    then have "ss_delivery s' = ss_delivery st" by (cases rule: stream_send_cases) simp_all
    then show ?thesis using Publish s r by simp
  next
    case (Take k)
    from inv ret show ?thesis
      by (cases rule: stream_recv_cases [where k = k]) (use Take s in simp_all)
  next
    case (Subscribe role)
    obtain s' r where r: "stream_subscribe st role = (s', r)" by (cases "stream_subscribe st role")
    then have "ss_delivery s' = ss_delivery st" by (cases rule: stream_subscribe_cases) simp_all
    then show ?thesis using Subscribe s r by simp
  qed (use s in \<open>simp_all add: stream_detach_def stream_close_def\<close>)
qed

interpretation static: event_stream "\<lambda>s. ss_delivery (fst s)" snd static_cursor static_good static_step
  admitted_value took_item "\<lambda>c k. c = Detach k"
proof (unfold_locales, goal_cases)
  case (5 s k n r)
  then show ?case
    using cursor_okD key_cursor_mem by (cases s) (fastforce simp: cursor_ok_def retained_def)
next
  case (7 s k n r c it)
  then show ?case using static_take_step by blast
qed (simp_all add: took_item_cases static_good_step static_delivery_step static_log_step static_cursor_step)

subsection \<open>Reachable streams\<close>

lemma static_new_good:
  assumes "static_new d cap subs = Some s"
  shows "static_good (s, [])" and "ss_delivery s = d" and "ss_cap s = cap" and "ss_closed s = None"
    and "ss_tail s = 0"
  using assms
  by (auto simp: static_new_def state_new_def stream_inv_def retained_def list_all_iff split: if_splits)

definition reachable :: "delivery \<Rightarrow> nat \<Rightarrow> nat \<Rightarrow> ('t, subscriber_key, unit) stream_call list
    \<Rightarrow> 't static \<Rightarrow> ('t, subscriber_key) stream_out list \<Rightarrow> bool" where
  "reachable d cap subs cs s outs \<longleftrightarrow>
     (\<exists>s0. static_new d cap subs = Some s0 \<and> run_calls static_step (s0, []) cs = (s, outs))"

lemma reachable_good:
  assumes "reachable d cap subs cs s outs"
  shows "static_good s" and "ss_delivery (fst s) = d" and "snd s = admitted_values cs outs"
proof -
  obtain s0 where s0: "static_new d cap subs = Some s0"
    and r: "run_calls static_step (s0, []) cs = (s, outs)"
    using assms by (auto simp: reachable_def)
  from static.run_log [OF static_new_good(1) [OF s0] r] static_new_good(2) [OF s0]
  show "static_good s" "ss_delivery (fst s) = d" "snd s = admitted_values cs outs" by simp_all
qed

text \<open>The capacity never changes.\<close>

lemma static_cap_step:
  assumes "static_good s"
  shows "ss_cap (fst (fst (static_step s c))) = ss_cap (fst s)"
proof -
  obtain st xs where s: "s = (st, xs)" by (cases s)
  have inv: "stream_inv st" and ret: "retained st xs" using assms s by auto
  show ?thesis
  proof (cases c)
    case (Publish v)
    obtain s' r where r: "stream_send_now st v = (s', r)" by (cases "stream_send_now st v")
    then have "ss_cap s' = ss_cap st" by (cases rule: stream_send_cases) simp_all
    then show ?thesis using Publish s r by simp
  next
    case (Take k)
    from inv ret show ?thesis
      by (cases rule: stream_recv_cases [where k = k]) (use Take s in simp_all)
  next
    case (Subscribe role)
    obtain s' r where r: "stream_subscribe st role = (s', r)" by (cases "stream_subscribe st role")
    then have "ss_cap s' = ss_cap st" by (cases rule: stream_subscribe_cases) simp_all
    then show ?thesis using Subscribe s r by simp
  qed (use s in \<open>simp_all add: stream_detach_def stream_close_def\<close>)
qed

lemma reachable_cap:
  assumes "reachable d cap subs cs s outs"
  shows "ss_cap (fst s) = cap"
proof -
  obtain s0 where s0: "static_new d cap subs = Some s0"
    and r: "run_calls static_step (s0, []) cs = (s, outs)"
    using assms by (auto simp: reachable_def)
  have "static_good (fst (run_calls static_step (s0, []) cs))
      \<and> ss_cap (fst (fst (run_calls static_step (s0, []) cs))) = cap"
  proof (rule run_calls_invariant [where good = "\<lambda>s. static_good s \<and> ss_cap (fst s) = cap"])
    show "static_good (s0, []) \<and> ss_cap (fst (s0, [])) = cap"
      using static_new_good [OF s0] by simp
  qed (simp add: static_good_step static_cap_step)
  then show ?thesis using r by simp
qed

text \<open>A key that is not live and has been issued before stays dead.\<close>

definition dead_key :: "'t stream_state \<Rightarrow> subscriber_key \<Rightarrow> bool" where
  "dead_key s k \<longleftrightarrow> key_cursor s k = None \<and> key_generation k < ss_next_generation s"

lemma key_cursor_None_update:
  "key_cursor s k = None \<Longrightarrow> cu_generation d = cu_generation c \<Longrightarrow> key_cursor s k' = Some c \<Longrightarrow>
     key_cursor (set_cursor (key_index k') d s) k = None"
  by (cases "key_index k = key_index k'") (auto simp: key_cursor_def nth_list_update split: option.splits if_splits)

lemma dead_key_step:
  assumes good: "static_good s" and dead: "dead_key (fst s) k"
  shows "dead_key (fst (fst (static_step s c))) k"
proof -
  obtain st xs where s: "s = (st, xs)" by (cases s)
  have inv: "stream_inv st" and ret: "retained st xs" using good s by auto
  have none: "key_cursor st k = None" and gen: "key_generation k < ss_next_generation st"
    using dead s by (auto simp: dead_key_def)
  show ?thesis
  proof (cases c)
    case (Publish v)
    obtain s' r where r: "stream_send_now st v = (s', r)" by (cases "stream_send_now st v")
    then have "ss_next_generation s' = ss_next_generation st" by (cases rule: stream_send_cases) simp_all
    then show ?thesis using Publish s r none gen send_key_cursor [OF r, of k] by (simp add: dead_key_def)
  next
    case (Take k')
    from inv ret show ?thesis
    proof (cases rule: stream_recv_cases [where k = k'])
      case (gap d)
      then show ?thesis
        using Take s none gen key_cursor_None_update [OF none _ gap(2)] by (simp add: dead_key_def)
    next
      case (data d)
      then show ?thesis
        using Take s none gen key_cursor_None_update [OF none _ data(2)] by (simp add: dead_key_def)
    qed (use Take s none gen in \<open>simp_all add: dead_key_def\<close>)
  next
    case (Subscribe role)
    obtain s' r where r: "stream_subscribe st role = (s', r)" by (cases "stream_subscribe st role")
    then have "dead_key s' k"
    proof (cases rule: stream_subscribe_cases)
      case (joined i)
      then show ?thesis
        using none gen by (auto simp: dead_key_def key_cursor_def nth_list_update split: option.splits if_splits)
    qed (use none gen in \<open>simp add: dead_key_def\<close>)
    then show ?thesis using Subscribe s r by simp
  next
    case (Detach k')
    have "key_cursor (stream_detach st k') k = None"
      using none by (auto simp: stream_detach_def key_cursor_def nth_list_update split: option.splits if_splits)
    then show ?thesis using Detach s gen by (simp add: dead_key_def stream_detach_def)
  next
    case (Close reason)
    have "ss_next_generation (stream_close st reason) = ss_next_generation st" by (simp add: stream_close_def)
    then show ?thesis using Close s none gen by (simp add: dead_key_def)
  qed (use s none gen in \<open>simp_all add: dead_key_def\<close>)
qed


lemma dead_key_run:
  assumes "static_good s" and "dead_key (fst s) k"
  shows "run_calls static_step s cs = (s', outs) \<Longrightarrow>
    dead_key (fst s') k \<and> items_of k cs outs = []"
  using assms
proof (induction cs arbitrary: s outs)
  case (Cons c cs)
  obtain s1 out where s: "static_step s c = (s1, out)" by (cases "static_step s c")
  obtain outs' where run: "run_calls static_step s1 cs = (s', outs')" and o: "outs = out # outs'"
    using Cons.prems(1) s by (auto split: prod.splits)
  obtain st xs where st: "s = (st, xs)" by (cases s)
  have inv: "stream_inv st" and ret: "retained st xs" using Cons.prems(2) st by auto
  have dead: "key_cursor st k = None" using Cons.prems(3) st by (simp add: dead_key_def)
  have good1: "static_good s1" using static_good_step [OF Cons.prems(2), of c] s by simp
  have dead1: "dead_key (fst s1) k" using dead_key_step [OF Cons.prems(2,3), of c] s by simp
  have "took_item c out k = []"
  proof (cases "c = Take k")
    case True
    from inv ret show ?thesis
      by (cases rule: stream_recv_cases [where k = k]) (use True s st dead in auto)
  next
    case False
    then show ?thesis by (cases "(c, out, k)" rule: took_item.cases) auto
  qed
  with Cons.IH [OF run good1 dead1] show ?case using o by simp
qed simp

text \<open>A closed stream does nothing but repeat its reason.\<close>

definition quiet :: "('t, subscriber_key, unit) stream_call \<Rightarrow> close_reason
    \<Rightarrow> ('t, subscriber_key) stream_out \<Rightarrow> bool" where
  "quiet c reason out \<longleftrightarrow>
     (case c of
        Publish v \<Rightarrow> out = Sent (Err (if reason = CloseReason_Revoked then TrySend_Revoked v else TrySend_Closed v))
      | Take _ \<Rightarrow> out = Took (Err (ReceiveError_Closed reason))
      | Subscribe _ \<Rightarrow> out = Joined (Err (if reason = CloseReason_Revoked then TopicError_Revoked else TopicError_Denied))
      | _ \<Rightarrow> out = Silent)"

lemma static_closed_step:
  assumes "ss_closed (fst s) = Some reason"
  shows "ss_closed (fst (fst (static_step s c))) = Some reason \<and> snd (fst (static_step s c)) = snd s
    \<and> quiet c reason (snd (static_step s c))"
  using assms
  by (cases s; cases c)
    (simp_all add: quiet_def stream_send_now_def stream_recv_now_def stream_subscribe_def
      stream_detach_def stream_close_def)

lemma static_closed_run:
  "ss_closed (fst s) = Some reason \<Longrightarrow> run_calls static_step s cs = (s', outs) \<Longrightarrow>
     ss_closed (fst s') = Some reason \<and> snd s' = snd s \<and> list_all2 (\<lambda>c. quiet c reason) cs outs"
proof (induction cs arbitrary: s outs)
  case (Cons c cs)
  obtain s1 out where s: "static_step s c = (s1, out)" by (cases "static_step s c")
  obtain outs' where run: "run_calls static_step s1 cs = (s', outs')" and o: "outs = out # outs'"
    using Cons.prems(2) s by (auto split: prod.splits)
  show ?case using static_closed_step [OF Cons.prems(1), of c] Cons.IH [OF _ run] s o by simp
qed simp

lemma list_ex_required:
  assumes "stream_inv s" and "ss_cap s \<le> ss_tail s"
  shows "list_ex (required_at (ss_tail s - ss_cap s)) (ss_cursors s) \<longleftrightarrow>
    (\<exists>k c. key_cursor s k = Some c \<and> cu_role c = Required \<and> cu_next c + ss_cap s = ss_tail s)"
proof
  assume "list_ex (required_at (ss_tail s - ss_cap s)) (ss_cursors s)"
  then obtain i c where i: "i < length (ss_cursors s)" "ss_cursors s ! i = Some c"
      and c: "cu_role c = Required" "cu_next c \<le> ss_tail s - ss_cap s"
    by (fastforce simp: list_ex_iff required_at_def in_set_conv_nth split: option.splits)
  have "cursor_ok s c" using cursor_okD [OF assms(1)] i by (metis nth_mem)
  then have "cu_next c + ss_cap s = ss_tail s"
    using c assms(2) unfolding cursor_ok_def by linarith
  moreover have "key_cursor s \<lparr>key_index = i, key_generation = cu_generation c\<rparr> = Some c"
    using i by (simp add: key_cursor_nth)
  ultimately show "\<exists>k c. key_cursor s k = Some c \<and> cu_role c = Required \<and> cu_next c + ss_cap s = ss_tail s"
    using c by blast
next
  assume "\<exists>k c. key_cursor s k = Some c \<and> cu_role c = Required \<and> cu_next c + ss_cap s = ss_tail s"
  then obtain c where "Some c \<in> set (ss_cursors s)" "cu_role c = Required" "cu_next c + ss_cap s = ss_tail s"
    using key_cursor_mem by blast
  then have "Some c \<in> set (ss_cursors s) \<and> required_at (ss_tail s - ss_cap s) (Some c)"
    by (simp add: required_at_def)
  then show "list_ex (required_at (ss_tail s - ss_cap s)) (ss_cursors s)"
    unfolding list_ex_iff by blast
qed

subsection \<open>Properties\<close>

text \<open>A stream of capacity two with a required and an observing subscription, for the
  witnesses.\<close>

abbreviation key_a :: subscriber_key where "key_a \<equiv> \<lparr>key_index = 0, key_generation = 0\<rparr>"
abbreviation key_b :: subscriber_key where "key_b \<equiv> \<lparr>key_index = 1, key_generation = 1\<rparr>"

definition example_calls :: "(nat, subscriber_key, unit) stream_call list" where
  "example_calls = [Subscribe Required, Subscribe Observer, Publish 7, Publish 8]"

definition example_outs :: "(nat, subscriber_key) stream_out list" where
  "example_outs = [Joined (Ok key_a), Joined (Ok key_b), Sent (Ok ()), Sent (Ok ())]"

definition example_static :: "nat static" where
  "example_static = (\<lparr>ss_delivery = Ordered, ss_values = [Some 7, Some 8], ss_tail = 2,
     ss_cursors = [Some \<lparr>cu_generation = 0, cu_next = 0, cu_role = Required\<rparr>,
                   Some \<lparr>cu_generation = 1, cu_next = 0, cu_role = Observer\<rparr>],
     ss_next_generation = 2, ss_closed = None, ss_changed = 2\<rparr>, [7, 8])"

lemmas static_exec = stream_subscribe_def stream_send_now_def stream_recv_now_def stream_detach_def
  stream_close_def key_cursor_def set_cursor_def touch_def required_at_def
  u64_max_def checked_add_def Interest_Receive_def Interest_Send_def Let_def

lemma example_reachable: "reachable Ordered 2 2 example_calls example_static example_outs"
proof -
  have new: "static_new Ordered 2 2 = Some \<lparr>ss_delivery = Ordered, ss_values = [None, None], ss_tail = 0,
      ss_cursors = [None, None], ss_next_generation = 0, ss_closed = None, ss_changed = 0\<rparr>"
    by (simp add: static_new_def state_new_def numeral_2_eq_2)
  show ?thesis
    by (simp add: reachable_def new example_calls_def example_static_def example_outs_def static_exec)
qed

text \<open>C5: A subscription of an ordered stream accounts for every publication: whatever publishers,
  other subscriptions and closers do, the items it receives cover the sequences from its cursor on
  without hole, overlap or reordering, each datum is what was admitted under its sequence, and a
  required receiver, which sees no gap, gets exactly the admitted values, in admission order.\<close>

theorem static_subscription_accounts:
  assumes "reachable Ordered cap subs before s outs" and "key_cursor (fst s) k = Some c"
    and "run_calls static_step s cs = (s', outs')" and "Detach k \<notin> set cs"
  shows "(let items = items_of k cs outs';
              admitted = admitted_values before outs @ admitted_values cs outs'
          in tiles admitted (cu_next c) items
             \<and> (cu_role c = Required \<longrightarrow> list_all is_data items
                 \<and> map item_value items = take (length items) (drop (cu_next c) admitted)))"
proof -
  note r = reachable_good [OF assms(1)]
  have cur: "static_cursor s k = Some (cu_next c, cu_role c)" using assms(2) by (cases s) simp
  show ?thesis
    using static.run_items [OF r(1) assms(3) cur] assms(4) static.run_log [OF r(1) assms(3)] r(2,3)
      tiles_data [of "snd s'" "cu_next c" "items_of k cs outs'"]
    by (auto simp: Let_def)
qed

theorem static_subscription_accounts_witness:
  "(let items = items_of key_a [Take key_a, Take key_b, Take key_a]
        (snd (run_calls static_step example_static [Take key_a, Take key_b, Take key_a]))
    in tiles [7, 8] 0 items \<and> map item_value items = [7, 8])"
proof -
  obtain s' outs' where r: "run_calls static_step example_static [Take key_a, Take key_b, Take key_a] = (s', outs')"
    and o: "outs' = [Took (Ok (Some (Data 0 7))), Took (Ok (Some (Data 0 7))), Took (Ok (Some (Data 1 8)))]"
    by (simp add: example_static_def static_exec)
  have "key_cursor (fst example_static) key_a = Some \<lparr>cu_generation = 0, cu_next = 0, cu_role = Required\<rparr>"
    by (simp add: example_static_def key_cursor_def)
  from static_subscription_accounts [OF example_reachable this r] show ?thesis
    using r o by (simp add: Let_def example_calls_def example_outs_def)
qed

text \<open>C23: Receiving from an ordered stream never panics and is exact: a closed stream repeats its
  reason, a detached key finds its stream closed, a cursor more than the capacity behind is told of
  the gap up to the oldest retained sequence, a cursor at the tail gets nothing, and every other
  cursor gets the value admitted under its sequence.\<close>

theorem static_receive_exact:
  assumes "reachable Ordered cap subs cs s outs"
  shows "map_option snd (stream_recv_now (fst s) k) =
    Some (case ss_closed (fst s) of
            Some reason \<Rightarrow> Err (ReceiveError_Closed reason)
          | None \<Rightarrow>
              (case key_cursor (fst s) k of
                 None \<Rightarrow> Err (ReceiveError_Closed CloseReason_Closed)
               | Some c \<Rightarrow>
                   (let n = cu_next c; count = length (admitted_values cs outs)
                    in Ok (if n + cap < count then Some (Gap n (count - cap))
                           else if n = count then None
                           else Some (Data n (admitted_values cs outs ! n))))))"
proof -
  note r = reachable_good [OF assms] and cap = reachable_cap [OF assms]
  have inv: "stream_inv (fst s)" and ret: "retained (fst s) (admitted_values cs outs)"
    using r(1,3) by (cases s; simp)+
  have len: "length (admitted_values cs outs) = ss_tail (fst s)" using ret by (simp add: retained_def)
  from inv ret show ?thesis
    by (cases rule: stream_recv_cases [where k = k]) (use len cap r(2) in \<open>auto simp: moved_def Let_def\<close>)
qed

theorem static_receive_exact_witness:
  "map_option snd (stream_recv_now (fst example_static) key_b) = Some (Ok (Some (Data 0 7)))"
  using static_receive_exact [OF example_reachable, of key_b]
  by (simp add: example_static_def example_calls_def example_outs_def key_cursor_def)

text \<open>On a latest-state stream: what a receive returns, and what it leaves for the next one.\<close>

lemma latest_receive:
  assumes good: "static_good (st, xs)" and latest: "ss_delivery st = Latest"
  shows "map_option snd (stream_recv_now st k) =
    Some (case ss_closed st of
            Some reason \<Rightarrow> Err (ReceiveError_Closed reason)
          | None \<Rightarrow>
              (case key_cursor st k of
                 None \<Rightarrow> Err (ReceiveError_Closed CloseReason_Closed)
               | Some c \<Rightarrow>
                   Ok (if cu_next c < length xs then Some (Data (length xs - 1) (last xs)) else None)))"
    and "stream_recv_now st k = Some (st', Ok (Some it)) \<Longrightarrow> stream_recv_now st' k = Some (st', Ok None)"
proof -
  have inv: "stream_inv st" and ret: "retained st xs" using good by simp_all
  have len: "length xs = ss_tail st" using ret by (simp add: retained_def)
  have pos: "0 < ss_cap st" using inv by (simp add: stream_inv_def)
  have newest: "moved st c = length xs - 1" "xs \<noteq> []" if "moved st c < ss_tail st" for c
    using that latest len by (auto simp: moved_def)
  show "map_option snd (stream_recv_now st k) =
    Some (case ss_closed st of
            Some reason \<Rightarrow> Err (ReceiveError_Closed reason)
          | None \<Rightarrow>
              (case key_cursor st k of
                 None \<Rightarrow> Err (ReceiveError_Closed CloseReason_Closed)
               | Some c \<Rightarrow>
                   Ok (if cu_next c < length xs then Some (Data (length xs - 1) (last xs)) else None)))"
    using inv ret
  proof (cases rule: stream_recv_cases [where k = k])
    case (data c)
    have "cu_next c < length xs" using data(3) len latest by (simp add: moved_def)
    then show ?thesis using data newest [OF data(3)] by (simp add: last_conv_nth)
  qed (use latest len in simp_all)
  assume recv: "stream_recv_now st k = Some (st', Ok (Some it))"
  from inv ret show "stream_recv_now st' k = Some (st', Ok None)"
  proof (cases rule: stream_recv_cases [where k = k])
    case (data c)
    have s': "st' = touch Interest_Send (set_cursor (key_index k) (c\<lparr>cu_next := ss_tail st\<rparr>) st)"
      using data newest [OF data(3)] recv len by auto
    have "cursor_ok st (c\<lparr>cu_next := ss_tail st\<rparr>)"
      using cursor_okD [OF inv key_cursor_mem [OF data(2)]] by (auto simp: cursor_ok_def)
    then have inv': "stream_inv st'" unfolding s' by (intro stream_inv_touch stream_inv_set [OF inv])
    have ret': "retained st' xs" using ret unfolding s' by (simp add: retained_move)
    have k': "key_cursor st' k = Some (c\<lparr>cu_next := ss_tail st\<rparr>)"
      using key_cursor_set(1) [OF data(2), of "c\<lparr>cu_next := ss_tail st\<rparr>"] s' by simp
    from inv' ret' show ?thesis
      by (cases rule: stream_recv_cases [where k = k])
        (use k' s' data(1) latest in \<open>auto simp: moved_def\<close>)
  qed (use recv latest in simp_all)
qed

text \<open>A publication and a subscription, as the next receive sees them.\<close>

lemma publish_ok_stream:
  assumes "snd (static_step (st, xs) (Publish v)) = Sent (Ok ())"
  shows "\<exists>st'. static_step (st, xs) (Publish v) = ((st', xs @ [v]), Sent (Ok ()))
     \<and> ss_closed st' = None \<and> ss_delivery st' = ss_delivery st \<and> key_cursor st' k = key_cursor st k"
proof -
  obtain st' r where sent: "stream_send_now st v = (st', r)" by fastforce
  then have r: "r = Ok ()" using assms by simp
  have "ss_closed st' = None \<and> ss_delivery st' = ss_delivery st \<and> ss_cursors st' = ss_cursors st"
    using sent r by (auto simp: stream_send_now_def split: option.splits if_splits)
  then show ?thesis using sent r by (simp add: key_cursor_def)
qed

lemma subscribe_latest_stream:
  assumes "snd (static_step (st, xs) (Subscribe role)) = Joined (Ok k)" and "ss_delivery st = Latest"
  shows "\<exists>st' c. static_step (st, xs) (Subscribe role) = ((st', xs), Joined (Ok k))
     \<and> ss_closed st' = None \<and> ss_delivery st' = Latest
     \<and> key_cursor st' k = Some c \<and> cu_next c = ss_tail st - 1"
  using assms position_none_Some
  by (fastforce simp: stream_subscribe_def Let_def key_cursor_nth split: prod.splits option.splits if_splits)

text \<open>C24: A latest-state stream delivers the newest value and never a gap. On an open stream a live
  subscription that has not yet received the newest admission receives exactly that one, however
  many it missed, and otherwise nothing; a publication that succeeds is what every live subscription
  receives next, a new subscription starts with the newest value there is, and a receive right
  after a delivery finds nothing.\<close>

theorem latest_gets_newest:
  assumes "reachable Latest cap subs cs s outs"
  shows "map_option snd (stream_recv_now (fst s) k) =
      Some (case ss_closed (fst s) of
              Some reason \<Rightarrow> Err (ReceiveError_Closed reason)
            | None \<Rightarrow>
                (case key_cursor (fst s) k of
                   None \<Rightarrow> Err (ReceiveError_Closed CloseReason_Closed)
                 | Some c \<Rightarrow>
                     (let values = admitted_values cs outs
                      in Ok (if cu_next c < length values
                             then Some (Data (length values - 1) (last values)) else None))))
    \<and> (snd (static_step s (Publish v)) = Sent (Ok ()) \<and> key_cursor (fst s) k \<noteq> None \<longrightarrow>
        snd (static_step (fst (static_step s (Publish v))) (Take k)) =
          Took (Ok (Some (Data (length (admitted_values cs outs)) v))))
    \<and> (snd (static_step s (Subscribe role)) = Joined (Ok k) \<and> admitted_values cs outs \<noteq> [] \<longrightarrow>
        snd (static_step (fst (static_step s (Subscribe role))) (Take k)) =
          Took (Ok (Some (Data (length (admitted_values cs outs) - 1) (last (admitted_values cs outs))))))
    \<and> (\<forall>s' it. stream_recv_now (fst s) k = Some (s', Ok (Some it)) \<longrightarrow>
        stream_recv_now s' k = Some (s', Ok None))"
proof -
  obtain st where s: "s = (st, admitted_values cs outs)" using reachable_good(3) [OF assms] by (cases s) simp
  let ?xs = "admitted_values cs outs"
  have good: "static_good (st, ?xs)" and latest: "ss_delivery st = Latest"
    using reachable_good(1,2) [OF assms] s by simp_all
  have tail: "length ?xs = ss_tail st" using good by (simp add: retained_def)
  note after = static_good_step [OF good]
  have publish: "snd (static_step (fst (static_step s (Publish v))) (Take k)) = Took (Ok (Some (Data (length ?xs) v)))"
    if ok: "snd (static_step s (Publish v)) = Sent (Ok ())" and live: "key_cursor st k \<noteq> None"
  proof -
    obtain st' where st': "static_step (st, ?xs) (Publish v) = ((st', ?xs @ [v]), Sent (Ok ()))"
      "ss_closed st' = None" "ss_delivery st' = Latest" "key_cursor st' k = key_cursor st k"
      using publish_ok_stream [of st ?xs v k] ok latest by (auto simp: s)
    obtain c where c: "key_cursor st k = Some c" using live by blast
    have "cu_next c \<le> length ?xs"
      using cursor_okD [OF _ key_cursor_mem [OF c]] good tail by (auto simp: cursor_ok_def)
    then show ?thesis
      using latest_receive(1) [of st' "?xs @ [v]" k] after [of "Publish v"] st' c
      by (auto simp: s map_option_case split: option.splits)
  qed
  have join: "snd (static_step (fst (static_step s (Subscribe role))) (Take k)) =
      Took (Ok (Some (Data (length ?xs - 1) (last ?xs))))"
    if ok: "snd (static_step s (Subscribe role)) = Joined (Ok k)" and some: "?xs \<noteq> []"
  proof -
    obtain st' c where st': "static_step (st, ?xs) (Subscribe role) = ((st', ?xs), Joined (Ok k))"
      "ss_closed st' = None" "ss_delivery st' = Latest" "key_cursor st' k = Some c" "cu_next c = ss_tail st - 1"
      using subscribe_latest_stream [of st ?xs role k] ok latest by (auto simp: s)
    have "cu_next c < length ?xs" using st'(5) tail some by (cases ?xs) auto
    then show ?thesis
      using latest_receive(1) [of st' ?xs k] after [of "Subscribe role"] st'
      by (auto simp: s map_option_case split: option.splits)
  qed
  show ?thesis
    using latest_receive(1) [OF good latest, of k] latest_receive(2) [OF good latest] publish join
    unfolding s fst_conv Let_def by blast
qed

theorem latest_gets_newest_witness:
  "\<exists>s outs. reachable Latest 1 1 [Subscribe Observer, Publish (7::nat), Publish 8] s outs
     \<and> map_option snd (stream_recv_now (fst s) key_a) = Some (Ok (Some (Data 1 8)))"
proof -
  let ?cs = "[Subscribe Observer, Publish 7, Publish 8] :: (nat, subscriber_key, unit) stream_call list"
  obtain s outs where r: "reachable Latest 1 1 ?cs s outs"
    and s: "fst s = \<lparr>ss_delivery = Latest, ss_values = [Some 8], ss_tail = 2,
      ss_cursors = [Some \<lparr>cu_generation = 0, cu_next = 0, cu_role = Observer\<rparr>],
      ss_next_generation = 1, ss_closed = None, ss_changed = 2\<rparr>"
    and log: "admitted_values ?cs outs = [7, 8]"
    by (simp add: reachable_def static_new_def state_new_def static_exec)
  have "map_option snd (stream_recv_now (fst s) key_a) = Some (Ok (Some (Data 1 8)))"
    using latest_gets_newest [OF r, of key_a] by (simp add: log s key_cursor_def)
  then show ?thesis using r by blast
qed

text \<open>C7: Backpressure is exact: an open stream with sequences left refuses a value as full if and
  only if a live required subscription has a whole capacity of values unread, in which case the
  value comes back and nothing changes; otherwise the value is admitted under the next sequence.\<close>

theorem backpressure_exact:
  assumes "reachable d cap subs cs s outs" and "ss_closed (fst s) = None"
    and "length (admitted_values cs outs) < u64_max"
  shows "(let count = length (admitted_values cs outs);
              blocked = (\<exists>k c. key_cursor (fst s) k = Some c \<and> cu_role c = Required \<and> cu_next c + cap = count)
          in (blocked \<longrightarrow> static_step s (Publish v) = (s, Sent (Err (TrySend_Full v))))
             \<and> (\<not> blocked \<longrightarrow> snd (static_step s (Publish v)) = Sent (Ok ())
                 \<and> ss_tail (fst (fst (static_step s (Publish v)))) = count + 1))"
proof -
  note r = reachable_good [OF assms(1)] and cap = reachable_cap [OF assms(1)]
  obtain st xs where s: "s = (st, xs)" by (cases s)
  have inv: "stream_inv st" and len: "length (admitted_values cs outs) = ss_tail st"
    using r(1,3) s by (auto simp: retained_def)
  let ?full = "ss_cap st \<le> ss_tail st \<and> list_ex (required_at (ss_tail st - ss_cap st)) (ss_cursors st)"
  have full: "?full \<longleftrightarrow> (\<exists>k c. key_cursor st k = Some c \<and> cu_role c = Required \<and> cu_next c + cap = ss_tail st)"
    using list_ex_required [OF inv] cap s by (cases "ss_cap st \<le> ss_tail st") auto
  have "stream_send_now st v = (if ?full then (st, Err (TrySend_Full v))
      else (st\<lparr>ss_values := (ss_values st)[ss_tail st mod ss_cap st := Some v],
               ss_tail := ss_tail st + 1, ss_changed := ss_changed st OR Interest_Receive\<rparr>, Ok ()))"
    using assms(2,3) len s by (simp add: stream_send_now_def checked_add_def)
  then show ?thesis
    unfolding full using len s by (auto simp: Let_def)
qed

theorem backpressure_exact_witness:
  "static_step example_static (Publish 9) = (example_static, Sent (Err (TrySend_Full 9)))"
proof -
  have open_s: "ss_closed (fst example_static) = None" by (simp add: example_static_def)
  have few: "length (admitted_values example_calls example_outs) < u64_max"
    by (simp add: example_calls_def example_outs_def u64_max_def)
  have "key_cursor (fst example_static) key_a = Some \<lparr>cu_generation = 0, cu_next = 0, cu_role = Required\<rparr>"
    by (simp add: example_static_def key_cursor_def)
  then have "\<exists>k c. key_cursor (fst example_static) k = Some c \<and> cu_role c = Required \<and> cu_next c + 2 = 2"
    by fastforce
  with backpressure_exact [OF example_reachable open_s few, of 9] show ?thesis
    by (simp add: Let_def example_calls_def example_outs_def)
qed

text \<open>C30: A detached key stays dead: whatever happens afterwards, even when its slot is used by a
  new subscription, it receives nothing more, and detaching it again changes nothing.\<close>

theorem detached_key_stays_dead:
  assumes "reachable d cap subs before s outs" and "key_cursor (fst s) k = Some c"
    and "run_calls static_step s (Detach k # cs) = (s', outs')"
  shows "key_cursor (fst s') k = None \<and> items_of k (Detach k # cs) outs' = []
    \<and> stream_detach (fst s') k = fst s'"
proof -
  note good = reachable_good(1) [OF assms(1)]
  obtain st xs where s: "s = (st, xs)" by (cases s)
  obtain outs'' where run: "run_calls static_step (stream_detach st k, xs) cs = (s', outs'')"
    and o: "outs' = Silent # outs''"
    using assms(3) s by (auto split: prod.splits)
  have "static_good (stream_detach st k, xs)" using static_good_step [OF good, of "Detach k"] s by simp
  moreover have "cursor_ok st c" using good s cursor_okD key_cursor_mem assms(2) by fastforce
  then have "dead_key (stream_detach st k) k"
    using assms(2) s
    by (auto simp: dead_key_def stream_detach_def key_cursor_def cursor_ok_def
        split: if_splits option.splits)
  ultimately show ?thesis
    using dead_key_run [OF _ _ run] o by (auto simp: dead_key_def stream_detach_def)
qed

theorem detached_key_stays_dead_witness:
  "(let cs = [Detach key_a, Subscribe Observer, Publish 9, Take key_a]
    in items_of key_a cs (snd (run_calls static_step example_static cs)) = [])"
proof -
  have "key_cursor (fst example_static) key_a = Some \<lparr>cu_generation = 0, cu_next = 0, cu_role = Required\<rparr>"
    by (simp add: example_static_def key_cursor_def)
  from detached_key_stays_dead [OF example_reachable this surjective_pairing,
      of "[Subscribe Observer, Publish 9, Take key_a]"]
  show ?thesis unfolding Let_def by blast
qed

text \<open>C31: Closing is final: the first reason stays, whatever calls follow, further closes included;
  nothing is admitted or delivered any more, every publication comes back with the error of the
  reason, and every receive and subscription is refused with it.\<close>

theorem close_is_final:
  assumes "ss_closed (fst s) = None"
    and "run_calls static_step s (Close reason # cs) = (s', outs)"
  shows "ss_closed (fst s') = Some reason \<and> snd s' = snd s
    \<and> list_all2 (\<lambda>c. quiet c reason) (Close reason # cs) outs"
proof -
  obtain st xs where s: "s = (st, xs)" by (cases s)
  obtain outs'' where run: "run_calls static_step (stream_close st reason, xs) cs = (s', outs'')"
    and o: "outs = Silent # outs''"
    using assms(2) s by (auto split: prod.splits)
  have "ss_closed (fst (stream_close st reason, xs)) = Some reason"
    using assms(1) s by (simp add: stream_close_def)
  from static_closed_run [OF this run] show ?thesis using o s by (simp add: quiet_def)
qed

theorem close_is_final_witness:
  "ss_closed (fst (fst (run_calls static_step example_static
     [Close CloseReason_Revoked, Publish 9, Close CloseReason_Closed]))) = Some CloseReason_Revoked"
proof -
  have "ss_closed (fst example_static) = None" by (simp add: example_static_def)
  from close_is_final [OF this surjective_pairing] show ?thesis by blast
qed

end
