(* ===== verification/Hiway_Static_Wait.thy ===== *)
theory Hiway_Static_Wait
  imports Hiway_Static_Stream
begin

text \<open>
  The concurrency of a static stream of \<open>hiway/src/local.rs\<close>: the waiter slots, the
  \<open>contended\<close> flag and the futures of \<open>send\<close> and \<open>recv\<close>, at the grain of single atomic
  operations. A task is one call in progress (a blocking convenience, a strict \<open>try_*\<close> call or
  a future being polled); a step of the system is one atomic operation of one task, so tasks
  interleave arbitrarily. The critical section, which no other task can observe, is one step, and
  so is the turn of \<open>notify\<close> for one slot (a load and the wake it decides). \<open>Hiway_Static_Wakeup\<close>
  shows that no wakeup is lost.

  \<open>AtomicWaker\<close> is the cell of another crate: it is the parameter \<open>aw\<close>, and
  \<open>atomic_cell\<close> states what its documentation promises. The lock is the host's: acquiring it
  while held fails, and \<open>try_lock\<close> may also fail for no visible reason (the flag of \<open>Run\<close>).
\<close>

subsection \<open>Wakers, slots and the shared stream\<close>

record 'w waker_cell =
  cell_new :: 'w
  cell_register :: "nat \<Rightarrow> 'w \<Rightarrow> 'w"
  cell_take :: "'w \<Rightarrow> 'w \<times> nat option"

text \<open>The documented behaviour of \<open>AtomicWaker\<close>: taking returns the waker registered last,
  and registering replaces it.\<close>

definition atomic_cell :: "'w waker_cell \<Rightarrow> bool" where
  "atomic_cell aw \<longleftrightarrow> (\<forall>n c. snd (cell_take aw (cell_register aw n c)) = Some n)"

record 'w waiter =
  sl_occupied :: bool
  sl_interest :: u8
  sl_waker :: 'w

definition waiter_new :: "'w waker_cell \<Rightarrow> 'w waiter" where
  "waiter_new aw = \<lparr>sl_occupied = False, sl_interest = 0, sl_waker = cell_new aw\<rparr>"

text \<open>\<open>StaticStream\<close>; \<open>sh_woken\<close> lists the wakers woken so far, an effect of the code.\<close>

record ('t, 'w) shared =
  sh_state :: "'t stream_state"
  sh_locked :: bool
  sh_waiters :: "'w waiter list"
  sh_contended :: bool
  sh_woken :: "nat list"

definition with_lock :: "'w waker_cell \<Rightarrow> delivery \<Rightarrow> nat \<Rightarrow> nat \<Rightarrow> nat \<Rightarrow> ('t, 'w) shared option" where
  "with_lock aw d cap subs waiters =
     map_option (\<lambda>s. \<lparr>sh_state = s, sh_locked = False,
        sh_waiters = replicate waiters (waiter_new aw), sh_contended = False, sh_woken = []\<rparr>)
      (static_new d cap subs)"

subsection \<open>What runs under the lock\<close>

text \<open>The closures the callers pass to \<open>with\<close>, \<open>try_with\<close> and \<open>poll_with\<close>.\<close>

datatype 't access =
    Acc_Send 't
  | Acc_Recv subscriber_key
  | Acc_Subscribe subscription_role
  | Acc_Close close_reason
  | Acc_Detach subscriber_key
  | Acc_Maintain

fun run_access :: "'t access \<Rightarrow> 't stream_state \<Rightarrow> ('t stream_state \<times> ('t, subscriber_key) stream_out) option"
  where
  "run_access (Acc_Send v) s = (case stream_send_now s v of (s', r) \<Rightarrow> Some (s', Sent r))"
| "run_access (Acc_Recv k) s = map_option (\<lambda>(s', r). (s', Took r)) (stream_recv_now s k)"
| "run_access (Acc_Subscribe role) s = (case stream_subscribe s role of (s', r) \<Rightarrow> Some (s', Joined r))"
| "run_access (Acc_Close reason) s = Some (stream_close s reason, Silent)"
| "run_access (Acc_Detach k) s = Some (stream_detach s k, Silent)"
| "run_access Acc_Maintain s = Some (s, Silent)"

text \<open>What a caller gets: the reply of an immediate call, or the output of a future.\<close>

datatype 't answer =
    Replied "('t, subscriber_key) stream_out"
  | Send_Ready "(unit, 't send_error) result"
  | Receive_Ready "('t stream_item, receive_error) result"

text \<open>The closures of \<open>StaticSendFuture::poll\<close> and \<open>StaticReceiveFuture::poll\<close>;
  \<open>None\<close> is \<open>Poll::Pending\<close>.\<close>

fun send_poll :: "(unit, 't try_send_error) result \<Rightarrow> (unit, 't send_error) result option" where
  "send_poll (Ok _) = Some (Ok ())"
| "send_poll (Err e) =
     (case e of
        TrySend_Full _ \<Rightarrow> None
      | TrySend_Revoked v \<Rightarrow> Some (Err (SendError_Revoked v))
      | TrySend_SequenceExhausted v \<Rightarrow> Some (Err (SendError_SequenceExhausted v))
      | _ \<Rightarrow> Some (Err (SendError_Closed (try_send_into_inner e))))"

fun receive_poll :: "('t stream_item option, receive_error) result
    \<Rightarrow> ('t stream_item, receive_error) result option" where
  "receive_poll (Ok (Some item)) = Some (Ok item)"
| "receive_poll (Err e) = Some (Err e)"
| "receive_poll (Ok None) = None"

fun poll_answer :: "('t, subscriber_key) stream_out \<Rightarrow> 't answer option" where
  "poll_answer (Sent r) = map_option Send_Ready (send_poll r)"
| "poll_answer (Took r) = map_option Receive_Ready (receive_poll r)"
| "poll_answer out = Some (Replied out)"

fun interest_of :: "'t access \<Rightarrow> u8" where
  "interest_of (Acc_Recv _) = Interest_Receive"
| "interest_of _ = Interest_Send"

text \<open>The answer when no waiter slot is free.\<close>

fun waiters_full :: "'t access \<Rightarrow> 't answer" where
  "waiters_full (Acc_Send v) = Send_Ready (Err (SendError_WaitersFull v))"
| "waiters_full _ = Receive_Ready (Err ReceiveError_WaitersFull)"

text \<open>The answer of a strict call that does not get the lock.\<close>

fun strict_contended :: "'t access \<Rightarrow> ('t, subscriber_key) stream_out" where
  "strict_contended (Acc_Send v) = Sent (Err (TrySend_Contended v))"
| "strict_contended _ = Took (Err ReceiveError_Contended)"

subsection \<open>Calls in progress\<close>

datatype mode = Blocking | Strict | Polled

text \<open>Where a call stands. The flag tells the second \<open>try_with\<close> of a poll from the first.\<close>

datatype wait_phase =
    Idle
  | Attempt bool
  | Flagging bool
  | Retry bool
  | Holding bool
  | Swapping bool u8
  | Waking bool u8 bool nat
  | Claiming nat
  | Marking
  | Arming
  | Parked
  | Taking nat
  | Vacating nat
  | Finished

text \<open>\<open>wt_waiter\<close> is the \<open>waiter\<close> field of a future, \<open>wt_waker\<close> the waker of its
  last poll and the ghost \<open>wt_since\<close> the length of the wake list when it was registered.\<close>

record 't wait_task =
  wt_access :: "'t access"
  wt_mode :: mode
  wt_waiter :: "nat option"
  wt_waker :: nat
  wt_since :: nat
  wt_result :: "'t answer option"
  wt_phase :: wait_phase

definition task_new :: "'t access \<Rightarrow> mode \<Rightarrow> 't wait_task" where
  "task_new a m = \<lparr>wt_access = a, wt_mode = m, wt_waiter = None, wt_waker = 0, wt_since = 0,
     wt_result = None, wt_phase = (if m = Polled then Idle else Attempt False)\<rparr>"

abbreviation to_phase :: "wait_phase \<Rightarrow> 't wait_task \<Rightarrow> 't wait_task" where
  "to_phase p t \<equiv> t\<lparr>wt_phase := p\<rparr>"

text \<open>\<open>StaticStream::cancel\<close> of \<open>id.take()\<close>.\<close>

definition start_cancel :: "'t wait_task \<Rightarrow> 't wait_task" where
  "start_cancel t =
     (case wt_waiter t of
        None \<Rightarrow> to_phase Finished t
      | Some i \<Rightarrow> t\<lparr>wt_waiter := None, wt_phase := Taking i\<rparr>)"

text \<open>\<open>StaticStream::register\<close> starts with the slot it has, or claims one.\<close>

definition start_register :: "'t wait_task \<Rightarrow> 't wait_task" where
  "start_register t = to_phase (case wt_waiter t of Some _ \<Rightarrow> Marking | None \<Rightarrow> Claiming 0) t"

text \<open>What follows a \<open>with\<close> or \<open>try_with\<close>: the rest of \<open>poll_with\<close>.\<close>

definition after_access :: "bool \<Rightarrow> 't wait_task \<Rightarrow> 't wait_task" where
  "after_access second t =
     (if wt_mode t \<noteq> Polled then to_phase Finished t
      else if wt_result t \<noteq> None then start_cancel t
      else if second then to_phase Parked t
      else start_register t)"

definition set_slot :: "nat \<Rightarrow> 'w waiter \<Rightarrow> ('t, 'w) shared \<Rightarrow> ('t, 'w) shared" where
  "set_slot i sl sh = sh\<lparr>sh_waiters := (sh_waiters sh)[i := sl]\<rparr>"

text \<open>\<open>AtomicWaker::wake\<close>: take the waker, then run it.\<close>

definition wake_slot :: "'w waker_cell \<Rightarrow> nat \<Rightarrow> ('t, 'w) shared \<Rightarrow> ('t, 'w) shared" where
  "wake_slot aw i sh =
     (let sl = sh_waiters sh ! i; (cell, w) = cell_take aw (sl_waker sl)
      in (set_slot i (sl\<lparr>sl_waker := cell\<rparr>) sh)\<lparr>sh_woken := sh_woken sh @ (case w of None \<Rightarrow> [] | Some w \<Rightarrow> [w])\<rparr>)"

subsection \<open>One atomic operation\<close>

text \<open>Acquiring the lock. \<open>try_with\<close> flags the contention and tries once more; a strict call
  gives up; \<open>with\<close> waits.\<close>

definition attempt_step ::
    "bool \<Rightarrow> bool \<Rightarrow> ('t, 'w) shared \<Rightarrow> 't wait_task \<Rightarrow> (('t, 'w) shared \<times> 't wait_task) option" where
  "attempt_step ok second sh t =
     (if \<not> sh_locked sh \<and> (ok \<or> wt_mode t = Blocking)
      then Some (sh\<lparr>sh_locked := True\<rparr>, to_phase (Holding second) t)
      else case wt_mode t of
             Blocking \<Rightarrow> None
           | Strict \<Rightarrow> Some (sh, t\<lparr>wt_result := Some (Replied (strict_contended (wt_access t))), wt_phase := Finished\<rparr>)
           | Polled \<Rightarrow> Some (sh, to_phase (Flagging second) t))"

text \<open>The second \<open>try_lock\<close> of \<open>try_with\<close>; its failure ends that \<open>try_with\<close>.\<close>

definition retry_step ::
    "bool \<Rightarrow> bool \<Rightarrow> ('t, 'w) shared \<Rightarrow> 't wait_task \<Rightarrow> ('t, 'w) shared \<times> 't wait_task" where
  "retry_step ok second sh t =
     (if \<not> sh_locked sh \<and> ok
      then (sh\<lparr>sh_locked := True\<rparr>, to_phase (Holding second) t)
      else (sh, after_access second t))"

text \<open>The critical section. A strict call leaves \<open>changed\<close> to the next one that notifies;
  \<open>None\<close> is a panic.\<close>

definition holding_step ::
    "bool \<Rightarrow> ('t, 'w) shared \<Rightarrow> 't wait_task \<Rightarrow> (('t, 'w) shared \<times> 't wait_task) option" where
  "holding_step second sh t =
     (case run_access (wt_access t) (sh_state sh) of
        None \<Rightarrow> None
      | Some (s, out) \<Rightarrow>
          (case wt_mode t of
             Strict \<Rightarrow>
               Some (sh\<lparr>sh_state := s, sh_locked := False\<rparr>, t\<lparr>wt_result := Some (Replied out), wt_phase := Finished\<rparr>)
           | _ \<Rightarrow>
               Some (sh\<lparr>sh_state := s\<lparr>ss_changed := 0\<rparr>, sh_locked := False\<rparr>,
                     t\<lparr>wt_result := (if wt_mode t = Polled then poll_answer out else Some (Replied out)),
                       wt_phase := Swapping second (ss_changed s)\<rparr>)))"

text \<open>One slot of the loop of \<open>notify\<close>: the load of its interest and the wake that the load decides
  are one step.\<close>

definition waking_step ::
    "'w waker_cell \<Rightarrow> bool \<Rightarrow> u8 \<Rightarrow> bool \<Rightarrow> nat \<Rightarrow> ('t, 'w) shared \<Rightarrow> 't wait_task
      \<Rightarrow> ('t, 'w) shared \<times> 't wait_task" where
  "waking_step aw second changed contended i sh t =
     (if i < length (sh_waiters sh)
      then (if contended \<or> sl_interest (sh_waiters sh ! i) AND changed \<noteq> 0 then wake_slot aw i sh else sh,
            to_phase (Waking second changed contended (i + 1)) t)
      else (sh, after_access second t))"

text \<open>One \<open>compare_exchange\<close> of \<open>register\<close>'s search for a free slot.\<close>

definition claiming_step ::
    "nat \<Rightarrow> ('t, 'w) shared \<Rightarrow> 't wait_task \<Rightarrow> ('t, 'w) shared \<times> 't wait_task" where
  "claiming_step i sh t =
     (if i < length (sh_waiters sh)
      then (if sl_occupied (sh_waiters sh ! i)
            then (sh, to_phase (Claiming (i + 1)) t)
            else (set_slot i ((sh_waiters sh ! i)\<lparr>sl_occupied := True\<rparr>) sh,
                  t\<lparr>wt_waiter := Some i, wt_phase := Marking\<rparr>))
      else (sh, t\<lparr>wt_result := Some (waiters_full (wt_access t)), wt_phase := Finished\<rparr>))"

text \<open>The two writes of \<open>register\<close> to its slot.\<close>

definition marking_step :: "nat \<Rightarrow> ('t, 'w) shared \<Rightarrow> 't wait_task \<Rightarrow> ('t, 'w) shared \<times> 't wait_task" where
  "marking_step i sh t =
     (set_slot i ((sh_waiters sh ! i)\<lparr>sl_interest := interest_of (wt_access t)\<rparr>) sh, to_phase Arming t)"

definition arming_step ::
    "'w waker_cell \<Rightarrow> nat \<Rightarrow> ('t, 'w) shared \<Rightarrow> 't wait_task \<Rightarrow> ('t, 'w) shared \<times> 't wait_task" where
  "arming_step aw i sh t =
     (let sl = sh_waiters sh ! i
      in (set_slot i (sl\<lparr>sl_waker := cell_register aw (wt_waker t) (sl_waker sl)\<rparr>) sh,
          t\<lparr>wt_since := length (sh_woken sh), wt_phase := Attempt True\<rparr>))"

text \<open>The two writes of \<open>cancel\<close>.\<close>

definition taking_step ::
    "'w waker_cell \<Rightarrow> nat \<Rightarrow> ('t, 'w) shared \<Rightarrow> 't wait_task \<Rightarrow> ('t, 'w) shared \<times> 't wait_task" where
  "taking_step aw i sh t =
     (let sl = sh_waiters sh ! i
      in (set_slot i (sl\<lparr>sl_waker := fst (cell_take aw (sl_waker sl))\<rparr>) sh, to_phase (Vacating i) t))"

definition vacating_step :: "nat \<Rightarrow> ('t, 'w) shared \<Rightarrow> 't wait_task \<Rightarrow> ('t, 'w) shared \<times> 't wait_task" where
  "vacating_step i sh t =
     (set_slot i ((sh_waiters sh ! i)\<lparr>sl_occupied := False\<rparr>) sh, to_phase Finished t)"

text \<open>The next operation of a call. \<open>Swapping\<close> is the first of \<open>notify\<close>.\<close>

definition wait_step ::
    "'w waker_cell \<Rightarrow> bool \<Rightarrow> ('t, 'w) shared \<Rightarrow> 't wait_task \<Rightarrow> (('t, 'w) shared \<times> 't wait_task) option" where
  "wait_step aw ok sh t =
     (case wt_phase t of
        Idle \<Rightarrow> None
      | Attempt second \<Rightarrow> attempt_step ok second sh t
      | Flagging second \<Rightarrow> Some (sh\<lparr>sh_contended := True\<rparr>, to_phase (Retry second) t)
      | Retry second \<Rightarrow> Some (retry_step ok second sh t)
      | Holding second \<Rightarrow> holding_step second sh t
      | Swapping second changed \<Rightarrow>
          Some (sh\<lparr>sh_contended := False\<rparr>, to_phase (Waking second changed (sh_contended sh) 0) t)
      | Waking second changed contended i \<Rightarrow> Some (waking_step aw second changed contended i sh t)
      | Claiming i \<Rightarrow> Some (claiming_step i sh t)
      | Marking \<Rightarrow> map_option (\<lambda>i. marking_step i sh t) (wt_waiter t)
      | Arming \<Rightarrow> map_option (\<lambda>i. arming_step aw i sh t) (wt_waiter t)
      | Parked \<Rightarrow> None
      | Taking i \<Rightarrow> Some (taking_step aw i sh t)
      | Vacating i \<Rightarrow> Some (vacating_step i sh t)
      | Finished \<Rightarrow> None)"

subsection \<open>The system\<close>

type_synonym ('t, 'w) wait_system = "('t, 'w) shared \<times> 't wait_task list"

datatype 't wait_action =
    Begin "'t access" mode
  | Run nat bool
  | Poll nat nat
  | Abandon nat

text \<open>What Rust's types allow: a receiver is dropped when nothing borrows it any more, and never
  used afterwards; futures and strict calls send or receive.\<close>

definition may_begin :: "'t wait_task list \<Rightarrow> 't access \<Rightarrow> mode \<Rightarrow> bool" where
  "may_begin ts a m \<longleftrightarrow>
     (case a of
        Acc_Recv k \<Rightarrow> list_all (\<lambda>t. wt_access t \<noteq> Acc_Detach k) ts
      | Acc_Detach k \<Rightarrow> m = Blocking \<and> list_all (\<lambda>t. wt_access t \<noteq> Acc_Detach k
          \<and> (wt_access t = Acc_Recv k \<longrightarrow> wt_phase t = Finished)) ts
      | Acc_Send _ \<Rightarrow> True
      | _ \<Rightarrow> m = Blocking)"

text \<open>\<open>Poll\<close> starts a poll with a waker; \<open>Abandon\<close> is the drop of a future.\<close>

definition wait_action :: "'w waker_cell \<Rightarrow> 't wait_action \<Rightarrow> ('t, 'w) wait_system \<Rightarrow> ('t, 'w) wait_system option"
  where
  "wait_action aw act sys =
     (case sys of (sh, ts) \<Rightarrow>
       (case act of
          Begin a m \<Rightarrow> if may_begin ts a m then Some (sh, ts @ [task_new a m]) else None
        | Run n ok \<Rightarrow>
            if n < length ts
            then map_option (\<lambda>(sh', t). (sh', ts[n := t])) (wait_step aw ok sh (ts ! n)) else None
        | Poll n w \<Rightarrow>
            if n < length ts \<and> wt_phase (ts ! n) \<in> {Idle, Parked}
            then Some (sh, ts[n := (ts ! n)\<lparr>wt_waker := w, wt_phase := Attempt False\<rparr>]) else None
        | Abandon n \<Rightarrow>
            if n < length ts \<and> wt_phase (ts ! n) \<in> {Idle, Parked}
            then Some (sh, ts[n := start_cancel (ts ! n)]) else None))"

fun wait_actions :: "'w waker_cell \<Rightarrow> 't wait_action list \<Rightarrow> ('t, 'w) wait_system \<Rightarrow> ('t, 'w) wait_system option"
  where
  "wait_actions aw [] sys = Some sys"
| "wait_actions aw (a # as) sys = Option.bind (wait_action aw a sys) (wait_actions aw as)"

inductive wait_reached :: "'w waker_cell \<Rightarrow> delivery \<Rightarrow> nat \<Rightarrow> ('t, 'w) wait_system \<Rightarrow> bool"
  for aw :: "'w waker_cell" and d :: delivery and n :: nat where
  start: "with_lock aw d cap subs n = Some sh \<Longrightarrow> wait_reached aw d n (sh, [])"
| act: "wait_reached aw d n sys \<Longrightarrow> wait_action aw a sys = Some sys' \<Longrightarrow> wait_reached aw d n sys'"

subsection \<open>The calls of the endpoints\<close>

text \<open>What each method of \<open>StaticStream\<close>, \<open>StaticSender\<close> and \<open>StaticReceiver\<close>
  starts. A future does nothing until it is polled.\<close>

definition static_maintain :: "'t wait_action" where
  "static_maintain = Begin Acc_Maintain Blocking"

definition static_subscribe :: "subscription_role \<Rightarrow> 't wait_action" where
  "static_subscribe role = Begin (Acc_Subscribe role) Blocking"

definition static_close :: "close_reason \<Rightarrow> 't wait_action" where
  "static_close reason = Begin (Acc_Close reason) Blocking"

definition static_try_send :: "'t \<Rightarrow> 't wait_action" where
  "static_try_send v = Begin (Acc_Send v) Strict"

definition static_send_now :: "'t \<Rightarrow> 't wait_action" where
  "static_send_now v = Begin (Acc_Send v) Blocking"

definition static_send :: "'t \<Rightarrow> 't wait_action" where
  "static_send v = Begin (Acc_Send v) Polled"

definition static_try_recv :: "subscriber_key \<Rightarrow> 't wait_action" where
  "static_try_recv k = Begin (Acc_Recv k) Strict"

definition static_recv_now :: "subscriber_key \<Rightarrow> 't wait_action" where
  "static_recv_now k = Begin (Acc_Recv k) Blocking"

definition static_recv :: "subscriber_key \<Rightarrow> 't wait_action" where
  "static_recv k = Begin (Acc_Recv k) Polled"

definition static_receiver_drop :: "subscriber_key \<Rightarrow> 't wait_action" where
  "static_receiver_drop k = Begin (Acc_Detach k) Blocking"

text \<open>A prepared publication holds its value; trying it is \<open>try_send\<close>, and a rejection
  returns the publication.\<close>

datatype 't static_publication = StaticPublication (publication_inner: 't)

definition publication_call :: "'t static_publication \<Rightarrow> 't wait_action" where
  "publication_call p = static_try_send (publication_inner p)"

definition publication_result ::
    "(unit, 't try_send_error) result \<Rightarrow> (unit, 't static_publication try_send_error) result" where
  "publication_result r = map_err (try_send_map StaticPublication) r"

lemmas endpoint_calls = static_maintain_def static_subscribe_def static_close_def static_try_send_def
  static_send_now_def static_send_def static_try_recv_def static_recv_now_def static_recv_def
  static_receiver_drop_def publication_call_def

end
