(* ===== verification/Hiway_Static_Wakeup.thy ===== *)
theory Hiway_Static_Wakeup
  imports Hiway_Static_Wait
begin

text \<open>
  No wakeup of a static stream is lost: a parked future whose operation could proceed has been
  woken, or the wakeup is still recorded where the next notification finds it. The invariant
  follows a wakeup from the change flag through the call that takes it and the loop that
  notifies the slots, over every interleaving of the atomic steps of \<open>Hiway_Static_Wait\<close>.
\<close>

subsection \<open>What keeps a parked operation pending\<close>

definition pending :: "'t access \<Rightarrow> 't stream_state \<Rightarrow> bool" where
  "pending a s =
     (case run_access a s of None \<Rightarrow> False | Some (_, out) \<Rightarrow> poll_answer out = None)"

lemma interest_bits [simp]:
  "Interest_Send AND (m OR Interest_Send) \<noteq> 0" "Interest_Receive AND (m OR Interest_Receive) \<noteq> 0"
proof -
  have "bit (Interest_Send AND (m OR Interest_Send)) 0"
    by (simp add: bit_simps Interest_Send_def)
  then show "Interest_Send AND (m OR Interest_Send) \<noteq> 0" by (metis bit_0_eq bot_apply bot_bool_def)
  have "bit (Interest_Receive AND (m OR Interest_Receive)) 1"
    by (simp add: bit_simps Interest_Receive_def)
  then show "Interest_Receive AND (m OR Interest_Receive) \<noteq> 0" by (metis bit_0_eq bot_apply bot_bool_def)
qed

lemma interest_nonzero [simp]: "Interest_Send \<noteq> 0" "Interest_Receive \<noteq> 0"
  by (simp_all add: Interest_Send_def Interest_Receive_def)

lemma interest_all [simp]: "interest_of a AND 0xFF \<noteq> 0"
  by (cases a) (simp_all add: Interest_Send_def Interest_Receive_def)

lemma and_or_neq_0:
  fixes m c d :: u8
  assumes "m AND c \<noteq> 0" shows "m AND (c OR d) \<noteq> 0"
  using assms by (metis bit.conj_disj_distrib or_eq_0_iff)

lemma pending_send:
  "pending (Acc_Send v) s \<longleftrightarrow> ss_closed s = None \<and> ss_tail s < u64_max \<and> ss_tail s \<ge> ss_cap s
     \<and> list_ex (required_at (ss_tail s - ss_cap s)) (ss_cursors s)"
  by (auto simp: pending_def stream_send_now_def checked_add_def split: option.splits if_splits)

lemma recv_pending_state:
  assumes "stream_recv_now s k = Some (s', Ok None)"
  shows "s' = s \<and> ss_closed s = None \<and> (\<exists>c. key_cursor s k = Some c \<and> cu_next c = ss_tail s)"
proof -
  have open_s: "ss_closed s = None" using assms by (auto simp: stream_recv_now_def split: option.splits)
  obtain c where c: "key_cursor s k = Some c"
    using assms open_s by (auto simp: stream_recv_now_def split: option.splits)
  have m: "moved s c = ss_tail s"
    and s': "s' = set_cursor (key_index k) (c\<lparr>cu_next := moved s c\<rparr>) s"
    using assms open_s c
    by (auto simp: stream_recv_now_def Let_def moved_def split: if_splits option.splits)
  have n: "cu_next c = ss_tail s" using m by (auto simp: moved_def max_def split: if_splits)
  have "c\<lparr>cu_next := moved s c\<rparr> = c" using m n by simp
  then have "s' = s"
    using s' c by (cases s) (simp add: set_cursor_def key_cursor_nth list_update_same_conv)
  then show ?thesis using open_s c n by blast
qed

lemma receive_poll_None: "receive_poll r = None \<longleftrightarrow> r = Ok None"
  by (cases r rule: receive_poll.cases) auto

lemma pending_recv:
  "pending (Acc_Recv k) s \<longleftrightarrow> stream_recv_now s k = Some (s, Ok None)"
proof
  assume "pending (Acc_Recv k) s"
  then obtain s' where "stream_recv_now s k = Some (s', Ok None)"
    by (auto simp: pending_def receive_poll_None split: option.splits)
  then show "stream_recv_now s k = Some (s, Ok None)" using recv_pending_state by blast
qed (simp add: pending_def)

lemma pending_recv_iff:
  "pending (Acc_Recv k) s \<longleftrightarrow>
     ss_closed s = None \<and> (\<exists>c. key_cursor s k = Some c \<and> cu_next c = ss_tail s)"
proof
  assume "ss_closed s = None \<and> (\<exists>c. key_cursor s k = Some c \<and> cu_next c = ss_tail s)"
  then obtain c where open_s: "ss_closed s = None" and c: "key_cursor s k = Some c" "cu_next c = ss_tail s"
    by blast
  then have "moved s c = ss_tail s" by (simp add: moved_def)
  then have "\<exists>s'. stream_recv_now s k = Some (s', Ok None)"
    using open_s c by (simp add: stream_recv_now_def Let_def moved_def)
  then show "pending (Acc_Recv k) s" unfolding pending_recv using recv_pending_state by blast
qed (use recv_pending_state pending_recv in blast)

text \<open>An access only ever adds to the change flags.\<close>

lemma recv_moves:
  assumes "stream_recv_now s k = Some (s', r)"
  shows "s' = s \<or> ss_changed s' = ss_changed s OR Interest_Send
    \<or> ss_changed s' = ss_changed s \<and> r = Ok None"
  using assms
  by (auto simp: stream_recv_now_def Let_def touch_def set_cursor_def split: option.splits if_splits)

lemma changed_grows:
  assumes "run_access b s = Some (s', out)" and "m AND ss_changed s \<noteq> 0" and "m = interest_of a"
  shows "m AND ss_changed s' \<noteq> 0"
proof (cases b)
  case (Acc_Send v)
  then show ?thesis using assms
    by (auto simp: stream_send_now_def and_or_neq_0 split: option.splits if_splits)
next
  case (Acc_Recv k)
  then obtain r where "stream_recv_now s k = Some (s', r)" using assms by auto
  from recv_moves [OF this] show ?thesis using assms(2) and_or_neq_0 by auto
next
  case (Acc_Subscribe role)
  then obtain r where "stream_subscribe s role = (s', r)" using assms by (auto split: prod.splits)
  then show ?thesis by (rule stream_subscribe_cases) (use assms in auto)
next
  case (Acc_Detach k)
  then show ?thesis
    using assms and_or_neq_0 by (auto simp: stream_detach_def touch_def split: if_splits)
qed (use assms in \<open>auto simp: stream_close_def\<close>)

text \<open>An operation stays pending, or the access that lets it proceed raises its flag.\<close>

lemma pending_step:
  assumes run: "run_access b s = Some (s', out)" and "pending a s" and "\<And>k. a = Acc_Recv k \<Longrightarrow> b \<noteq> Acc_Detach k"
    and "(\<exists>v. a = Acc_Send v) \<or> (\<exists>k. a = Acc_Recv k)"
  shows "pending a s' \<or> interest_of a AND ss_changed s' \<noteq> 0"
proof (cases b)
  case (Acc_Close reason)
  then show ?thesis using run by (auto simp: stream_close_def)
next
  case Acc_Maintain
  then show ?thesis using run assms(2) by simp
next
  case (Acc_Subscribe role)
  then obtain r where "stream_subscribe s role = (s', r)" using run by (auto split: prod.splits)
  then show ?thesis
  proof (cases rule: stream_subscribe_cases)
    case (joined i)
    have ex: "list_ex P ((ss_cursors s)[i := y])" if "list_ex P (ss_cursors s)" "\<not> P None" for P y
    proof -
      note ex = that(1)
      obtain j where j: "j < length (ss_cursors s)" "P (ss_cursors s ! j)"
        using ex by (force simp: list_ex_iff in_set_conv_nth)
      then have "j \<noteq> i" using joined(3) that(2) by metis
      then have "P ((ss_cursors s)[i := y] ! j)" "j < length ((ss_cursors s)[i := y])" using j by simp_all
      then show ?thesis unfolding list_ex_iff using nth_mem by blast
    qed
    from assms(4) show ?thesis
    proof (elim disjE exE)
      fix v assume "a = Acc_Send v"
      then show ?thesis using assms(2) joined by (auto simp: pending_send required_at_def intro!: ex)
    next
      fix k assume a: "a = Acc_Recv k"
      then obtain c where c: "key_cursor s k = Some c" "cu_next c = ss_tail s"
        using assms(2) by (auto simp: pending_recv_iff)
      then have "key_index k \<noteq> i" using joined(3) by (auto simp: key_cursor_nth)
      then have "key_cursor s' k = Some c" using c joined(7) by (simp add: key_cursor_nth)
      then show ?thesis using a c joined by (auto simp: pending_recv_iff)
    qed
  qed (use assms(2) in simp)
next
  case (Acc_Send v)
  then obtain r where "stream_send_now s v = (s', r)" using run by (auto split: prod.splits)
  then show ?thesis
  proof (cases rule: stream_send_cases)
    case sent
    then show ?thesis using assms(2,4) by (auto simp: pending_send)
  qed (use assms(2) in simp)
next
  case (Acc_Recv k)
  then obtain r where r: "stream_recv_now s k = Some (s', r)" using run by auto
  show ?thesis
  proof (cases "r = Ok None")
    case True
    then show ?thesis using r recv_pending_state assms(2) by blast
  next
    case False
    note moves = recv_moves [OF r]
    from assms(4) show ?thesis
    proof (elim disjE exE)
      fix v assume "a = Acc_Send v"
      then show ?thesis using moves False assms(2) by auto
    next
      fix k' assume a: "a = Acc_Recv k'"
      show ?thesis
      proof (cases "s' = s")
        case False
        have "k \<noteq> k'" using a assms(2) r \<open>r \<noteq> Ok None\<close> by (auto simp: pending_recv)
        obtain c where c: "ss_closed s = None" "key_cursor s k' = Some c" "cu_next c = ss_tail s"
          using assms(2) a by (auto simp: pending_recv_iff)
        obtain d where d: "key_cursor s k = Some d"
          using r False by (auto simp: stream_recv_now_def split: option.splits)
        have "key_index k \<noteq> key_index k'"
          using c(2) d \<open>k \<noteq> k'\<close> by (auto simp: key_cursor_nth intro: subscriber_key.equality)
        then have "key_cursor s' k' = Some c \<and> ss_tail s' = ss_tail s \<and> ss_closed s' = None"
          using r c d
          by (auto simp: stream_recv_now_def Let_def key_cursor_nth split: option.splits if_splits)
        then show ?thesis using a c by (auto simp: pending_recv_iff)
      qed (use assms(2) in simp)
    qed
  qed
next
  case (Acc_Detach k)
  then have s': "s' = stream_detach s k" using run by simp
  show ?thesis
  proof (cases "key_cursor s k")
    case None
    then show ?thesis using s' assms(2) by (simp add: stream_detach_def)
  next
    case (Some d)
    from assms(4) show ?thesis
    proof (elim disjE exE)
      fix v assume "a = Acc_Send v"
      then show ?thesis using s' Some by (simp add: stream_detach_def touch_def)
    next
      fix k' assume a: "a = Acc_Recv k'"
      then have "k \<noteq> k'" using assms(3) Acc_Detach by blast
      obtain c where c: "ss_closed s = None" "key_cursor s k' = Some c" "cu_next c = ss_tail s"
        using assms(2) a by (auto simp: pending_recv_iff)
      have "key_index k \<noteq> key_index k'"
        using c(2) Some \<open>k \<noteq> k'\<close> by (auto simp: key_cursor_nth intro: subscriber_key.equality)
      then have "key_cursor s' k' = Some c"
        using s' c(2) by (auto simp: stream_detach_def key_cursor_nth)
      then show ?thesis using a c s' by (auto simp: pending_recv_iff stream_detach_def)
    qed
  qed
qed

subsection \<open>The invariant\<close>

definition owns :: "'t wait_task \<Rightarrow> nat \<Rightarrow> bool" where
  "owns t i \<longleftrightarrow> wt_waiter t = Some i \<or> wt_phase t = Taking i \<or> wt_phase t = Vacating i"

definition armed :: "'w waker_cell \<Rightarrow> ('t, 'w) shared \<Rightarrow> nat \<Rightarrow> nat \<Rightarrow> bool" where
  "armed aw sh i w \<longleftrightarrow> snd (cell_take aw (sl_waker (sh_waiters sh ! i))) = Some w"

text \<open>Woken since its waker was registered.\<close>

definition woken :: "('t, 'w) shared \<Rightarrow> 't wait_task \<Rightarrow> bool" where
  "woken sh t \<longleftrightarrow> wt_waker t \<in> set (drop (wt_since t) (sh_woken sh))"

text \<open>A notification in flight that still has to wake the slot \<open>i\<close> of this interest.\<close>

fun owes :: "u8 \<Rightarrow> nat \<Rightarrow> wait_phase \<Rightarrow> bool" where
  "owes m i (Swapping _ changed) \<longleftrightarrow> m AND changed \<noteq> 0"
| "owes m i (Waking _ changed contended k) \<longleftrightarrow> k \<le> i \<and> (contended \<or> m AND changed \<noteq> 0)"
| "owes m i _ \<longleftrightarrow> False"

text \<open>A wakeup that has happened or that some notification will deliver.\<close>

definition covered :: "('t, 'w) shared \<Rightarrow> 't wait_task list \<Rightarrow> 't wait_task \<Rightarrow> nat \<Rightarrow> bool" where
  "covered sh ts t i \<longleftrightarrow>
     woken sh t \<or> sh_contended sh \<or> (\<exists>u \<in> set ts. owes (interest_of (wt_access t)) i (wt_phase u))"

definition settled :: "('t, 'w) shared \<Rightarrow> 't wait_task list \<Rightarrow> 't wait_task \<Rightarrow> nat \<Rightarrow> bool" where
  "settled sh ts t i \<longleftrightarrow>
     covered sh ts t i \<or> pending (wt_access t) (sh_state sh)
     \<or> interest_of (wt_access t) AND ss_changed (sh_state sh) \<noteq> 0"

definition registered :: "'w waker_cell \<Rightarrow> ('t, 'w) shared \<Rightarrow> 't wait_task \<Rightarrow> nat \<Rightarrow> bool" where
  "registered aw sh t i \<longleftrightarrow>
     sl_interest (sh_waiters sh ! i) = interest_of (wt_access t)
     \<and> wt_since t \<le> length (sh_woken sh) \<and> (armed aw sh i (wt_waker t) \<or> woken sh t)"

text \<open>The phases after registering the waker, and those after the second look at the state.\<close>

fun past :: "wait_phase \<Rightarrow> bool" where
  "past (Attempt second) = second"
| "past (Flagging second) = second"
| "past (Retry second) = second"
| "past (Holding second) = second"
| "past (Swapping second _) = second"
| "past (Waking second _ _ _) = second"
| "past Parked = True"
| "past _ = False"

fun looked :: "wait_phase \<Rightarrow> bool" where
  "looked (Swapping second _) = second"
| "looked (Waking second _ _ _) = second"
| "looked Parked = True"
| "looked _ = False"

definition shape :: "'t wait_task \<Rightarrow> bool" where
  "shape t \<longleftrightarrow>
     (wt_mode t = Polled \<longrightarrow> (\<exists>v. wt_access t = Acc_Send v) \<or> (\<exists>k. wt_access t = Acc_Recv k))
     \<and> (past (wt_phase t) \<or> wt_phase t = Marking \<or> wt_phase t = Arming
          \<longrightarrow> wt_mode t = Polled \<and> wt_waiter t \<noteq> None)
     \<and> ((\<exists>i. wt_phase t = Claiming i) \<longrightarrow> wt_mode t = Polled)
     \<and> ((\<exists>i. wt_phase t \<in> {Claiming i, Taking i, Vacating i}) \<longrightarrow> wt_waiter t = None)
     \<and> (wt_mode t \<noteq> Polled \<longrightarrow> wt_waiter t = None)"

definition slot_ok :: "'w waker_cell \<Rightarrow> ('t, 'w) shared \<Rightarrow> 't wait_task list \<Rightarrow> 't wait_task \<Rightarrow> nat \<Rightarrow> bool"
  where
  "slot_ok aw sh ts t i \<longleftrightarrow>
     (wt_phase t = Arming \<longrightarrow> sl_interest (sh_waiters sh ! i) = interest_of (wt_access t))
     \<and> (past (wt_phase t) \<longrightarrow> registered aw sh t i)
     \<and> (wt_phase t = Retry True \<longrightarrow> covered sh ts t i)
     \<and> (looked (wt_phase t) \<and> (wt_phase t = Parked \<or> wt_result t = None) \<longrightarrow> settled sh ts t i)"

definition task_ok :: "'w waker_cell \<Rightarrow> ('t, 'w) shared \<Rightarrow> 't wait_task list \<Rightarrow> 't wait_task \<Rightarrow> bool" where
  "task_ok aw sh ts t \<longleftrightarrow>
     shape t
     \<and> (\<forall>i. owns t i \<longrightarrow> i < length (sh_waiters sh) \<and> sl_occupied (sh_waiters sh ! i))
     \<and> (\<forall>i. wt_waiter t = Some i \<longrightarrow> slot_ok aw sh ts t i)"

definition sole_owners :: "'t wait_task list \<Rightarrow> bool" where
  "sole_owners ts \<longleftrightarrow>
     (\<forall>a b i. a < length ts \<longrightarrow> b < length ts \<longrightarrow> a \<noteq> b \<longrightarrow> owns (ts ! a) i \<longrightarrow> \<not> owns (ts ! b) i)"

definition borrows_ok :: "'t wait_task list \<Rightarrow> bool" where
  "borrows_ok ts \<longleftrightarrow>
     (\<forall>t \<in> set ts. \<forall>u \<in> set ts. \<forall>k. wt_access t = Acc_Detach k \<longrightarrow> wt_access u = Acc_Recv k
        \<longrightarrow> wt_phase u = Finished)"

definition wait_inv :: "'w waker_cell \<Rightarrow> nat \<Rightarrow> ('t, 'w) wait_system \<Rightarrow> bool" where
  "wait_inv aw n sys \<longleftrightarrow>
     length (sh_waiters (fst sys)) = n \<and> (\<exists>xs. static_good (sh_state (fst sys), xs))
     \<and> sole_owners (snd sys) \<and> borrows_ok (snd sys)
     \<and> (\<forall>t \<in> set (snd sys). task_ok aw (fst sys) (snd sys) t)"

text \<open>What a step of another task may do to a task's slot.\<close>

lemma task_ok_other:
  assumes "task_ok aw sh ts u"
    and "\<And>i. owns u i \<Longrightarrow> i < length (sh_waiters sh) \<Longrightarrow> sl_occupied (sh_waiters sh ! i)
      \<Longrightarrow> i < length (sh_waiters sh') \<and> sl_occupied (sh_waiters sh' ! i)"
    and "\<And>i. wt_waiter u = Some i \<Longrightarrow> i < length (sh_waiters sh)
      \<Longrightarrow> sl_interest (sh_waiters sh' ! i) = sl_interest (sh_waiters sh ! i)"
    and "\<And>i. wt_waiter u = Some i \<Longrightarrow> i < length (sh_waiters sh) \<Longrightarrow> registered aw sh u i \<Longrightarrow> registered aw sh' u i"
    and "\<And>i. wt_waiter u = Some i \<Longrightarrow> i < length (sh_waiters sh) \<Longrightarrow> registered aw sh u i \<Longrightarrow> covered sh ts u i
      \<Longrightarrow> covered sh' ts' u i"
    and "\<And>i. wt_waiter u = Some i \<Longrightarrow> i < length (sh_waiters sh) \<Longrightarrow> registered aw sh u i \<Longrightarrow> looked (wt_phase u)
      \<Longrightarrow> settled sh ts u i \<Longrightarrow> settled sh' ts' u i"
  shows "task_ok aw sh' ts' u"
proof -
  have look: "looked p \<Longrightarrow> past p" for p by (cases p) auto
  have own: "wt_waiter u = Some i \<Longrightarrow> owns u i" for i by (simp add: owns_def)
  have slot: "slot_ok aw sh' ts' u i" if i: "wt_waiter u = Some i" for i
  proof -
    have len: "i < length (sh_waiters sh)" and ok: "slot_ok aw sh ts u i"
      using assms(1) i own [OF i] by (auto simp: task_ok_def)
    show ?thesis
      using ok assms(3-6) [OF i len] look [of "wt_phase u"] by (auto simp: slot_ok_def)
  qed
  show ?thesis
    using assms(1,2) slot by (auto simp: task_ok_def)
qed

text \<open>How each kind of change is seen by the tasks that do not make it.\<close>

lemma woken_grows: "woken sh t \<Longrightarrow> sh_woken sh' = sh_woken sh @ ws \<Longrightarrow> woken sh' t"
  by (auto simp: woken_def)

lemma set_slot_simps [simp]:
  "sh_state (set_slot i sl sh) = sh_state sh" "sh_locked (set_slot i sl sh) = sh_locked sh"
  "sh_contended (set_slot i sl sh) = sh_contended sh" "sh_woken (set_slot i sl sh) = sh_woken sh"
  "sh_waiters (set_slot i sl sh) = (sh_waiters sh)[i := sl]"
  by (simp_all add: set_slot_def)

lemma covered_cong:
  assumes "sh_woken sh' = sh_woken sh" and "sh_contended sh' = sh_contended sh"
    and "owes (interest_of (wt_access u)) i (wt_phase t) \<Longrightarrow> owes (interest_of (wt_access u)) i (wt_phase t')"
    and "covered sh ts u i" and "n < length ts" and "ts ! n = t"
  shows "covered sh' (ts[n := t']) u i"
proof -
  let ?m = "interest_of (wt_access u)"
  have "\<exists>x \<in> set (ts[n := t']). owes ?m i (wt_phase x)" if "x \<in> set ts" "owes ?m i (wt_phase x)" for x
  proof -
    have "\<exists>j < length ts. x = ts ! j" using that(1) by (auto simp: in_set_conv_nth)
    then obtain j where j: "j < length ts" "x = ts ! j" by blast
    show ?thesis
    proof (cases "j = n")
      case True
      then have "owes ?m i (wt_phase t')" using that(2) j assms(3,6) by simp
      then show ?thesis using assms(5) set_update_memI by metis
    next
      case False
      then have "ts[n := t'] ! j = x" using j by simp
      then show ?thesis using that(2) j(1) by (metis length_list_update nth_mem)
    qed
  qed
  then show ?thesis using assms(1,2,4) unfolding covered_def woken_def by metis
qed

text \<open>A step that leaves the stream, the flag and the notifications alone, and changes at most a
  slot of its own.\<close>

lemma task_ok_slot:
  assumes "task_ok aw sh ts u" and "sole_owners ts" and "n < length ts" and "b < length ts" and "b \<noteq> n"
    and "ts ! b = u" and "owns (ts ! n) i \<or> \<not> sl_occupied (sh_waiters sh ! i)"
    and "\<And>m j. owes m j (wt_phase (ts ! n)) \<Longrightarrow> owes m j (wt_phase t')"
  shows "task_ok aw (set_slot i sl sh) (ts[n := t']) u"
proof -
  have other: "owns u j \<Longrightarrow> i \<noteq> j" for j
    using assms(1-7) unfolding sole_owners_def task_ok_def by metis
  have own: "wt_waiter u = Some j \<Longrightarrow> i \<noteq> j" for j using other by (simp add: owns_def)
  note cov = covered_cong [where sh' = "set_slot i sl sh" and sh = sh, OF _ _ assms(8) _ assms(3) refl]
  show ?thesis
  proof (rule task_ok_other [OF assms(1)])
    fix j assume j: "wt_waiter u = Some j"
    show "registered aw sh u j \<Longrightarrow> registered aw (set_slot i sl sh) u j"
      using own [OF j] by (auto simp: registered_def armed_def woken_def)
    show "covered sh ts u j \<Longrightarrow> covered (set_slot i sl sh) (ts[n := t']) u j"
      using cov by simp
    show "settled sh ts u j \<Longrightarrow> settled (set_slot i sl sh) (ts[n := t']) u j"
      using cov [of u j] by (auto simp: settled_def)
    show "sl_interest (sh_waiters (set_slot i sl sh) ! j) = sl_interest (sh_waiters sh ! j)"
      using own [OF j] by simp
  qed (use other in auto)
qed

lemma task_ok_same:
  assumes "task_ok aw sh ts u" and "n < length ts"
    and "\<And>m j. owes m j (wt_phase (ts ! n)) \<Longrightarrow> owes m j (wt_phase t')"
  shows "task_ok aw (sh\<lparr>sh_locked := l\<rparr>) (ts[n := t']) u"
proof -
  note cov = covered_cong [where sh' = "sh\<lparr>sh_locked := l\<rparr>" and sh = sh, OF _ _ assms(3) _ assms(2) refl]
  show ?thesis
    by (rule task_ok_other [OF assms(1)])
      (use cov in \<open>auto simp: settled_def registered_def armed_def woken_def\<close>)
qed

lemma task_ok_flag:
  assumes "task_ok aw sh ts u" and "n < length ts"
  shows "task_ok aw (sh\<lparr>sh_contended := True\<rparr>) ts' u"
  by (rule task_ok_other [OF assms(1)])
    (auto simp: settled_def registered_def armed_def woken_def covered_def)

text \<open>The three steps that carry the notifications: each keeps every task covered or settled.\<close>

lemma pending_changed [simp]: "pending a (s\<lparr>ss_changed := c\<rparr>) = pending a s"
proof (cases "(\<exists>v. a = Acc_Send v) \<or> (\<exists>k. a = Acc_Recv k)")
  case True
  then show ?thesis by (auto simp: pending_send pending_recv_iff key_cursor_nth)
next
  case False
  then show ?thesis by (cases a) (auto simp: pending_def split: prod.splits)
qed

lemma changes_phase [simp]:
  "woken sh (to_phase p t) = woken sh t" "covered sh ts (to_phase p t) i = covered sh ts t i"
  "settled sh ts (to_phase p t) i = settled sh ts t i" "registered aw sh (to_phase p t) i = registered aw sh t i"
  by (simp_all add: woken_def covered_def settled_def registered_def)

lemma changes_result [simp]:
  "woken sh (t\<lparr>wt_result := r\<rparr>) = woken sh t" "covered sh ts (t\<lparr>wt_result := r\<rparr>) i = covered sh ts t i"
  "settled sh ts (t\<lparr>wt_result := r\<rparr>) i = settled sh ts t i"
  "registered aw sh (t\<lparr>wt_result := r\<rparr>) i = registered aw sh t i"
  by (simp_all add: woken_def covered_def settled_def registered_def)

lemma owes_updated:
  assumes "n < length ts" and "owes m i (wt_phase t')"
  shows "\<exists>x \<in> set (ts[n := t']). owes m i (wt_phase x)"
  using assms set_update_memI by metis

lemma registered_state [simp]:
  "registered aw (sh\<lparr>sh_state := s\<rparr>) u i = registered aw sh u i"
  "registered aw (sh\<lparr>sh_locked := l\<rparr>) u i = registered aw sh u i"
  "registered aw (sh\<lparr>sh_contended := c\<rparr>) u i = registered aw sh u i"
  by (simp_all add: registered_def armed_def woken_def)

lemma hold_transfer:
  assumes "run_access b (sh_state sh) = Some (s, out)" and "n < length ts"
    and "\<And>k. wt_access u = Acc_Recv k \<Longrightarrow> b \<noteq> Acc_Detach k"
    and "(\<exists>v. wt_access u = Acc_Send v) \<or> (\<exists>k. wt_access u = Acc_Recv k)"
    and "\<And>m i. \<not> owes m i (wt_phase (ts ! n))"
    and "sh' = sh\<lparr>sh_state := s, sh_locked := l\<rparr>
      \<or> sh' = sh\<lparr>sh_state := s\<lparr>ss_changed := 0\<rparr>, sh_locked := l\<rparr> \<and> wt_phase t' = Swapping second (ss_changed s)"
  shows "covered sh ts u i \<Longrightarrow> covered sh' (ts[n := t']) u i"
    and "settled sh ts u i \<Longrightarrow> settled sh' (ts[n := t']) u i"
proof -
  have same: "sh_woken sh' = sh_woken sh" "sh_contended sh' = sh_contended sh" using assms(6) by auto
  show cov: "covered sh' (ts[n := t']) u i" if "covered sh ts u i"
    using covered_cong [OF same _ that assms(2) refl] assms(5) by blast
  assume "settled sh ts u i"
  then consider "covered sh ts u i" | "pending (wt_access u) (sh_state sh)"
    | "interest_of (wt_access u) AND ss_changed (sh_state sh) \<noteq> 0" by (auto simp: settled_def)
  then show "settled sh' (ts[n := t']) u i"
  proof cases
    case 1
    then show ?thesis using cov by (simp add: settled_def)
  next
    case 2
    then have "pending (wt_access u) s \<or> interest_of (wt_access u) AND ss_changed s \<noteq> 0"
      using pending_step [OF assms(1) _ assms(3,4)] by blast
    then show ?thesis using assms(6) owes_updated [OF assms(2), of "interest_of (wt_access u)" i t']
      by (auto simp: settled_def covered_def)
  next
    case 3
    then have "interest_of (wt_access u) AND ss_changed s \<noteq> 0" using changed_grows [OF assms(1)] by blast
    then show ?thesis using assms(6) owes_updated [OF assms(2), of "interest_of (wt_access u)" i t']
      by (auto simp: settled_def covered_def)
  qed
qed

lemma swap_transfer:
  assumes "n < length ts" and "wt_phase (ts ! n) = Swapping second changed"
    and "wt_phase t' = Waking second changed (sh_contended sh) 0"
  shows "covered sh ts u i \<Longrightarrow> covered (sh\<lparr>sh_contended := False\<rparr>) (ts[n := t']) u i"
    and "settled sh ts u i \<Longrightarrow> settled (sh\<lparr>sh_contended := False\<rparr>) (ts[n := t']) u i"
proof -
  show cov: "covered (sh\<lparr>sh_contended := False\<rparr>) (ts[n := t']) u i" if c: "covered sh ts u i"
  proof (cases "sh_contended sh")
    case True
    then show ?thesis
      using owes_updated [OF assms(1), of "interest_of (wt_access u)" i t'] assms(3) by (auto simp: covered_def)
  next
    case False
    then have "covered (sh\<lparr>sh_contended := False\<rparr>) ts u i" using c by (auto simp: covered_def woken_def)
    moreover have "owes m j (wt_phase (ts ! n)) \<Longrightarrow> owes m j (wt_phase t')" for m j
      using assms(2,3) by simp
    ultimately show ?thesis by (intro covered_cong [OF refl refl _ _ assms(1) refl])
  qed
  assume "settled sh ts u i"
  then show "settled (sh\<lparr>sh_contended := False\<rparr>) (ts[n := t']) u i"
    using cov by (auto simp: settled_def)
qed

lemma wake_slot_simps [simp]:
  "sh_state (wake_slot aw i sh) = sh_state sh" "sh_locked (wake_slot aw i sh) = sh_locked sh"
  "sh_contended (wake_slot aw i sh) = sh_contended sh"
  "length (sh_waiters (wake_slot aw i sh)) = length (sh_waiters sh)"
  by (simp_all add: wake_slot_def Let_def split: prod.splits)

lemma wake_slot_nth [simp]:
  assumes "j < length (sh_waiters sh)"
  shows "sl_interest (sh_waiters (wake_slot aw i sh) ! j) = sl_interest (sh_waiters sh ! j)"
    and "sl_occupied (sh_waiters (wake_slot aw i sh) ! j) = sl_occupied (sh_waiters sh ! j)"
  using assms by (cases "i = j"; simp add: wake_slot_def Let_def split: prod.splits)+

lemma wake_slot_woken: "\<exists>ws. sh_woken (wake_slot aw i sh) = sh_woken sh @ ws"
  by (simp add: wake_slot_def Let_def split: prod.splits)

lemma wake_slot_armed:
  assumes "registered aw sh u j" and "j < length (sh_waiters sh)"
  shows "registered aw (wake_slot aw i sh) u j" and "j = i \<Longrightarrow> woken (wake_slot aw i sh) u"
proof -
  have since: "wt_since u \<le> length (sh_woken sh)" using assms(1) by (simp add: registered_def)
  obtain ws where ws: "sh_woken (wake_slot aw i sh) = sh_woken sh @ ws" using wake_slot_woken by blast
  have grows: "woken sh u \<Longrightarrow> woken (wake_slot aw i sh) u" by (rule woken_grows [OF _ ws])
  show hit: "woken (wake_slot aw i sh) u" if "j = i"
  proof (cases "woken sh u")
    case False
    then have "snd (cell_take aw (sl_waker (sh_waiters sh ! i))) = Some (wt_waker u)"
      using assms(1) that by (simp add: registered_def armed_def)
    then show ?thesis using since by (auto simp: woken_def wake_slot_def Let_def split: prod.splits)
  qed (rule grows)
  have "armed aw (wake_slot aw i sh) j w = armed aw sh j w" if "j \<noteq> i" for w
    using that by (simp add: armed_def wake_slot_def Let_def split: prod.splits)
  then show "registered aw (wake_slot aw i sh) u j"
    using assms hit grows since ws by (cases "j = i") (auto simp: registered_def)
qed

lemma waking_transfer:
  assumes "n < length ts" and "wt_phase (ts ! n) = Waking second changed contended k"
    and "k < length (sh_waiters sh)"
    and "waking_step aw second changed contended k sh (ts ! n) = (sh', t')"
    and "registered aw sh u i" and "i < length (sh_waiters sh)"
  shows "registered aw sh' u i"
    and "covered sh ts u i \<Longrightarrow> covered sh' (ts[n := t']) u i"
    and "settled sh ts u i \<Longrightarrow> settled sh' (ts[n := t']) u i"
proof -
  let ?c = "contended \<or> sl_interest (sh_waiters sh ! k) AND changed \<noteq> 0"
  have sh': "sh' = (if ?c then wake_slot aw k sh else sh)"
    and t': "wt_phase t' = Waking second changed contended (k + 1)"
    using assms(3,4) by (auto simp: waking_step_def)
  show "registered aw sh' u i" using wake_slot_armed(1) [OF assms(5,6)] assms(5) sh' by simp
  obtain ws where ws: "sh_woken sh' = sh_woken sh @ ws" using sh' wake_slot_woken [of aw k sh] by (cases ?c) auto
  show cov: "covered sh' (ts[n := t']) u i" if c: "covered sh ts u i"
  proof (cases "i = k \<and> ?c")
    case True
    then have "woken sh' u" using wake_slot_armed(2) [OF assms(5,6)] sh' by simp
    then show ?thesis by (simp add: covered_def)
  next
    case False
    have "owes (interest_of (wt_access u)) i (wt_phase (ts ! n))
        \<Longrightarrow> owes (interest_of (wt_access u)) i (wt_phase t')"
      using False assms(2,5) t' by (cases "i = k") (auto simp: registered_def)
    moreover have "sh_contended sh' = sh_contended sh" using sh' by simp
    moreover have "woken sh u \<Longrightarrow> woken sh' u" by (rule woken_grows [OF _ ws])
    moreover have "\<exists>x \<in> set (ts[n := t']). owes m i (wt_phase x)"
      if x: "x \<in> set ts" "owes m i (wt_phase x)" and move: "owes m i (wt_phase (ts ! n)) \<Longrightarrow> owes m i (wt_phase t')"
      for x m
    proof (cases "x = ts ! n")
      case True
      then show ?thesis using x(2) move owes_updated [OF assms(1)] by blast
    next
      case False
      then have "x \<in> set (ts[n := t'])" using x(1)
        by (metis in_set_conv_nth length_list_update nth_list_update_neq)
      then show ?thesis using x(2) by blast
    qed
    ultimately show ?thesis using c unfolding covered_def by blast
  qed
  assume "settled sh ts u i"
  then show "settled sh' (ts[n := t']) u i"
    using cov sh' by (auto simp: settled_def)
qed

subsection \<open>Every step keeps it\<close>

lemma wait_inv_update:
  assumes "wait_inv aw N (sh, ts)" and "n < length ts" and "length (sh_waiters sh') = length (sh_waiters sh)"
    and "\<And>xs. static_good (sh_state sh, xs) \<Longrightarrow> \<exists>xs. static_good (sh_state sh', xs)"
    and "\<And>i. owns t' i \<Longrightarrow> owns (ts ! n) i \<or> i < length (sh_waiters sh) \<and> \<not> sl_occupied (sh_waiters sh ! i)"
    and "wt_access t' = wt_access (ts ! n)" and "wt_phase (ts ! n) \<noteq> Finished"
    and "task_ok aw sh ts (ts ! n) \<Longrightarrow> task_ok aw sh' (ts[n := t']) t'"
    and "\<And>b. b < length ts \<Longrightarrow> b \<noteq> n \<Longrightarrow> task_ok aw sh ts (ts ! b) \<Longrightarrow> task_ok aw sh' (ts[n := t']) (ts ! b)"
  shows "wait_inv aw N (sh', ts[n := t'])"
proof -
  have ok: "b < length ts \<Longrightarrow> task_ok aw sh ts (ts ! b)" for b
    using assms(1) by (simp add: wait_inv_def)
  have sole: "sole_owners ts" and bor: "borrows_ok ts" using assms(1) by (simp_all add: wait_inv_def)
  have owned: "b < length ts \<Longrightarrow> owns (ts ! b) i \<Longrightarrow> sl_occupied (sh_waiters sh ! i)" for b i
    using ok by (simp add: task_ok_def)
  have soleD: False if "a < length ts" "b < length ts" "a \<noteq> b" "owns (ts ! a) i" "owns (ts ! b) i" for a b i
    using sole that unfolding sole_owners_def by blast
  have new: False if "b < length ts" "b \<noteq> n" "owns (ts ! b) i" "owns t' i" for b i
    using assms(5) [OF that(4)] soleD [OF that(1) assms(2) that(2,3)] owned [OF that(1,3)] by blast
  have "sole_owners (ts[n := t'])"
    unfolding sole_owners_def
  proof (intro allI impI notI)
    fix a b i
    assume *: "a < length (ts[n := t'])" "b < length (ts[n := t'])" "a \<noteq> b"
      "owns (ts[n := t'] ! a) i" "owns (ts[n := t'] ! b) i"
    then have old: "a < length ts" "b < length ts" by simp_all
    consider "a = n" | "b = n" | "a \<noteq> n" "b \<noteq> n" by blast
    then show False
    proof cases
      case 1
      then show ?thesis using * old new [of b i] by simp
    next
      case 2
      then show ?thesis using * old new [of a i] by simp
    next
      case 3
      then show ?thesis using * old soleD [of a b i] by simp
    qed
  qed
  moreover have "borrows_ok (ts[n := t'])"
  proof -
    have "wt_phase u = Finished"
      if "x \<in> set (ts[n := t'])" "u \<in> set (ts[n := t'])" "wt_access x = Acc_Detach k" "wt_access u = Acc_Recv k" for x u k
    proof -
      have x: "\<exists>x' \<in> set ts. wt_access x' = Acc_Detach k"
        using that(1,3) assms(2,6) set_update_subset_insert [of ts n t'] by (metis insert_iff nth_mem subsetD)
      have "u \<in> set ts"
      proof (rule ccontr)
        assume "u \<notin> set ts"
        then have "u = t'" using that(2) set_update_subset_insert [of ts n t'] by blast
        then have "wt_access (ts ! n) = Acc_Recv k" using that(4) assms(6) by simp
        then show False using x bor assms(2,7) unfolding borrows_ok_def by (metis nth_mem)
      qed
      then show ?thesis using x bor that(4) unfolding borrows_ok_def by blast
    qed
    then show ?thesis unfolding borrows_ok_def by blast
  qed
  moreover have "task_ok aw sh' (ts[n := t']) u" if "u \<in> set (ts[n := t'])" for u
  proof -
    have "\<exists>b < length ts. u = ts[n := t'] ! b" using that by (auto simp: in_set_conv_nth)
    then obtain b where b: "b < length ts" "u = ts[n := t'] ! b" by blast
    then show ?thesis using ok assms(2,8,9) by (cases "b = n") simp_all
  qed
  ultimately show ?thesis using assms(1,3,4) by (auto simp: wait_inv_def)
qed

text \<open>Only the phase and the notifications it owes matter for a step on the task alone.\<close>

lemma covered_move:
  assumes "covered sh ts u i" and "n < length ts" and "sh_woken sh' = sh_woken sh"
    and "sh_contended sh \<Longrightarrow> sh_contended sh'" and "\<And>m. owes m i (wt_phase (ts ! n)) \<Longrightarrow> owes m i (wt_phase t')"
  shows "covered sh' (ts[n := t']) u i"
proof -
  have "covered (sh'\<lparr>sh_contended := sh_contended sh\<rparr>) (ts[n := t']) u i"
    by (rule covered_cong [OF _ _ _ assms(1,2) refl]) (use assms in auto)
  then show ?thesis using assms(4) by (auto simp: covered_def woken_def)
qed

lemma settled_move:
  assumes "settled sh ts u i" and "n < length ts" and "sh_woken sh' = sh_woken sh"
    and "sh_contended sh \<Longrightarrow> sh_contended sh'" and "\<And>m. owes m i (wt_phase (ts ! n)) \<Longrightarrow> owes m i (wt_phase t')"
    and "sh_state sh' = sh_state sh"
  shows "settled sh' (ts[n := t']) u i"
  using covered_move [OF _ assms(2-5)] assms(1,6) by (auto simp: settled_def)

lemma task_ok_move:
  assumes "task_ok aw sh ts u" and "n < length ts" and "sh_woken sh' = sh_woken sh"
    and "sh_contended sh \<Longrightarrow> sh_contended sh'" and "sh_state sh' = sh_state sh" and "sh_waiters sh' = sh_waiters sh"
    and "\<And>m i. i < length (sh_waiters sh) \<Longrightarrow> owes m i (wt_phase (ts ! n)) \<Longrightarrow> owes m i (wt_phase t')"
  shows "task_ok aw sh' (ts[n := t']) u"
  by (rule task_ok_other [OF assms(1)])
    (use covered_move [OF _ assms(2-4)] settled_move [OF _ assms(2-4)] assms in
      \<open>auto simp: registered_def armed_def woken_def\<close>)

lemma task_ok_phase:
  assumes "task_ok aw sh ts t" and "n < length ts" and "t = ts ! n"
    and "wt_phase t = Attempt second \<and> p \<in> {Flagging second, Holding second}
      \<or> wt_phase t = Flagging second \<and> p = Retry second \<and> sh_contended sh'
      \<or> wt_phase t = Retry second \<and> p = Holding second"
    and "sh_woken sh' = sh_woken sh" and "sh_contended sh \<Longrightarrow> sh_contended sh'"
    and "sh_waiters sh' = sh_waiters sh"
  shows "task_ok aw sh' (ts[n := to_phase p t]) (to_phase p t)"
proof -
  have "owns (to_phase p t) i \<longleftrightarrow> owns t i" for i using assms(4) by (auto simp: owns_def)
  moreover have "shape (to_phase p t)"
    using assms(1,4) unfolding task_ok_def shape_def by (elim conjE disjE) auto
  moreover have "registered aw sh t i \<Longrightarrow> registered aw sh' t i" for i
    using assms(5,7) by (simp add: registered_def armed_def woken_def)
  ultimately show ?thesis
    using assms(1,4,7) by (auto simp: task_ok_def slot_ok_def covered_def)
qed

text \<open>The end of a \<open>try_with\<close>.\<close>

lemma owns_after [simp]: "owns (after_access second t) i \<longrightarrow> owns t i"
  by (auto simp: after_access_def start_cancel_def start_register_def owns_def split: option.splits if_splits)

lemma access_after [simp]: "wt_access (after_access second t) = wt_access t"
  by (auto simp: after_access_def start_cancel_def start_register_def split: option.splits)

lemma owes_after [simp]: "\<not> owes m i (wt_phase (after_access second t))"
  by (auto simp: after_access_def start_cancel_def start_register_def split: option.splits)

lemma task_ok_after:
  assumes "task_ok aw sh ts t" and "n < length ts" and "t = ts ! n"
    and "wt_phase t = Retry second \<or> (\<exists>ch fl k. wt_phase t = Waking second ch fl k \<and> length (sh_waiters sh) \<le> k)"
  shows "task_ok aw sh (ts[n := after_access second t]) (after_access second t)"
proof -
  have own: "owns (after_access second t) i \<Longrightarrow> i < length (sh_waiters sh) \<and> sl_occupied (sh_waiters sh ! i)" for i
    using assms(1) owns_after [of second t i] by (auto simp: task_ok_def)
  have len: "wt_waiter t = Some i \<Longrightarrow> i < length (sh_waiters sh)" for i
    using assms(1) by (auto simp: task_ok_def owns_def)
  have quiet: "wt_waiter t = Some i \<Longrightarrow> \<not> owes m i (wt_phase t)" for m i
    using assms(4) len [of i] by auto
  have shape: "shape (after_access second t)"
  proof -
    have acc: "wt_mode t = Polled \<Longrightarrow> (\<exists>v. wt_access t = Acc_Send v) \<or> (\<exists>k. wt_access t = Acc_Recv k)"
      and none: "wt_mode t \<noteq> Polled \<Longrightarrow> wt_waiter t = None"
      and some: "second \<Longrightarrow> wt_waiter t \<noteq> None"
      using assms(1,4) by (auto simp: task_ok_def shape_def)
    show ?thesis
    proof (cases "wt_mode t = Polled")
      case True
      then show ?thesis using acc [OF True] some
        by (cases "wt_waiter t"; cases second)
          (simp_all add: shape_def after_access_def start_cancel_def start_register_def)
    qed (simp add: shape_def after_access_def none)
  qed
  have slot: "slot_ok aw sh (ts[n := to_phase Parked t]) (to_phase Parked t) i"
    if "wt_waiter t = Some i" "second" "wt_result t = None" for i
  proof -
    have "registered aw sh t i" "settled sh ts t i"
      using assms(1,4) that by (auto simp: task_ok_def slot_ok_def settled_def)
    moreover from this(2) have "settled sh (ts[n := to_phase Parked t]) t i"
      by (rule settled_move [OF _ assms(2)]) (use quiet [OF that(1)] assms(3) in auto)
    ultimately show ?thesis by (simp add: slot_ok_def)
  qed
  consider "wt_mode t \<noteq> Polled" | "wt_mode t = Polled" "wt_result t \<noteq> None"
    | "wt_mode t = Polled" "wt_result t = None" "second"
    | "wt_mode t = Polled" "wt_result t = None" "\<not> second" by blast
  then have "slot_ok aw sh (ts[n := after_access second t]) (after_access second t) i"
    if "wt_waiter (after_access second t) = Some i" for i
  proof cases
    case 1
    then have "wt_waiter t = None" using assms(1) by (simp add: task_ok_def shape_def)
    then show ?thesis using that 1 by (simp add: after_access_def)
  next
    case 2
    then show ?thesis using that by (cases "wt_waiter t") (auto simp: after_access_def start_cancel_def)
  next
    case 3
    then show ?thesis using that slot by (simp add: after_access_def)
  next
    case 4
    then show ?thesis using that
      by (cases "wt_waiter t") (auto simp: after_access_def start_register_def slot_ok_def)
  qed
  then show ?thesis using own shape unfolding task_ok_def by blast
qed

lemma static_good_access:
  assumes "run_access a s = Some (s', out)" and "static_good (s, xs)"
  shows "\<exists>xs. static_good (s', xs)"
proof -
  have step: "fst (static_step (s, xs) c) = (s', xs') \<Longrightarrow> \<exists>xs. static_good (s', xs)" for c xs'
    using static_good_step [OF assms(2), of c] by metis
  show ?thesis
  proof (cases a)
    case (Acc_Send v)
    then show ?thesis using assms(1) step [of "Publish v"] by (auto split: prod.splits)
  next
    case (Acc_Recv k)
    then show ?thesis using assms(1) step [of "Take k"] by (auto split: prod.splits)
  next
    case (Acc_Subscribe role)
    then show ?thesis using assms(1) step [of "Subscribe role"] by (auto split: prod.splits)
  next
    case (Acc_Close reason)
    then show ?thesis using assms(1) step [of "Close reason"] by auto
  next
    case (Acc_Detach k)
    then show ?thesis using assms(1) step [of "Detach k"] by auto
  qed (use assms in auto)
qed

lemma static_good_changed: "static_good (s, xs) \<Longrightarrow> static_good (s\<lparr>ss_changed := c\<rparr>, xs)"
  by (auto simp: stream_inv_def retained_def cursor_ok_def list_all_iff split: option.splits)

text \<open>Entering the critical section and leaving it.\<close>

lemma task_ok_hold_other:
  assumes "task_ok aw sh ts u" and "run_access b (sh_state sh) = Some (s, out)" and "n < length ts"
    and "\<And>k. wt_access u = Acc_Recv k \<Longrightarrow> b = Acc_Detach k \<Longrightarrow> wt_phase u = Finished"
    and "wt_phase (ts ! n) = Holding second"
    and "sh' = sh\<lparr>sh_state := s, sh_locked := l\<rparr>
      \<or> sh' = sh\<lparr>sh_state := s\<lparr>ss_changed := 0\<rparr>, sh_locked := l\<rparr> \<and> wt_phase t' = Swapping second (ss_changed s)"
  shows "task_ok aw sh' (ts[n := t']) u"
proof (cases "past (wt_phase u)")
  case False
  then show ?thesis
    using assms(1,6) by (cases "wt_phase u") (auto simp: task_ok_def slot_ok_def)
next
  case True
  then have "(\<exists>v. wt_access u = Acc_Send v) \<or> (\<exists>k. wt_access u = Acc_Recv k)"
    using assms(1) by (simp add: task_ok_def shape_def)
  moreover have "wt_access u = Acc_Recv k \<Longrightarrow> b \<noteq> Acc_Detach k" for k using True assms(4) by force
  moreover have "\<not> owes m i (wt_phase (ts ! n))" for m i using assms(5) by simp
  ultimately have tr: "covered sh ts u i \<Longrightarrow> covered sh' (ts[n := t']) u i"
      "settled sh ts u i \<Longrightarrow> settled sh' (ts[n := t']) u i" for i
    using hold_transfer [OF assms(2,3) _ _ _ assms(6)] by blast+
  have same: "sh_waiters sh' = sh_waiters sh" "sh_woken sh' = sh_woken sh" using assms(6) by auto
  show ?thesis
    by (rule task_ok_other [OF assms(1)])
      (use tr same in \<open>auto simp: registered_def armed_def woken_def\<close>)
qed

lemma poll_answer_pending:
  assumes "run_access a s = Some (s', out)" and "poll_answer out = None"
    and "(\<exists>v. a = Acc_Send v) \<or> (\<exists>k. a = Acc_Recv k)"
  shows "pending a s'"
  using assms(3)
proof (elim disjE exE)
  fix v assume a: "a = Acc_Send v"
  then have "pending a s" using assms(1,2) by (auto simp: pending_def)
  moreover obtain r where "stream_send_now s v = (s', r)" using assms(1) a by (auto split: prod.splits)
  then have "r = Ok () \<or> s' = s" by (rule stream_send_cases) auto
  ultimately show ?thesis using assms(1,2) a \<open>stream_send_now s v = (s', r)\<close> by auto
next
  fix k assume a: "a = Acc_Recv k"
  then have p: "pending a s" using assms(1,2) by (auto simp: pending_def)
  then have "s' = s" using a assms(1) by (auto simp: pending_recv)
  then show ?thesis using p by simp
qed

text \<open>The steps by phase.\<close>

lemma wait_inv_move:
  assumes "wait_inv aw N (sh, ts)" and "n < length ts"
    and "sh_woken sh' = sh_woken sh" and "sh_contended sh \<Longrightarrow> sh_contended sh'"
    and "sh_state sh' = sh_state sh" and "sh_waiters sh' = sh_waiters sh"
    and "\<And>m i. i < length (sh_waiters sh) \<Longrightarrow> owes m i (wt_phase (ts ! n)) \<Longrightarrow> owes m i (wt_phase t')"
    and "\<And>i. owns t' i \<Longrightarrow> owns (ts ! n) i" and "wt_access t' = wt_access (ts ! n)"
    and "wt_phase (ts ! n) \<noteq> Finished"
    and "task_ok aw sh ts (ts ! n) \<Longrightarrow> task_ok aw sh' (ts[n := t']) t'"
  shows "wait_inv aw N (sh', ts[n := t'])"
proof (rule wait_inv_update [OF assms(1,2)])
  show "task_ok aw sh' (ts[n := t']) (ts ! b)" if "task_ok aw sh ts (ts ! b)" for b
    by (rule task_ok_move [OF that assms(2-7)])
qed (use assms in auto)

lemma attempt_inv:
  assumes inv: "wait_inv aw N (sh, ts)" and n: "n < length ts"
    and ph: "wt_phase (ts ! n) = Attempt second" and step: "attempt_step ok second sh (ts ! n) = Some (sh', t')"
  shows "wait_inv aw N (sh', ts[n := t'])"
proof -
  let ?t = "ts ! n"
  have move: "wait_inv aw N (sh\<lparr>sh_locked := l\<rparr>, ts[n := to_phase p ?t])"
    if "p \<in> {Flagging second, Holding second}" for l p
    by (rule wait_inv_move [OF inv n])
      (use that ph task_ok_phase [OF _ n refl, of aw sh second p "sh\<lparr>sh_locked := l\<rparr>"]
        in \<open>auto simp: owns_def\<close>)
  have "sh\<lparr>sh_locked := sh_locked sh\<rparr> = sh" by simp
  then have stay: "wait_inv aw N (sh, ts[n := to_phase (Flagging second) ?t])"
    using move [of "Flagging second" "sh_locked sh"] by simp
  have strict: "wait_inv aw N (sh, ts[n := ?t\<lparr>wt_result := r, wt_phase := Finished\<rparr>])"
    if "wt_mode ?t = Strict" for r
  proof (rule wait_inv_move [OF inv n])
    show "task_ok aw sh ts ?t \<Longrightarrow> task_ok aw sh (ts[n := ?t\<lparr>wt_result := r, wt_phase := Finished\<rparr>])
        (?t\<lparr>wt_result := r, wt_phase := Finished\<rparr>)"
      using that by (auto simp: task_ok_def shape_def owns_def slot_ok_def)
  qed (use ph in \<open>auto simp: owns_def\<close>)
  show ?thesis
    using step move [of "Holding second" True] stay strict
    by (auto simp: attempt_step_def split: if_splits mode.splits)
qed

lemma flagging_inv:
  assumes inv: "wait_inv aw N (sh, ts)" and n: "n < length ts" and ph: "wt_phase (ts ! n) = Flagging second"
  shows "wait_inv aw N (sh\<lparr>sh_contended := True\<rparr>, ts[n := to_phase (Retry second) (ts ! n)])"
  by (rule wait_inv_move [OF inv n])
    (use ph task_ok_phase [OF _ n refl, of aw sh second "Retry second" "sh\<lparr>sh_contended := True\<rparr>"]
       in \<open>auto simp: owns_def\<close>)

lemma retry_inv:
  assumes inv: "wait_inv aw N (sh, ts)" and n: "n < length ts" and ph: "wt_phase (ts ! n) = Retry second"
    and step: "retry_step ok second sh (ts ! n) = (sh', t')"
  shows "wait_inv aw N (sh', ts[n := t'])"
proof -
  let ?t = "ts ! n"
  have "wait_inv aw N (sh\<lparr>sh_locked := True\<rparr>, ts[n := to_phase (Holding second) ?t])"
    by (rule wait_inv_move [OF inv n])
      (use ph task_ok_phase [OF _ n refl, of aw sh second "Holding second" "sh\<lparr>sh_locked := True\<rparr>"]
        in \<open>auto simp: owns_def\<close>)
  moreover have "wait_inv aw N (sh, ts[n := after_access second ?t])"
    by (rule wait_inv_move [OF inv n])
      (use ph owns_after [of second ?t] task_ok_after [OF _ n refl, of aw sh second] in auto)
  ultimately show ?thesis using step by (auto simp: retry_step_def split: if_splits)
qed

lemma waking_inv:
  assumes inv: "wait_inv aw N (sh, ts)" and n: "n < length ts"
    and ph: "wt_phase (ts ! n) = Waking second changed contended k"
    and step: "waking_step aw second changed contended k sh (ts ! n) = (sh', t')"
  shows "wait_inv aw N (sh', ts[n := t'])"
proof (cases "k < length (sh_waiters sh)")
  case False
  then have "sh' = sh" "t' = after_access second (ts ! n)" using step by (auto simp: waking_step_def)
  moreover have "wait_inv aw N (sh, ts[n := after_access second (ts ! n)])"
    by (rule wait_inv_move [OF inv n])
      (use ph False owns_after [of second "ts ! n"] task_ok_after [OF _ n refl, of aw sh second] in auto)
  ultimately show ?thesis by simp
next
  case True
  note tr = waking_transfer [OF n ph True step]
  have sh': "sh' = sh \<or> sh' = wake_slot aw k sh" and t': "t' = to_phase (Waking second changed contended (k + 1)) (ts ! n)"
    using step True by (auto simp: waking_step_def split: if_splits)
  have keep: "length (sh_waiters sh') = length (sh_waiters sh)" "sh_state sh' = sh_state sh"
    "\<And>j. j < length (sh_waiters sh) \<Longrightarrow> sl_interest (sh_waiters sh' ! j) = sl_interest (sh_waiters sh ! j)
      \<and> sl_occupied (sh_waiters sh' ! j) = sl_occupied (sh_waiters sh ! j)"
    using sh' by auto
  show ?thesis
  proof (rule wait_inv_update [OF inv n])
    have slot: "slot_ok aw sh' (ts[n := t']) t' i" if "slot_ok aw sh ts (ts ! n) i" "i < length (sh_waiters sh)" for i
      using that(1) tr [of "ts ! n" i, OF _ that(2)] by (cases second) (simp_all add: slot_ok_def ph t')
    assume ok: "task_ok aw sh ts (ts ! n)"
    show "task_ok aw sh' (ts[n := t']) t'"
      unfolding task_ok_def
    proof (intro conjI allI impI)
      show "shape t'" using ok t' by (simp add: task_ok_def shape_def ph)
      have own: "owns t' i \<Longrightarrow> owns (ts ! n) i" for i using t' ph by (simp add: owns_def)
      show "i < length (sh_waiters sh')" "sl_occupied (sh_waiters sh' ! i)" if "owns t' i" for i
        using own [OF that] ok keep by (auto simp: task_ok_def)
      show "slot_ok aw sh' (ts[n := t']) t' i" if "wt_waiter t' = Some i" for i
        using that t' ok by (intro slot) (auto simp: task_ok_def owns_def)
    qed
  next
    show "task_ok aw sh' (ts[n := t']) (ts ! b)" if "task_ok aw sh ts (ts ! b)" for b
      by (rule task_ok_other [OF that]) (use tr keep in auto)
  qed (use keep t' ph in \<open>auto simp: owns_def\<close>)
qed

lemma swapping_inv:
  assumes inv: "wait_inv aw N (sh, ts)" and n: "n < length ts" and ph: "wt_phase (ts ! n) = Swapping second changed"
  shows "wait_inv aw N (sh\<lparr>sh_contended := False\<rparr>,
    ts[n := to_phase (Waking second changed (sh_contended sh) 0) (ts ! n)])"
proof (rule wait_inv_update [OF inv n])
  let ?t = "ts ! n" and ?sh = "sh\<lparr>sh_contended := False\<rparr>"
  let ?t' = "to_phase (Waking second changed (sh_contended sh) 0) ?t"
  note tr = swap_transfer [OF n ph, of ?t' sh]
  have "slot_ok aw ?sh (ts[n := ?t']) ?t' i" if "slot_ok aw sh ts ?t i" for i
    using that tr [of ?t i] by (cases second) (simp_all add: slot_ok_def ph)
  then show "task_ok aw sh ts ?t \<Longrightarrow> task_ok aw ?sh (ts[n := ?t']) ?t'"
    by (auto simp: task_ok_def shape_def owns_def ph)
  show "task_ok aw ?sh (ts[n := ?t']) (ts ! b)" if "task_ok aw sh ts (ts ! b)" for b
    by (rule task_ok_other [OF that]) (use tr in auto)
qed (use ph in \<open>auto simp: owns_def\<close>)

lemma holding_inv:
  assumes inv: "wait_inv aw N (sh, ts)" and n: "n < length ts" and ph: "wt_phase (ts ! n) = Holding second"
    and step: "holding_step second sh (ts ! n) = Some (sh', t')"
  shows "wait_inv aw N (sh', ts[n := t'])"
proof -
  let ?t = "ts ! n"
  obtain s out where run: "run_access (wt_access ?t) (sh_state sh) = Some (s, out)"
    using step by (auto simp: holding_step_def split: option.splits)
  have good: "\<exists>xs. static_good (sh_state sh', xs)" if "static_good (sh_state sh, xs)" for xs
  proof -
    obtain ys where "static_good (s, ys)" using static_good_access [OF run \<open>static_good (sh_state sh, xs)\<close>] by blast
    moreover have "sh_state sh' = s \<or> sh_state sh' = s\<lparr>ss_changed := 0\<rparr>"
      using step run by (auto simp: holding_step_def split: mode.split_asm)
    ultimately show ?thesis using static_good_changed by metis
  qed
  have fin: "wt_access (ts ! b) = Acc_Recv k \<Longrightarrow> wt_access ?t = Acc_Detach k \<Longrightarrow> wt_phase (ts ! b) = Finished"
    if "b < length ts" for b k
    using inv that n nth_mem unfolding wait_inv_def borrows_ok_def by (metis snd_conv)
  show ?thesis
  proof (cases "wt_mode ?t = Strict")
    case True
    then have e: "sh' = sh\<lparr>sh_state := s, sh_locked := False\<rparr>"
        "t' = ?t\<lparr>wt_result := Some (Replied out), wt_phase := Finished\<rparr>"
      using step run by (auto simp: holding_step_def)
    show ?thesis
    proof (rule wait_inv_update [OF inv n])
      show "task_ok aw sh ts ?t \<Longrightarrow> task_ok aw sh' (ts[n := t']) t'"
        using e True by (auto simp: task_ok_def shape_def owns_def slot_ok_def)
      show "task_ok aw sh' (ts[n := t']) (ts ! b)" if "b < length ts" "task_ok aw sh ts (ts ! b)" for b
        by (rule task_ok_hold_other [OF that(2) run n fin [OF that(1)] ph]) (use e in auto)
    qed (use e good ph in \<open>auto simp: owns_def\<close>)
  next
    case False
    then have e: "sh' = sh\<lparr>sh_state := s\<lparr>ss_changed := 0\<rparr>, sh_locked := False\<rparr>"
        "t' = ?t\<lparr>wt_result := (if wt_mode ?t = Polled then poll_answer out else Some (Replied out)),
                wt_phase := Swapping second (ss_changed s)\<rparr>"
      using step run by (cases "wt_mode ?t"; simp add: holding_step_def)+
    show ?thesis
    proof (rule wait_inv_update [OF inv n])
      assume ok: "task_ok aw sh ts ?t"
      have "slot_ok aw sh' (ts[n := t']) t' i" if "wt_waiter ?t = Some i" for i
      proof -
        have polled: "wt_mode ?t = Polled" using ok that by (auto simp: task_ok_def shape_def)
        have reg: "second \<Longrightarrow> registered aw sh ?t i"
          using ok that by (auto simp: task_ok_def slot_ok_def ph)
        have "settled sh' (ts[n := t']) ?t i" if none: "poll_answer out = None"
        proof -
          have "pending (wt_access ?t) s"
            using poll_answer_pending [OF run none] ok polled by (simp add: task_ok_def shape_def)
          then show ?thesis using e by (simp add: settled_def)
        qed
        then show ?thesis using reg polled
          by (cases second) (simp_all add: slot_ok_def e covered_def settled_def registered_def woken_def armed_def)
      qed
      then show "task_ok aw sh' (ts[n := t']) t'"
        using ok by (auto simp: task_ok_def shape_def owns_def ph e)
    next
      show "task_ok aw sh' (ts[n := t']) (ts ! b)" if "b < length ts" "task_ok aw sh ts (ts ! b)" for b
        by (rule task_ok_hold_other [OF that(2) run n fin [OF that(1)] ph]) (use e in auto)
    qed (use e good ph in \<open>auto simp: owns_def\<close>)
  qed
qed

text \<open>The steps on a slot of its own.\<close>

lemma wait_inv_slot:
  assumes inv: "wait_inv aw N (sh, ts)" and n: "n < length ts"
    and "owns (ts ! n) i \<or> \<not> sl_occupied (sh_waiters sh ! i)" and "i < length (sh_waiters sh)"
    and "\<And>j. owns t' j \<Longrightarrow> owns (ts ! n) j \<or> j = i \<and> \<not> sl_occupied (sh_waiters sh ! i)"
    and "wt_access t' = wt_access (ts ! n)" and "wt_phase (ts ! n) \<noteq> Finished"
    and "\<And>m j. \<not> owes m j (wt_phase (ts ! n))"
    and "task_ok aw sh ts (ts ! n) \<Longrightarrow> task_ok aw (set_slot i sl sh) (ts[n := t']) t'"
  shows "wait_inv aw N (set_slot i sl sh, ts[n := t'])"
proof (rule wait_inv_update [OF inv n])
  show "task_ok aw (set_slot i sl sh) (ts[n := t']) (ts ! b)"
    if "b < length ts" "b \<noteq> n" "task_ok aw sh ts (ts ! b)" for b
    by (rule task_ok_slot [OF that(3) _ n that(1,2) refl assms(3)]) (use inv assms(8) in \<open>auto simp: wait_inv_def\<close>)
qed (use assms in auto)

lemma claiming_inv:
  assumes inv: "wait_inv aw N (sh, ts)" and n: "n < length ts" and ph: "wt_phase (ts ! n) = Claiming i"
    and step: "claiming_step i sh (ts ! n) = (sh', t')"
  shows "wait_inv aw N (sh', ts[n := t'])"
proof -
  let ?t = "ts ! n"
  have shape: "shape ?t" and polled: "wt_mode ?t = Polled" "wt_waiter ?t = None"
    using inv n ph by (auto simp: wait_inv_def task_ok_def shape_def)
  consider "i < length (sh_waiters sh)" "sl_occupied (sh_waiters sh ! i)"
    | "i < length (sh_waiters sh)" "\<not> sl_occupied (sh_waiters sh ! i)" | "\<not> i < length (sh_waiters sh)" by blast
  then show ?thesis
  proof cases
    case 1
    then have e: "sh' = sh" "t' = to_phase (Claiming (i + 1)) ?t" using step by (auto simp: claiming_step_def)
    show ?thesis unfolding e
      by (rule wait_inv_move [OF inv n])
        (use ph shape polled in \<open>auto simp: owns_def task_ok_def shape_def slot_ok_def\<close>)
  next
    case 2
    then have e: "sh' = set_slot i ((sh_waiters sh ! i)\<lparr>sl_occupied := True\<rparr>) sh"
        "t' = ?t\<lparr>wt_waiter := Some i, wt_phase := Marking\<rparr>"
      using step by (auto simp: claiming_step_def)
    show ?thesis unfolding e
      by (rule wait_inv_slot [OF inv n])
        (use ph shape polled 2 in \<open>auto simp: owns_def task_ok_def shape_def slot_ok_def\<close>)
  next
    case 3
    then have e: "sh' = sh" "t' = ?t\<lparr>wt_result := Some (waiters_full (wt_access ?t)), wt_phase := Finished\<rparr>"
      using step by (auto simp: claiming_step_def)
    show ?thesis unfolding e
      by (rule wait_inv_move [OF inv n])
        (use ph shape polled in \<open>auto simp: owns_def task_ok_def shape_def slot_ok_def\<close>)
  qed
qed

lemma marking_inv:
  assumes inv: "wait_inv aw N (sh, ts)" and n: "n < length ts" and ph: "wt_phase (ts ! n) = Marking"
    and i: "wt_waiter (ts ! n) = Some i"
  shows "wait_inv aw N (set_slot i ((sh_waiters sh ! i)\<lparr>sl_interest := interest_of (wt_access (ts ! n))\<rparr>) sh,
    ts[n := to_phase Arming (ts ! n)])"
proof -
  have ok: "task_ok aw sh ts (ts ! n)" using inv n by (simp add: wait_inv_def)
  then have "i < length (sh_waiters sh)" "sl_occupied (sh_waiters sh ! i)" using i by (auto simp: task_ok_def owns_def)
  then show ?thesis
    by (intro wait_inv_slot [OF inv n])
      (use ph i in \<open>auto simp: owns_def task_ok_def shape_def slot_ok_def\<close>)
qed

lemma arming_inv:
  assumes inv: "wait_inv aw N (sh, ts)" and aw: "atomic_cell aw" and n: "n < length ts"
    and ph: "wt_phase (ts ! n) = Arming" and i: "wt_waiter (ts ! n) = Some i"
    and step: "arming_step aw i sh (ts ! n) = (sh', t')"
  shows "wait_inv aw N (sh', ts[n := t'])"
proof -
  let ?t = "ts ! n"
  have e: "sh' = set_slot i ((sh_waiters sh ! i)\<lparr>sl_waker := cell_register aw (wt_waker ?t) (sl_waker (sh_waiters sh ! i))\<rparr>) sh"
      "t' = ?t\<lparr>wt_since := length (sh_woken sh), wt_phase := Attempt True\<rparr>"
    using step by (simp_all add: arming_step_def Let_def)
  have ok: "task_ok aw sh ts ?t" using inv n by (simp add: wait_inv_def)
  then have slot: "i < length (sh_waiters sh)" "sl_occupied (sh_waiters sh ! i)"
      "sl_interest (sh_waiters sh ! i) = interest_of (wt_access ?t)" and shape: "shape ?t"
    using i ph by (auto simp: task_ok_def owns_def slot_ok_def)
  have "registered aw sh' t' i"
    using slot aw by (simp add: e registered_def armed_def atomic_cell_def)
  then have "task_ok aw sh' (ts[n := t']) t'"
    using slot shape ph i by (auto simp: e task_ok_def shape_def owns_def slot_ok_def)
  then show ?thesis unfolding e
    by (intro wait_inv_slot [OF inv n]) (use ph i slot in \<open>auto simp: owns_def\<close>)
qed

lemma taking_inv:
  assumes inv: "wait_inv aw N (sh, ts)" and n: "n < length ts" and ph: "wt_phase (ts ! n) = Taking i"
    and step: "taking_step aw i sh (ts ! n) = (sh', t')"
  shows "wait_inv aw N (sh', ts[n := t'])"
proof -
  have e: "sh' = set_slot i ((sh_waiters sh ! i)\<lparr>sl_waker := fst (cell_take aw (sl_waker (sh_waiters sh ! i)))\<rparr>) sh"
      "t' = to_phase (Vacating i) (ts ! n)"
    using step by (simp_all add: taking_step_def Let_def)
  have ok: "task_ok aw sh ts (ts ! n)" using inv n by (simp add: wait_inv_def)
  then have "i < length (sh_waiters sh)" "sl_occupied (sh_waiters sh ! i)" "wt_waiter (ts ! n) = None"
    using ph by (auto simp: task_ok_def owns_def shape_def)
  then show ?thesis unfolding e
    by (intro wait_inv_slot [OF inv n])
      (use ph in \<open>auto simp: owns_def task_ok_def shape_def slot_ok_def\<close>)
qed

lemma vacating_inv:
  assumes inv: "wait_inv aw N (sh, ts)" and n: "n < length ts" and ph: "wt_phase (ts ! n) = Vacating i"
    and step: "vacating_step i sh (ts ! n) = (sh', t')"
  shows "wait_inv aw N (sh', ts[n := t'])"
proof -
  have e: "sh' = set_slot i ((sh_waiters sh ! i)\<lparr>sl_occupied := False\<rparr>) sh" "t' = to_phase Finished (ts ! n)"
    using step by (simp_all add: vacating_step_def)
  have ok: "task_ok aw sh ts (ts ! n)" using inv n by (simp add: wait_inv_def)
  then have "i < length (sh_waiters sh)" "wt_waiter (ts ! n) = None"
    using ph by (auto simp: task_ok_def owns_def shape_def)
  then show ?thesis unfolding e
    by (intro wait_inv_slot [OF inv n])
      (use ph in \<open>auto simp: owns_def task_ok_def shape_def slot_ok_def\<close>)
qed

lemma wait_step_inv:
  assumes inv: "wait_inv aw N (sh, ts)" and aw: "atomic_cell aw" and n: "n < length ts"
    and step: "wait_step aw ok sh (ts ! n) = Some (sh', t')"
  shows "wait_inv aw N (sh', ts[n := t'])"
proof (cases "wt_phase (ts ! n)")
  case (Attempt second)
  then show ?thesis using attempt_inv [OF inv n] step by (simp add: wait_step_def)
next
  case (Flagging second)
  then show ?thesis using flagging_inv [OF inv n] step by (auto simp: wait_step_def)
next
  case (Retry second)
  then show ?thesis using retry_inv [OF inv n] step by (auto simp: wait_step_def)
next
  case (Holding second)
  then show ?thesis using holding_inv [OF inv n] step by (simp add: wait_step_def)
next
  case (Swapping second changed)
  then show ?thesis using swapping_inv [OF inv n] step by (auto simp: wait_step_def)
next
  case (Waking second changed contended k)
  then show ?thesis using waking_inv [OF inv n] step by (auto simp: wait_step_def)
next
  case (Claiming i)
  then show ?thesis using claiming_inv [OF inv n] step by (auto simp: wait_step_def)
next
  case Marking
  then show ?thesis using marking_inv [OF inv n] step by (auto simp: wait_step_def marking_step_def)
next
  case Arming
  then show ?thesis using arming_inv [OF inv aw n] step by (auto simp: wait_step_def)
next
  case (Taking i)
  then show ?thesis using taking_inv [OF inv n] step by (auto simp: wait_step_def)
next
  case (Vacating i)
  then show ?thesis using vacating_inv [OF inv n] step by (auto simp: wait_step_def)
qed (use step in \<open>auto simp: wait_step_def\<close>)

lemma begin_inv:
  assumes inv: "wait_inv aw N (sh, ts)" and may: "may_begin ts a m"
  shows "wait_inv aw N (sh, ts @ [task_new a m])"
proof -
  let ?new = "task_new a m"
  have frame: "task_ok aw sh (ts @ [?new]) u" if "task_ok aw sh ts u" for u
    by (rule task_ok_other [OF that]) (auto simp: covered_def settled_def)
  have new: "task_ok aw sh (ts @ [?new]) ?new"
    using may by (auto simp: task_ok_def shape_def owns_def slot_ok_def task_new_def may_begin_def split: access.splits)
  have none: "\<not> owns ?new i" for i by (simp add: owns_def task_new_def)
  have "sole_owners (ts @ [?new])"
    unfolding sole_owners_def
  proof (intro allI impI notI)
    fix b c i
    assume *: "b < length (ts @ [?new])" "c < length (ts @ [?new])" "b \<noteq> c"
      "owns ((ts @ [?new]) ! b) i" "owns ((ts @ [?new]) ! c) i"
    have old: "x < length ts \<and> owns (ts ! x) i"
      if "x < length (ts @ [?new])" "owns ((ts @ [?new]) ! x) i" for x
      using that none by (cases "x = length ts") (auto simp: nth_append)
    show False
      using old [OF *(1,4)] old [OF *(2,5)] *(3) inv unfolding wait_inv_def sole_owners_def by auto
  qed
  moreover have "borrows_ok (ts @ [?new])"
    using inv may by (auto simp: wait_inv_def borrows_ok_def may_begin_def task_new_def list_all_iff)
  ultimately show ?thesis using inv frame new by (simp add: wait_inv_def)
qed

lemma poll_inv:
  assumes inv: "wait_inv aw N (sh, ts)" and n: "n < length ts" and ph: "wt_phase (ts ! n) \<in> {Idle, Parked}"
  shows "wait_inv aw N (sh, ts[n := (ts ! n)\<lparr>wt_waker := w, wt_phase := Attempt False\<rparr>])"
  by (rule wait_inv_move [OF inv n])
    (use ph in \<open>auto simp: owns_def task_ok_def shape_def slot_ok_def\<close>)

lemma abandon_inv:
  assumes inv: "wait_inv aw N (sh, ts)" and n: "n < length ts" and ph: "wt_phase (ts ! n) \<in> {Idle, Parked}"
  shows "wait_inv aw N (sh, ts[n := start_cancel (ts ! n)])"
  by (rule wait_inv_move [OF inv n])
    (use ph in \<open>auto simp: start_cancel_def owns_def task_ok_def shape_def slot_ok_def split: option.splits\<close>)

lemma wait_action_inv:
  assumes "wait_inv aw N sys" and "atomic_cell aw" and "wait_action aw a sys = Some sys'"
  shows "wait_inv aw N sys'"
proof -
  obtain sh ts where sys: "sys = (sh, ts)" by (cases sys)
  show ?thesis
  proof (cases a)
    case (Begin b m)
    then show ?thesis using assms begin_inv [of aw N sh ts b m] sys by (auto simp: wait_action_def split: if_splits)
  next
    case (Run n ok)
    then show ?thesis using assms wait_step_inv [of aw N sh ts n ok] sys by (auto simp: wait_action_def split: if_splits)
  next
    case (Poll n w)
    then show ?thesis using assms poll_inv [of aw N sh ts n w] sys by (auto simp: wait_action_def split: if_splits)
  next
    case (Abandon n)
    then show ?thesis using assms abandon_inv [of aw N sh ts n] sys by (auto simp: wait_action_def split: if_splits)
  qed
qed

lemma wait_reached_inv:
  assumes "wait_reached aw d n sys" and "atomic_cell aw"
  shows "wait_inv aw n sys"
  using assms(1)
proof induction
  case (start cap subs sh)
  then obtain s where "static_new d cap subs = Some s" "sh_state sh = s" "length (sh_waiters sh) = n"
    by (auto simp: with_lock_def)
  then show ?case
    using static_new_good(1) [of d cap subs s] by (auto simp: wait_inv_def sole_owners_def borrows_ok_def)
next
  case (act sys a sys')
  then show ?case using wait_action_inv assms(2) by blast
qed

subsection \<open>No wakeup is lost\<close>

lemma parked_settled:
  assumes "wait_inv aw N (sh, ts)" and "n < length ts" and "wt_phase (ts ! n) = Parked"
  obtains i where "wt_waiter (ts ! n) = Some i" "i < N" "sl_occupied (sh_waiters sh ! i)"
    "registered aw sh (ts ! n) i" "settled sh ts (ts ! n) i"
proof -
  have ok: "task_ok aw sh ts (ts ! n)" and len: "length (sh_waiters sh) = N" using assms(1,2) by (auto simp: wait_inv_def)
  then obtain i where i: "wt_waiter (ts ! n) = Some i" using assms(3) by (auto simp: task_ok_def shape_def)
  show thesis
    by (rule that [OF i]) (use ok len i assms(3) in \<open>auto simp: task_ok_def slot_ok_def owns_def\<close>)
qed

text \<open>The runs of one blocking maintenance call.\<close>

lemma wait_actions_append:
  "wait_actions aw (as @ bs) sys = Option.bind (wait_actions aw as sys) (wait_actions aw bs)"
proof (induction as arbitrary: sys)
  case (Cons a as)
  then show ?case by (cases "wait_action aw a sys") simp_all
qed simp

lemma run_action:
  assumes "wait_step aw ok sh (ts ! n) = Some (sh', t')" and "n < length ts"
  shows "wait_action aw (Run n ok) (sh, ts) = Some (sh', ts[n := t'])"
  using assms by (simp add: wait_action_def)

lemma waking_run:
  assumes "m = length ts" and "wt_phase t = Waking False changed contended k" and "wt_mode t = Blocking"
    and "k \<le> length (sh_waiters sh)"
  shows "\<exists>sh' t'. wait_actions aw (replicate (length (sh_waiters sh) - k + 1) (Run m True)) (sh, ts @ [t])
      = Some (sh', ts @ [t']) \<and> sh_state sh' = sh_state sh \<and> sh_contended sh' = sh_contended sh
      \<and> wt_phase t' = Finished"
  using assms(2-4)
proof (induction "length (sh_waiters sh) - k" arbitrary: sh t k)
  case 0
  then have "wait_action aw (Run m True) (sh, ts @ [t]) = Some (sh, ts @ [to_phase Finished t])"
    using assms(1) by (simp add: wait_action_def wait_step_def waking_step_def after_access_def)
  then show ?case using 0 by simp
next
  case (Suc d)
  obtain sh1 t1 where step: "waking_step aw False changed contended k sh t = (sh1, t1)" by fastforce
  then have one: "wait_action aw (Run m True) (sh, ts @ [t]) = Some (sh1, ts @ [t1])"
    using assms(1) Suc(3) by (simp add: wait_action_def wait_step_def)
  have len: "k < length (sh_waiters sh)" using Suc(2) by simp
  then have s1: "sh1 = sh \<or> sh1 = wake_slot aw k sh"
    and t1: "wt_phase t1 = Waking False changed contended (k + 1)" "wt_mode t1 = Blocking"
    using step Suc(4) by (auto simp: waking_step_def split: if_splits)
  then have same: "length (sh_waiters sh1) = length (sh_waiters sh)" "sh_state sh1 = sh_state sh"
      "sh_contended sh1 = sh_contended sh" by auto
  have d: "d = length (sh_waiters sh1) - (k + 1)" "k + 1 \<le> length (sh_waiters sh1)"
    using Suc(2) same len by simp_all
  obtain sh' t' where rest: "wait_actions aw (replicate (length (sh_waiters sh1) - (k + 1) + 1) (Run m True)) (sh1, ts @ [t1])
      = Some (sh', ts @ [t'])" "sh_state sh' = sh_state sh1" "sh_contended sh' = sh_contended sh1"
      "wt_phase t' = Finished"
    using Suc(1) [OF d(1) t1 d(2)] by blast
  have "length (sh_waiters sh) - k + 1 = Suc (length (sh_waiters sh1) - (k + 1) + 1)"
    using same len by simp
  then show ?case using one rest same by (auto simp del: replicate_add)
qed

lemma maintain_run:
  assumes "\<not> sh_locked sh" and "m = length ts"
  shows "\<exists>sh' t'. wait_actions aw (Begin Acc_Maintain Blocking # replicate (length (sh_waiters sh) + 4) (Run m True)) (sh, ts)
      = Some (sh', ts @ [t']) \<and> sh_state sh' = (sh_state sh)\<lparr>ss_changed := 0\<rparr> \<and> \<not> sh_contended sh'
      \<and> wt_phase t' = Finished"
proof -
  let ?t0 = "task_new Acc_Maintain Blocking"
  let ?t2 = "?t0\<lparr>wt_result := Some (Replied Silent), wt_phase := Swapping False (ss_changed (sh_state sh))\<rparr>"
  let ?t3 = "to_phase (Waking False (ss_changed (sh_state sh)) (sh_contended sh) 0) ?t2"
  let ?sh2 = "sh\<lparr>sh_state := (sh_state sh)\<lparr>ss_changed := 0\<rparr>, sh_locked := False, sh_contended := False\<rparr>"
  have first: "wait_actions aw (Begin Acc_Maintain Blocking # [Run m True, Run m True, Run m True]) (sh, ts)
      = Some (?sh2, ts @ [?t3])"
    using assms
    by (simp add: wait_action_def may_begin_def wait_step_def task_new_def attempt_step_def holding_step_def
        list_update_append)
  obtain sh' t' where rest: "wait_actions aw (replicate (length (sh_waiters sh) + 1) (Run m True)) (?sh2, ts @ [?t3])
      = Some (sh', ts @ [t'])"
    and sh': "sh_state sh' = sh_state ?sh2" "sh_contended sh' = sh_contended ?sh2" "wt_phase t' = Finished"
    using waking_run [OF assms(2), of ?t3 "ss_changed (sh_state sh)" "sh_contended sh" 0 ?sh2, where aw = aw]
    by (auto simp: task_new_def)
  have split: "Begin Acc_Maintain Blocking # replicate (length (sh_waiters sh) + 4) (Run m True)
      = (Begin Acc_Maintain Blocking # [Run m True, Run m True, Run m True])
        @ replicate (length (sh_waiters sh) + 1) (Run m True)"
    by (simp add: eval_nat_numeral)
  show ?thesis
    unfolding split wait_actions_append first Option.bind.simps rest using sh' by auto
qed

lemma reached_actions:
  "wait_reached aw d n sys \<Longrightarrow> wait_actions aw as sys = Some sys' \<Longrightarrow> wait_reached aw d n sys'"
proof (induction as arbitrary: sys)
  case (Cons a as)
  then obtain s where "wait_action aw a sys = Some s" "wait_actions aw as s = Some sys'"
    by (cases "wait_action aw a sys") auto
  then show ?case using Cons wait_reached.act by blast
qed simp

fun notifying :: "wait_phase \<Rightarrow> bool" where
  "notifying (Swapping _ _) = True"
| "notifying (Waking _ _ _ _) = True"
| "notifying _ = False"

lemma owes_notifying: "owes m i p \<Longrightarrow> notifying p"
  by (cases p) auto

text \<open>A stream of capacity one, full for its required receiver: a sending future parks, a strict
  receive makes room without notifying.\<close>

definition option_cell :: "nat option waker_cell" where
  "option_cell = \<lparr>cell_new = None, cell_register = (\<lambda>n c. Some n), cell_take = (\<lambda>c. (None, c))\<rparr>"

definition example_waits :: "nat wait_action list" where
  "example_waits =
     [static_subscribe Required, Run 0 True, Run 0 True, Run 0 True, Run 0 True, Run 0 True,
      static_try_send 7, Run 1 True, Run 1 True,
      static_send 8, Poll 2 5,
      Run 2 True, Run 2 True, Run 2 True, Run 2 True, Run 2 True, Run 2 True, Run 2 True,
      Run 2 True, Run 2 True, Run 2 True, Run 2 True, Run 2 True, Run 2 True,
      static_try_recv \<lparr>key_index = 0, key_generation = 0\<rparr>, Run 3 True, Run 3 True]"

lemma option_cell_atomic: "atomic_cell option_cell"
  by (simp add: atomic_cell_def option_cell_def)

definition example_shared :: "(nat, nat option) shared" where
  "example_shared = \<lparr>sh_state = \<lparr>ss_delivery = Ordered, ss_values = [Some 7], ss_tail = 1,
       ss_cursors = [Some \<lparr>cu_generation = 0, cu_next = 1, cu_role = Required\<rparr>],
       ss_next_generation = 1, ss_closed = None, ss_changed = 1\<rparr>,
     sh_locked = False,
     sh_waiters = [\<lparr>sl_occupied = True, sl_interest = 1, sl_waker = Some 5\<rparr>],
     sh_contended = False, sh_woken = []\<rparr>"

lemmas wait_exec = wait_action_def may_begin_def wait_step_def task_new_def attempt_step_def holding_step_def
  retry_step_def waking_step_def claiming_step_def marking_step_def arming_step_def after_access_def
  start_register_def start_cancel_def set_slot_def wake_slot_def waiter_new_def option_cell_def

definition example_tasks :: "nat wait_task list" where
  "example_tasks =
    [\<lparr>wt_access = Acc_Subscribe Required, wt_mode = Blocking, wt_waiter = None, wt_waker = 0, wt_since = 0,
       wt_result = Some (Replied (Joined (Ok \<lparr>key_index = 0, key_generation = 0\<rparr>))), wt_phase = Finished\<rparr>,
     \<lparr>wt_access = Acc_Send 7, wt_mode = Strict, wt_waiter = None, wt_waker = 0, wt_since = 0,
       wt_result = Some (Replied (Sent (Ok ()))), wt_phase = Finished\<rparr>,
     \<lparr>wt_access = Acc_Send 8, wt_mode = Polled, wt_waiter = Some 0, wt_waker = 5, wt_since = 0,
       wt_result = None, wt_phase = Parked\<rparr>,
     \<lparr>wt_access = Acc_Recv \<lparr>key_index = 0, key_generation = 0\<rparr>, wt_mode = Strict, wt_waiter = None,
       wt_waker = 0, wt_since = 0, wt_result = Some (Replied (Took (Ok (Some (Data 0 7))))), wt_phase = Finished\<rparr>]"

lemma wait_actions_step:
  "wait_action aw a sys = Some sys1 \<Longrightarrow> wait_actions aw as sys1 = Some sys2 \<Longrightarrow> wait_actions aw (a # as) sys = Some sys2"
  by simp

lemma example_reached: "wait_reached option_cell Ordered 1 (example_shared, example_tasks)"
proof -
  obtain sh :: "(nat, nat option) shared" where new: "with_lock option_cell Ordered 1 1 1 = Some sh"
    and sh: "sh = \<lparr>sh_state = \<lparr>ss_delivery = Ordered, ss_values = [None], ss_tail = 0, ss_cursors = [None],
         ss_next_generation = 0, ss_closed = None, ss_changed = 0\<rparr>, sh_locked = False,
       sh_waiters = [\<lparr>sl_occupied = False, sl_interest = 0, sl_waker = None\<rparr>], sh_contended = False, sh_woken = []\<rparr>"
    by (simp add: with_lock_def static_new_def state_new_def waiter_new_def option_cell_def)
  have "wait_actions option_cell example_waits (sh, []) = Some (example_shared, example_tasks)"
    unfolding example_waits_def endpoint_calls sh
    by (rule wait_actions_step, simp add: wait_exec static_exec)+
      (simp add: example_shared_def example_tasks_def)
  then show ?thesis using reached_actions [OF wait_reached.start [OF new]] by blast
qed

text \<open>C4: No wakeup is lost: whenever a parked future could proceed, in any interleaving of
  strict calls, blocking calls, polls and drops, either its waker has been woken since it
  registered, or the wakeup is recorded where the next notification finds it (the \<open>contended\<close>
  flag, or the \<open>changed\<close> bits of its interest), or a notification in flight has yet to reach its
  slot and will wake it.\<close>

theorem no_lost_wakeup:
  assumes "wait_reached aw d n (sh, ts)" and "atomic_cell aw" and "k < length ts"
    and "wt_phase (ts ! k) = Parked" and "\<not> pending (wt_access (ts ! k)) (sh_state sh)"
  shows "woken sh (ts ! k) \<or> sh_contended sh \<or> interest_of (wt_access (ts ! k)) AND ss_changed (sh_state sh) \<noteq> 0
    \<or> (\<exists>i u. wt_waiter (ts ! k) = Some i \<and> u \<in> set ts \<and> owes (interest_of (wt_access (ts ! k))) i (wt_phase u))"
proof -
  obtain i where "wt_waiter (ts ! k) = Some i" "settled sh ts (ts ! k) i"
    using parked_settled [OF wait_reached_inv [OF assms(1,2)] assms(3,4)] by metis
  then show ?thesis using assms(5) by (auto simp: settled_def covered_def)
qed

lemma example_parked:
  "2 < length example_tasks" "wt_phase (example_tasks ! 2) = Parked"
  "\<not> pending (wt_access (example_tasks ! 2)) (sh_state example_shared)"
  by (simp_all add: example_tasks_def example_shared_def pending_def static_exec)

theorem no_lost_wakeup_witness:
  "interest_of (Acc_Send (8::nat)) AND ss_changed (sh_state example_shared) \<noteq> 0"
  using no_lost_wakeup [OF example_reached option_cell_atomic example_parked]
  by (auto simp: example_tasks_def example_shared_def woken_def)

text \<open>C12: Maintenance delivers what strict calls deferred: when the lock is free and no
  notification is in flight, a call of \<open>maintain\<close> that runs without another task in between returns
  after a bounded number of steps (four and one for each waiter slot) and by then has woken every parked future whose operation could
  proceed.\<close>

theorem maintain_wakes:
  assumes "wait_reached aw d n (sh, ts)" and "atomic_cell aw" and "k < length ts"
    and "wt_phase (ts ! k) = Parked" and "\<not> pending (wt_access (ts ! k)) (sh_state sh)"
    and "\<not> sh_locked sh" and "list_all (\<lambda>u. \<not> notifying (wt_phase u)) ts"
  shows "\<exists>sh' t'. wait_actions aw (static_maintain # replicate (n + 4) (Run (length ts) True)) (sh, ts)
      = Some (sh', ts @ [t']) \<and> wt_phase t' = Finished \<and> woken sh' (ts ! k)"
proof -
  have len: "length (sh_waiters sh) = n" using wait_reached_inv [OF assms(1,2)] by (simp add: wait_inv_def)
  obtain sh' t' where run: "wait_actions aw (static_maintain # replicate (n + 4) (Run (length ts) True)) (sh, ts)
      = Some (sh', ts @ [t'])"
    and sh': "sh_state sh' = (sh_state sh)\<lparr>ss_changed := 0\<rparr>" "\<not> sh_contended sh'" "wt_phase t' = Finished"
    using maintain_run [OF assms(6) refl, where aw = aw and ts = ts] len
    unfolding static_maintain_def by metis
  have same: "(ts @ [t']) ! k = ts ! k" using assms(3) by (simp add: nth_append)
  have quiet: "\<not> owes m i (wt_phase u)" if "u \<in> set (ts @ [t'])" for m i u
    using that assms(7) sh'(3) owes_notifying by (fastforce simp: list_all_iff)
  obtain i where "settled sh' (ts @ [t']) (ts ! k) i"
    using parked_settled [OF wait_reached_inv [OF reached_actions [OF assms(1) run] assms(2)], of k] assms(3,4) same
    by (metis length_append_singleton less_Suc_eq)
  then have "woken sh' (ts ! k)"
    using assms(5) sh' quiet by (auto simp: settled_def covered_def)
  then show ?thesis using run sh'(3) by blast
qed

theorem maintain_wakes_witness:
  "\<exists>sh' t'. wait_actions option_cell (static_maintain # replicate 5 (Run 4 True)) (example_shared, example_tasks)
      = Some (sh', example_tasks @ [t']) \<and> woken sh' (example_tasks ! 2)"
proof -
  have "\<not> sh_locked example_shared" by (simp add: example_shared_def)
  moreover have "list_all (\<lambda>u. \<not> notifying (wt_phase u)) example_tasks" by (simp add: example_tasks_def)
  moreover have "length example_tasks = 4" by (simp add: example_tasks_def)
  ultimately show ?thesis
    using maintain_wakes [OF example_reached option_cell_atomic example_parked] by auto
qed

end
