(* ===== verification/Hiway_Allowance.thy ===== *)
theory Hiway_Allowance
  imports Hiway_Event
begin

text \<open>
  The values of \<open>hiway/src/grant.rs\<close>: the seven allowances of \<open>Limits\<close>, \<open>Rights\<close>, the
  event capacities of \<open>StreamLimits\<close> and the \<open>Permission\<close>s a grant is derived with, and
  what \<open>GrantNode::restrict\<close> does to a permission list before it charges anything:
  \<open>partition\<close> splits a total into event pools and a generic remainder, and the list is
  sorted and merged. \<open>usize\<close> values are natural numbers.
\<close>

subsection \<open>Limits\<close>

record limits =
  li_streams :: nat
  li_grants :: nat
  li_subscriptions :: nat
  li_retained_items :: nat
  li_waiters :: nat
  li_connections :: nat
  li_bytes :: nat

definition limits_ZERO :: limits where
  "limits_ZERO = \<lparr>li_streams = 0, li_grants = 0, li_subscriptions = 0, li_retained_items = 0,
     li_waiters = 0, li_connections = 0, li_bytes = 0\<rparr>"

definition limits_default :: limits where
  "limits_default = \<lparr>li_streams = 64, li_grants = 128, li_subscriptions = 1024,
     li_retained_items = 65536, li_waiters = 4096, li_connections = 64,
     li_bytes = 64 * 1024 * 1024\<rparr>"

fun limits_values :: "limits \<Rightarrow> nat list" where
  "limits_values l = [li_streams l, li_grants l, li_subscriptions l, li_retained_items l,
     li_waiters l, li_connections l, li_bytes l]"

definition limits_from_values :: "nat list \<Rightarrow> limits" where
  "limits_from_values v = \<lparr>li_streams = v ! 0, li_grants = v ! 1, li_subscriptions = v ! 2,
     li_retained_items = v ! 3, li_waiters = v ! 4, li_connections = v ! 5, li_bytes = v ! 6\<rparr>"

definition limits_validate :: "limits \<Rightarrow> (unit, topic_error) result" where
  "limits_validate l =
     (if list_ex (\<lambda>v. v > isize_max) (limits_values l) then Err TopicError_InvalidConfig
      else Ok ())"

text \<open>The allowance with a given position in \<open>values\<close>.\<close>

abbreviation allowance :: "limits \<Rightarrow> nat \<Rightarrow> nat" where
  "allowance l k \<equiv> limits_values l ! k"

lemma length_limits_values [simp]: "length (limits_values l) = 7"
  by simp

declare limits_values.simps [simp del]

lemma all_less_7: "(\<forall>k < 7. P k) \<longleftrightarrow> P 0 \<and> P 1 \<and> P 2 \<and> P 3 \<and> P 4 \<and> P 5 \<and> P (6::nat)"
proof
  assume r: "P 0 \<and> P 1 \<and> P 2 \<and> P 3 \<and> P 4 \<and> P 5 \<and> P 6"
  show "\<forall>k < 7. P k"
  proof (intro allI impI)
    fix k :: nat assume "k < 7"
    then consider "k = 0" | "k = 1" | "k = 2" | "k = 3" | "k = 4" | "k = 5" | "k = 6" by linarith
    then show "P k" using r by cases auto
  qed
qed auto

lemma limits_from_values_inverse: "limits_from_values (limits_values l) = l"
  by (simp add: limits_from_values_def limits_values.simps)

lemma allowance_ZERO: "k < 7 \<Longrightarrow> allowance limits_ZERO k = 0"
  using all_less_7 [of "\<lambda>k. allowance limits_ZERO k = 0"]
  by (simp add: limits_ZERO_def limits_values.simps)

lemma limits_validate_Ok: "limits_validate l = Ok () \<longleftrightarrow> (\<forall>k < 7. allowance l k \<le> isize_max)"
  unfolding limits_validate_def all_less_7 by (auto simp: limits_values.simps)

subsection \<open>Rights\<close>

datatype rights = Rights (rights_bits: u8)

definition Rights_PUBLISH :: rights where "Rights_PUBLISH = Rights 1"
definition Rights_OBSERVE :: rights where "Rights_OBSERVE = Rights 2"
definition Rights_REQUIRED :: rights where "Rights_REQUIRED = Rights 4"

definition rights_union :: "rights \<Rightarrow> rights \<Rightarrow> rights" where
  "rights_union a b = Rights (rights_bits a OR rights_bits b)"

definition rights_contains :: "rights \<Rightarrow> rights \<Rightarrow> bool" where
  "rights_contains a b \<longleftrightarrow> rights_bits a AND rights_bits b = rights_bits b"

lemma rights_contains_bits:
  "rights_contains a b \<longleftrightarrow> (\<forall>n. bit (rights_bits b) n \<longrightarrow> bit (rights_bits a) n)"
  using bit_imp_le_length [of "rights_bits b"]
  by (auto simp: rights_contains_def bit_eq_iff bit_and_iff)

lemma rights_contains_refl [simp]: "rights_contains a a"
  by (simp add: rights_contains_bits)

lemma rights_contains_trans: "rights_contains a b \<Longrightarrow> rights_contains b c \<Longrightarrow> rights_contains a c"
  by (simp add: rights_contains_bits)

text \<open>The union is the least right that contains both: nothing is gained by combining requests.\<close>

lemma rights_union_least:
  "rights_contains c (rights_union a b) \<longleftrightarrow> rights_contains c a \<and> rights_contains c b"
  by (auto simp: rights_contains_bits rights_union_def bit_or_iff)

subsection \<open>Event capacities and permissions\<close>

record stream_limits =
  sl_retained_items :: nat
  sl_subscriptions :: nat
  sl_waiters :: nat

definition stream_limits_ZERO :: stream_limits where
  "stream_limits_ZERO = \<lparr>sl_retained_items = 0, sl_subscriptions = 0, sl_waiters = 0\<rparr>"

definition as_limits :: "stream_limits \<Rightarrow> limits" where
  "as_limits s = limits_ZERO\<lparr>li_retained_items := sl_retained_items s,
     li_subscriptions := sl_subscriptions s, li_waiters := sl_waiters s\<rparr>"

record permission =
  pm_event :: event_id
  pm_rights :: rights
  pm_limits :: stream_limits

definition permission_new :: "event_id \<Rightarrow> rights \<Rightarrow> permission" where
  "permission_new event rights =
     \<lparr>pm_event = event, pm_rights = rights, pm_limits = stream_limits_ZERO\<rparr>"

definition with_limits :: "permission \<Rightarrow> stream_limits \<Rightarrow> permission" where
  "with_limits p l = p\<lparr>pm_limits := l\<rparr>"

subsection \<open>Partition\<close>

text \<open>The loop of \<open>partition\<close>: \<open>seen\<close> is \<open>permissions[..index]\<close>.\<close>

fun partition_loop :: "permission list \<Rightarrow> limits \<Rightarrow> permission list \<Rightarrow> (limits, topic_error) result" where
  "partition_loop seen generic [] = Ok generic"
| "partition_loop seen generic (p # ps) =
     (case find (\<lambda>entry. pm_event entry = pm_event p) seen of
        Some previous \<Rightarrow>
          if pm_limits previous \<noteq> pm_limits p then Err TopicError_InvalidConfig
          else partition_loop (seen @ [p]) generic ps
      | None \<Rightarrow>
          (case checked_sub (li_retained_items generic) (sl_retained_items (pm_limits p)) of
             None \<Rightarrow> Err TopicError_Capacity
           | Some items \<Rightarrow>
               (case checked_sub (li_subscriptions generic) (sl_subscriptions (pm_limits p)) of
                  None \<Rightarrow> Err TopicError_Capacity
                | Some subscriptions \<Rightarrow>
                    (case checked_sub (li_waiters generic) (sl_waiters (pm_limits p)) of
                       None \<Rightarrow> Err TopicError_Capacity
                     | Some waiters \<Rightarrow>
                         partition_loop (seen @ [p])
                           (generic\<lparr>li_retained_items := items, li_subscriptions := subscriptions,
                              li_waiters := waiters\<rparr>) ps))))"

definition partition_limits :: "limits \<Rightarrow> permission list \<Rightarrow> (limits, topic_error) result" where
  "partition_limits l permissions = partition_loop [] l permissions"

subsection \<open>Sorting and merging\<close>

text \<open>\<open>dedup_by\<close> with the closure that merges the rights of the later entry into the earlier
  one.\<close>

fun dedup_permissions :: "permission list \<Rightarrow> permission list" where
  "dedup_permissions (p # q # ps) =
     (if pm_event q \<noteq> pm_event p then p # dedup_permissions (q # ps)
      else dedup_permissions (p\<lparr>pm_rights := rights_union (pm_rights p) (pm_rights q)\<rparr> # ps))"
| "dedup_permissions ps = ps"

definition event_key :: "permission \<Rightarrow> u128" where
  "event_key p = as_u128 (pm_event p)"

definition compact_permissions :: "permission list \<Rightarrow> permission list" where
  "compact_permissions ps = dedup_permissions (sort_key event_key ps)"

lemma event_key_inject: "event_key p = event_key q \<longleftrightarrow> pm_event p = pm_event q"
  by (cases "pm_event p"; cases "pm_event q") (simp add: event_key_def)

lemma event_key_rights [simp]: "event_key (p\<lparr>pm_rights := r\<rparr>) = event_key p"
  by (simp add: event_key_def)

lemma dedup_events: "pm_event ` set (dedup_permissions ps) = pm_event ` set ps"
  by (induction ps rule: dedup_permissions.induct) auto

lemma dedup_sorted:
  "sorted (map event_key ps) \<Longrightarrow> sorted_wrt (<) (map event_key (dedup_permissions ps))"
proof (induction ps rule: dedup_permissions.induct)
  case (1 p q ps)
  show ?case
  proof (cases "pm_event q = pm_event p")
    case True
    then show ?thesis using "1.IH"(2) "1.prems" by simp
  next
    case False
    have "event_key p < event_key r" if "r \<in> set (dedup_permissions (q # ps))" for r
    proof -
      have "pm_event r \<in> pm_event ` set (q # ps)"
        using that by (subst dedup_events [symmetric]) (rule imageI)
      then obtain r' where "r' \<in> set (q # ps)" "pm_event r' = pm_event r"
        by (metis imageE)
      then have "event_key r' = event_key r" by (simp add: event_key_def)
      moreover have "event_key q \<le> event_key r'" using "1.prems" \<open>r' \<in> set (q # ps)\<close> by auto
      moreover have "event_key p < event_key q"
        using "1.prems" False event_key_inject [of p q] by (auto simp: less_le)
      ultimately show ?thesis by simp
    qed
    then show ?thesis using "1.IH"(1) "1.prems" False by simp
  qed
qed auto

text \<open>Merging keeps the requested rights and capacities.\<close>

lemma dedup_rights:
  "p \<in> set (dedup_permissions ps) \<Longrightarrow>
     \<forall>q \<in> set ps. pm_event q = pm_event p \<longrightarrow> rights_contains bound (pm_rights q) \<Longrightarrow>
     rights_contains bound (pm_rights p)"
proof (induction ps rule: dedup_permissions.induct)
  case (1 q r ps)
  show ?case
  proof (cases "pm_event r = pm_event q")
    case True
    then show ?thesis using 1 by (auto simp: rights_union_least)
  next
    case False
    then show ?thesis using 1 by (cases "p = q") auto
  qed
qed auto

lemma dedup_covers:
  "sorted (map event_key ps) \<Longrightarrow> q \<in> set ps \<Longrightarrow>
     \<exists>p \<in> set (dedup_permissions ps). pm_event p = pm_event q \<and> rights_contains (pm_rights p) (pm_rights q)"
proof (induction ps arbitrary: q rule: dedup_permissions.induct)
  case (1 p r ps)
  show ?case
  proof (cases "pm_event r = pm_event p")
    case True
    let ?m = "p\<lparr>pm_rights := rights_union (pm_rights p) (pm_rights r)\<rparr>"
    have sorted: "sorted (map event_key (?m # ps))" using 1(3) True by simp
    obtain q' where q': "q' \<in> set (?m # ps)" "pm_event q' = pm_event q"
        "rights_contains (pm_rights q') (pm_rights q)"
    proof (cases "q = p \<or> q = r")
      case True
      have "rights_contains (pm_rights ?m) (pm_rights q)"
        using True rights_union_least [of "pm_rights ?m" "pm_rights p" "pm_rights r"] by auto
      then show thesis using that [of ?m] True \<open>pm_event r = pm_event p\<close> by auto
    next
      case False
      then show thesis using that [of q] 1(4) by auto
    qed
    then show ?thesis
      using "1.IH"(2) [OF _ sorted q'(1)] True rights_contains_trans by auto
  next
    case False
    then show ?thesis using 1 by auto
  qed
qed auto

lemma dedup_limits:
  "p \<in> set (dedup_permissions ps) \<Longrightarrow>
     \<exists>q \<in> set ps. pm_event q = pm_event p \<and> pm_limits q = pm_limits p"
proof (induction ps rule: dedup_permissions.induct)
  case (1 q r ps)
  then show ?case by (cases "pm_event r = pm_event q") (auto 4 3)
qed auto

lemma compact_sorted: "sorted_wrt (<) (map event_key (compact_permissions ps))"
  unfolding compact_permissions_def by (rule dedup_sorted) simp

lemma compact_events: "pm_event ` set (compact_permissions ps) = pm_event ` set ps"
  by (simp add: compact_permissions_def dedup_events)

lemma compact_distinct: "distinct (map pm_event (compact_permissions ps))"
proof -
  have "distinct (map event_key (compact_permissions ps))"
    using compact_sorted [of ps] by (metis strict_sorted_iff)
  then show ?thesis by (auto simp: distinct_map inj_on_def event_key_inject)
qed


subsection \<open>Partition is exact\<close>

definition consistent :: "permission list \<Rightarrow> bool" where
  "consistent ps \<longleftrightarrow>
     (\<forall>p \<in> set ps. \<forall>q \<in> set ps. pm_event p = pm_event q \<longrightarrow> pm_limits p = pm_limits q)"

text \<open>The capacity requested for an event, and the total over the distinct events.\<close>

definition event_capacity :: "permission list \<Rightarrow> event_id \<Rightarrow> nat \<Rightarrow> nat" where
  "event_capacity ps e k =
     (case find (\<lambda>p. pm_event p = e) ps of None \<Rightarrow> 0 | Some p \<Rightarrow> allowance (as_limits (pm_limits p)) k)"

definition capacity_total :: "permission list \<Rightarrow> nat \<Rightarrow> nat" where
  "capacity_total ps k = (\<Sum>e \<in> pm_event ` set ps. event_capacity ps e k)"

lemma find_append: "find P (xs @ ys) = (case find P xs of None \<Rightarrow> find P ys | Some x \<Rightarrow> Some x)"
  by (induction xs) auto

lemma find_None_events: "find (\<lambda>p. pm_event p = e) ps = None \<longleftrightarrow> e \<notin> pm_event ` set ps"
  by (auto simp: find_None_iff)

lemma find_Some_mem: "find P xs = Some x \<Longrightarrow> x \<in> set xs \<and> P x"
  by (induction xs) (auto split: if_splits)

lemma capacity_total_seen:
  assumes "pm_event p \<in> pm_event ` set seen"
  shows "capacity_total (seen @ [p]) k = capacity_total seen k"
proof -
  have events: "pm_event ` set (seen @ [p]) = pm_event ` set seen" using assms by auto
  show ?thesis unfolding capacity_total_def events
  proof (rule sum.cong [OF refl])
    fix e assume "e \<in> pm_event ` set seen"
    then have "find (\<lambda>p. pm_event p = e) seen \<noteq> None" using find_None_events by metis
    then show "event_capacity (seen @ [p]) e k = event_capacity seen e k"
      by (auto simp: event_capacity_def find_append)
  qed
qed

lemma capacity_total_new:
  assumes "pm_event p \<notin> pm_event ` set seen"
  shows "capacity_total (seen @ [p]) k = capacity_total seen k + allowance (as_limits (pm_limits p)) k"
proof -
  have same: "event_capacity (seen @ [p]) e k = event_capacity seen e k" if "e \<in> pm_event ` set seen" for e
  proof -
    have "find (\<lambda>p. pm_event p = e) seen \<noteq> None" using that find_None_events by metis
    then show ?thesis by (auto simp: event_capacity_def find_append)
  qed
  have own: "event_capacity (seen @ [p]) (pm_event p) k = allowance (as_limits (pm_limits p)) k"
    using assms find_None_events [of "pm_event p" seen] by (simp add: event_capacity_def find_append)
  have "capacity_total (seen @ [p]) k
      = (\<Sum>e \<in> insert (pm_event p) (pm_event ` set seen). event_capacity (seen @ [p]) e k)"
    by (simp add: capacity_total_def)
  also have "\<dots> = event_capacity (seen @ [p]) (pm_event p) k
      + (\<Sum>e \<in> pm_event ` set seen. event_capacity (seen @ [p]) e k)"
    using assms by simp
  also have "\<dots> = capacity_total seen k + allowance (as_limits (pm_limits p)) k"
    using same by (simp add: own capacity_total_def)
  finally show ?thesis .
qed

text \<open>Subtracting an event's capacity, as one step.\<close>

definition fits :: "stream_limits \<Rightarrow> limits \<Rightarrow> bool" where
  "fits s l \<longleftrightarrow> sl_retained_items s \<le> li_retained_items l \<and> sl_subscriptions s \<le> li_subscriptions l
     \<and> sl_waiters s \<le> li_waiters l"

definition without :: "limits \<Rightarrow> stream_limits \<Rightarrow> limits" where
  "without l s = l\<lparr>li_retained_items := li_retained_items l - sl_retained_items s,
     li_subscriptions := li_subscriptions l - sl_subscriptions s,
     li_waiters := li_waiters l - sl_waiters s\<rparr>"

lemma fits_iff: "fits s l \<longleftrightarrow> (\<forall>k < 7. allowance (as_limits s) k \<le> allowance l k)"
  unfolding all_less_7 by (auto simp: fits_def as_limits_def limits_ZERO_def limits_values.simps)

lemma allowance_without:
  assumes "k < 7" and "fits s l"
  shows "allowance (without l s) k + allowance (as_limits s) k = allowance l k"
proof -
  have "\<forall>k < 7. allowance (without l s) k + allowance (as_limits s) k = allowance l k"
    unfolding all_less_7 using assms(2)
    by (simp add: without_def as_limits_def limits_ZERO_def fits_def limits_values.simps)
  then show ?thesis using assms(1) by blast
qed

lemma partition_loop_new:
  assumes "find (\<lambda>entry. pm_event entry = pm_event p) seen = None"
  shows "partition_loop seen generic (p # ps) =
    (if fits (pm_limits p) generic then partition_loop (seen @ [p]) (without generic (pm_limits p)) ps
     else Err TopicError_Capacity)"
  unfolding partition_loop.simps assms option.case fits_def without_def checked_sub_def
  by simp

lemma consistentD:
  "consistent ps \<Longrightarrow> p \<in> set ps \<Longrightarrow> q \<in> set ps \<Longrightarrow> pm_event p = pm_event q \<Longrightarrow>
     pm_limits p = pm_limits q"
  unfolding consistent_def by blast

lemma consistent_snoc:
  "consistent seen \<Longrightarrow> (\<forall>q \<in> set seen. pm_event q = pm_event p \<longrightarrow> pm_limits q = pm_limits p) \<Longrightarrow>
     consistent (seen @ [p])"
proof -
  assume seen: "consistent seen" and new: "\<forall>q \<in> set seen. pm_event q = pm_event p \<longrightarrow> pm_limits q = pm_limits p"
  show "consistent (seen @ [p])"
    unfolding consistent_def
  proof (intro ballI impI)
    fix a b assume "a \<in> set (seen @ [p])" "b \<in> set (seen @ [p])" and e: "pm_event a = pm_event b"
    then consider "a \<in> set seen" "b \<in> set seen" | "a \<in> set seen" "b = p" | "a = p" "b \<in> set seen" | "a = p" "b = p"
      by fastforce
    then show "pm_limits a = pm_limits b"
      by cases (use consistentD [OF seen _ _ e] new e in fastforce)+
  qed
qed

lemma consistent_prefix: "consistent (xs @ ys) \<Longrightarrow> consistent xs"
  unfolding consistent_def by simp

lemma partition_loop_sound:
  "partition_loop seen generic ps = Ok rest \<Longrightarrow> consistent seen \<Longrightarrow>
     consistent (seen @ ps) \<and>
     (\<forall>k < 7. allowance rest k + capacity_total (seen @ ps) k = allowance generic k + capacity_total seen k)"
proof (induction ps arbitrary: seen generic)
  case (Cons p ps)
  show ?case
  proof (cases "find (\<lambda>entry. pm_event entry = pm_event p) seen")
    case None
    then have f: "fits (pm_limits p) generic"
      and r: "partition_loop (seen @ [p]) (without generic (pm_limits p)) ps = Ok rest"
      using Cons.prems(1) unfolding partition_loop_new [OF None] by (auto split: if_splits)
    have new: "pm_event p \<notin> pm_event ` set seen" using None find_None_events by blast
    have "pm_event q \<noteq> pm_event p" if "q \<in> set seen" for q
      using that new by (metis imageI)
    then have "consistent (seen @ [p])" by (intro consistent_snoc [OF Cons.prems(2)]) auto
    note ih = Cons.IH [OF r this]
    show ?thesis
    proof (intro conjI allI impI)
      show "consistent (seen @ p # ps)" using ih by simp
      fix k :: nat assume k: "k < 7"
      then have "allowance rest k + capacity_total (seen @ p # ps) k
          = allowance (without generic (pm_limits p)) k + capacity_total (seen @ [p]) k"
        using ih by simp
      then show "allowance rest k + capacity_total (seen @ p # ps) k
          = allowance generic k + capacity_total seen k"
        using capacity_total_new [OF new, of k] allowance_without [OF k f] by linarith
    qed
  next
    case (Some q)
    then have q: "q \<in> set seen" "pm_event q = pm_event p" using find_Some_mem by fastforce+
    have same: "pm_limits q = pm_limits p" and r: "partition_loop (seen @ [p]) generic ps = Ok rest"
      using Cons.prems(1) Some by (auto split: if_splits)
    have "consistent (seen @ [p])"
    proof (rule consistent_snoc [OF Cons.prems(2)], intro ballI impI)
      fix r assume "r \<in> set seen" "pm_event r = pm_event p"
      then show "pm_limits r = pm_limits p"
        using consistentD [OF Cons.prems(2), of r q] q same by simp
    qed
    moreover have "pm_event p \<in> pm_event ` set seen" using q by (metis imageI)
    ultimately show ?thesis using Cons.IH [OF r] capacity_total_seen by simp
  qed
qed simp

lemma partition_loop_complete:
  "consistent (seen @ ps) \<Longrightarrow>
     (\<forall>k < 7. capacity_total (seen @ ps) k \<le> allowance generic k + capacity_total seen k) \<Longrightarrow>
     \<exists>rest. partition_loop seen generic ps = Ok rest"
proof (induction ps arbitrary: seen generic)
  case (Cons p ps)
  have cons: "consistent (seen @ [p])" using Cons.prems(1) consistent_prefix [of "seen @ [p]" ps] by simp
  show ?case
  proof (cases "find (\<lambda>entry. pm_event entry = pm_event p) seen")
    case None
    have new: "pm_event p \<notin> pm_event ` set seen" using None find_None_events by blast
    have grows: "capacity_total xs k \<le> capacity_total (xs @ ys) k" for xs ys k
    proof (induction ys rule: rev_induct)
      case (snoc y ys)
      then show ?case
        using capacity_total_seen [of y "xs @ ys"] capacity_total_new [of y "xs @ ys"]
        by (cases "pm_event y \<in> pm_event ` set (xs @ ys)")
          (simp_all flip: append_assoc)
    qed simp
    have f: "fits (pm_limits p) generic"
      unfolding fits_iff
    proof (intro allI impI)
      fix k :: nat assume "k < 7"
      then have "capacity_total (seen @ [p]) k \<le> allowance generic k + capacity_total seen k"
        using Cons.prems(2) grows [of "seen @ [p]" k ps] by (metis append.assoc append_Cons append_Nil order_trans)
      then show "allowance (as_limits (pm_limits p)) k \<le> allowance generic k"
        using capacity_total_new [OF new, of k] by linarith
    qed
    have "\<forall>k < 7. capacity_total ((seen @ [p]) @ ps) k
        \<le> allowance (without generic (pm_limits p)) k + capacity_total (seen @ [p]) k"
    proof (intro allI impI)
      fix k :: nat assume k: "k < 7"
      then have "capacity_total ((seen @ [p]) @ ps) k \<le> allowance generic k + capacity_total seen k"
        using Cons.prems(2) by simp
      then show "capacity_total ((seen @ [p]) @ ps) k
          \<le> allowance (without generic (pm_limits p)) k + capacity_total (seen @ [p]) k"
        using allowance_without [OF k f] capacity_total_new [OF new, of k] by linarith
    qed
    from Cons.IH [OF _ this] Cons.prems(1) f show ?thesis
      unfolding partition_loop_new [OF None] by simp
  next
    case (Some q)
    then have q: "q \<in> set seen" "pm_event q = pm_event p" using find_Some_mem by fastforce+
    have "pm_limits q = pm_limits p" using consistentD [OF cons, of q p] q by simp
    moreover have "pm_event p \<in> pm_event ` set seen" using q by (metis imageI)
    ultimately show ?thesis
      using Some Cons.IH [of "seen @ [p]" generic] Cons.prems capacity_total_seen by simp
  qed
qed simp

text \<open>The totals that the merged list reserves are those that \<open>partition\<close> split off.\<close>

lemma compact_total:
  assumes "consistent ps"
  shows "(\<Sum>p \<leftarrow> compact_permissions ps. allowance (as_limits (pm_limits p)) k) = capacity_total ps k"
proof -
  have eq: "allowance (as_limits (pm_limits p)) k = event_capacity ps (pm_event p) k"
    if mem: "p \<in> set (compact_permissions ps)" for p
  proof -
    obtain q where q: "q \<in> set ps" "pm_event q = pm_event p" "pm_limits q = pm_limits p"
      using dedup_limits [of p "sort_key event_key ps"] mem unfolding compact_permissions_def set_sort
      by blast
    have "pm_event p \<in> pm_event ` set ps" using imageI [OF q(1), of pm_event] q(2) by simp
    then have "find (\<lambda>r. pm_event r = pm_event p) ps \<noteq> None"
      using find_None_events [of "pm_event p" ps] by blast
    then obtain r where r: "find (\<lambda>r. pm_event r = pm_event p) ps = Some r" by blast
    then have "pm_limits r = pm_limits p"
      using consistentD [OF assms, of r q] find_Some_mem [OF r] q by simp
    then show ?thesis using r by (simp add: event_capacity_def)
  qed
  have inj: "inj_on pm_event (set (compact_permissions ps))" and "distinct (compact_permissions ps)"
    using compact_distinct [of ps] by (auto simp: distinct_map)
  then have "(\<Sum>p \<leftarrow> compact_permissions ps. allowance (as_limits (pm_limits p)) k)
      = (\<Sum>p \<in> set (compact_permissions ps). event_capacity ps (pm_event p) k)"
    unfolding sum_list_distinct_conv_sum_set [OF \<open>distinct (compact_permissions ps)\<close>]
    by (intro sum.cong refl eq)
  also have "\<dots> = (\<Sum>e \<in> pm_event ` set (compact_permissions ps). event_capacity ps e k)"
    using sum.reindex [OF inj, of "\<lambda>e. event_capacity ps e k"] by simp
  finally show ?thesis by (simp add: compact_events capacity_total_def)
qed

lemma partition_split:
  assumes "partition_limits l ps = Ok generic"
  shows "\<forall>k < 7. allowance generic k
    + (\<Sum>p \<leftarrow> compact_permissions ps. allowance (as_limits (pm_limits p)) k) = allowance l k"
proof -
  have "consistent []" "capacity_total [] k = 0" for k by (simp_all add: consistent_def capacity_total_def)
  with partition_loop_sound [of "[]" l ps generic] assms show ?thesis
    by (simp add: partition_limits_def compact_total)
qed

subsection \<open>Properties\<close>

text \<open>C40: Partition is exact. It succeeds precisely when requests for the same event agree on its
  capacity and the capacities of the distinct events fit in the total; then the event pools of the
  merged permission list and the generic remainder add up to the total, allowance by allowance, so
  no capacity is created, lost or counted twice.\<close>

theorem partition_exact:
  "((\<exists>generic. partition_limits l ps = Ok generic) \<longleftrightarrow>
      (\<forall>p \<in> set ps. \<forall>q \<in> set ps. pm_event p = pm_event q \<longrightarrow> pm_limits p = pm_limits q)
      \<and> (\<forall>k < 7. capacity_total ps k \<le> allowance l k))
   \<and> (\<forall>generic. partition_limits l ps = Ok generic \<longrightarrow>
        (\<forall>k < 7. allowance generic k
           + (\<Sum>p \<leftarrow> compact_permissions ps. allowance (as_limits (pm_limits p)) k) = allowance l k))"
proof -
  have nil: "consistent []" "capacity_total [] k = 0" for k
    by (simp_all add: consistent_def capacity_total_def)
  note sound = partition_loop_sound [of "[]" l ps, simplified nil append_Nil, OF _ TrueI]
  have parts: "consistent ps \<and> (\<forall>k < 7. allowance generic k + capacity_total ps k = allowance l k)"
    if "partition_limits l ps = Ok generic" for generic
    using sound [of generic] that by (simp add: partition_limits_def)
  have "\<exists>generic. partition_limits l ps = Ok generic"
    if "consistent ps" "\<forall>k < 7. capacity_total ps k \<le> allowance l k"
    using partition_loop_complete [of "[]" ps l] that nil by (simp add: partition_limits_def)
  then show ?thesis
    unfolding consistent_def [symmetric] using parts compact_total
    by (metis (no_types, lifting) le_add2)
qed

definition example_permissions :: "permission list" where
  "example_permissions =
     [permission_new (EventId 7) Rights_PUBLISH,
      with_limits (permission_new (EventId 9) Rights_OBSERVE)
        \<lparr>sl_retained_items = 36, sl_subscriptions = 24, sl_waiters = 5\<rparr>]"

theorem partition_exact_witness:
  "allowance (limits_default\<lparr>li_waiters := 4091, li_retained_items := 65500, li_subscriptions := 1000\<rparr>) 3
     + (\<Sum>p \<leftarrow> compact_permissions example_permissions. allowance (as_limits (pm_limits p)) 3)
     = allowance limits_default 3"
proof -
  have "partition_limits limits_default example_permissions
      = Ok (limits_default\<lparr>li_waiters := 4091, li_retained_items := 65500, li_subscriptions := 1000\<rparr>)"
    by (simp add: partition_limits_def limits_default_def example_permissions_def permission_new_def
        with_limits_def stream_limits_ZERO_def checked_sub_def)
  with partition_exact [of limits_default example_permissions]
  have "\<forall>k < 7. allowance (limits_default\<lparr>li_waiters := 4091, li_retained_items := 65500, li_subscriptions := 1000\<rparr>) k
     + (\<Sum>p \<leftarrow> compact_permissions example_permissions. allowance (as_limits (pm_limits p)) k)
     = allowance limits_default k"
    by blast
  then show ?thesis by simp
qed

end
