(* ===== verification/Hiway_Grant.thy ===== *)
theory Hiway_Grant
  imports Hiway_Allowance
begin

text \<open>
  The grant tree of \<open>hiway/src/grant.rs\<close> and \<open>resources.rs\<close>:
  nodes with their pools, charging and releasing allowances, deriving children, entering and
  leaving operations. Nodes live in a store and are named by their position; a node whose last
  handle is gone is marked dropped, which is when its own leases return. \<open>Notify\<close> is a
  library type: what is sent to it is recorded in the order it happens. The operations here run
  one at a time; \<open>Hiway_Revocation\<close> interleaves their atomic steps.
\<close>

subsection \<open>Nodes\<close>

definition REVOKED :: u64 where "REVOKED = push_bit 63 1"
definition ACTIVE_COUNT :: u64 where "ACTIVE_COUNT = REVOKED - 1"

record pool =
  pl_limits :: limits
  pl_usage :: "nat list"

definition pool_new :: "limits \<Rightarrow> pool" where
  "pool_new l = \<lparr>pl_limits = l, pl_usage = replicate 7 0\<rparr>"

record event_allowance =
  ea_permission :: permission
  ea_pool :: pool

record lease =
  ls_node :: nat
  ls_usage :: limits
  ls_event :: "nat option"

record grant_node =
  gn_limits :: limits
  gn_pool :: pool
  gn_permissions :: "event_allowance list option"
  gn_parent_reservation :: "lease option"
  gn_event_reservations :: "lease list"
  gn_state :: u64
  gn_revoker :: bool
  gn_revocation_complete :: bool
  gn_children :: "nat list"
  gn_streams :: "(event_id \<times> nat) list"
  gn_dropped :: bool

datatype notice = Changed nat | Revocation_changed nat | Stream_changed nat

text \<open>\<open>gr_alive\<close> lists the stream notifications that still have an owner: the ones a weak
  reference upgrades to.\<close>

record grants =
  gr_nodes :: "grant_node list"
  gr_alive :: "nat list"
  gr_notices :: "notice list"

definition node_new ::
    "limits \<Rightarrow> limits \<Rightarrow> event_allowance list option \<Rightarrow> lease option \<Rightarrow> lease list \<Rightarrow> grant_node" where
  "node_new l generic permissions parent_reservation event_reservations =
     \<lparr>gn_limits = l, gn_pool = pool_new generic, gn_permissions = permissions,
      gn_parent_reservation = parent_reservation, gn_event_reservations = event_reservations,
      gn_state = 0, gn_revoker = False, gn_revocation_complete = False, gn_children = [],
      gn_streams = [], gn_dropped = False\<rparr>"

definition node_root :: "limits \<Rightarrow> grant_node" where
  "node_root l = node_new l l None None []"

abbreviation node :: "grants \<Rightarrow> nat \<Rightarrow> grant_node" where
  "node s i \<equiv> gr_nodes s ! i"

definition update_node :: "nat \<Rightarrow> (grant_node \<Rightarrow> grant_node) \<Rightarrow> grants \<Rightarrow> grants" where
  "update_node i f s = s\<lparr>gr_nodes := (gr_nodes s)[i := f (node s i)]\<rparr>"

definition emit :: "notice list \<Rightarrow> grants \<Rightarrow> grants" where
  "emit ns s = s\<lparr>gr_notices := gr_notices s @ ns\<rparr>"

subsection \<open>Authority\<close>

text \<open>The walk of \<open>is_revoked\<close> up the parent reservations. A parent is older than its child, so
  the number of nodes is enough fuel (\<open>is_revoked_step\<close>).\<close>

fun revoked_walk :: "nat \<Rightarrow> grants \<Rightarrow> nat \<Rightarrow> bool" where
  "revoked_walk 0 s i = False"
| "revoked_walk (Suc fuel) s i =
     (if gn_state (node s i) AND REVOKED \<noteq> 0 then True
      else (case gn_parent_reservation (node s i) of
              Some parent \<Rightarrow> revoked_walk fuel s (ls_node parent)
            | None \<Rightarrow> False))"

definition is_revoked :: "grants \<Rightarrow> nat \<Rightarrow> bool" where
  "is_revoked s i = revoked_walk (length (gr_nodes s)) s i"

text \<open>\<open>binary_search_by_key\<close> over the allowances, which are sorted by event without
  duplicates (\<open>store_wf\<close>): the position of the only entry with the key, if there is one.\<close>

fun position_of :: "event_id \<Rightarrow> event_allowance list \<Rightarrow> nat option" where
  "position_of event [] = None"
| "position_of event (a # as) =
     (if pm_event (ea_permission a) = event then Some 0
      else map_option Suc (position_of event as))"

definition grant_check :: "grants \<Rightarrow> nat \<Rightarrow> event_id \<Rightarrow> rights \<Rightarrow> (unit, topic_error) result" where
  "grant_check s i event right =
     (if is_revoked s i then Err TopicError_Revoked
      else (case gn_permissions (node s i) of
              None \<Rightarrow> Ok ()
            | Some permissions \<Rightarrow>
                (case position_of event permissions of
                   None \<Rightarrow> Err TopicError_Denied
                 | Some index \<Rightarrow>
                     if \<not> rights_contains (pm_rights (ea_permission (permissions ! index))) right
                     then Err TopicError_Denied else Ok ())))"

definition event_index :: "grant_node \<Rightarrow> event_id \<Rightarrow> (nat, topic_error) result" where
  "event_index n event =
     (case gn_permissions n of
        None \<Rightarrow> Err TopicError_Denied
      | Some permissions \<Rightarrow>
          (case position_of event permissions of None \<Rightarrow> Err TopicError_Denied | Some i \<Rightarrow> Ok i))"

definition grant_stream_limits :: "grants \<Rightarrow> nat \<Rightarrow> event_id \<Rightarrow> (stream_limits, topic_error) result" where
  "grant_stream_limits s i event =
     (case event_index (node s i) event of
        Err e \<Rightarrow> Err e
      | Ok index \<Rightarrow> Ok (pm_limits (ea_permission (the (gn_permissions (node s i)) ! index))))"

subsection \<open>Pools\<close>

fun pool_of :: "grant_node \<Rightarrow> nat option \<Rightarrow> pool" where
  "pool_of n None = gn_pool n"
| "pool_of n (Some index) = ea_pool (the (gn_permissions n) ! index)"

fun set_usage :: "nat option \<Rightarrow> nat list \<Rightarrow> grant_node \<Rightarrow> grant_node" where
  "set_usage None u n = n\<lparr>gn_pool := (gn_pool n)\<lparr>pl_usage := u\<rparr>\<rparr>"
| "set_usage (Some index) u n =
     n\<lparr>gn_permissions := map_option (\<lambda>as. as[index := (as ! index)
         \<lparr>ea_pool := (ea_pool (as ! index))\<lparr>pl_usage := u\<rparr>\<rparr>]) (gn_permissions n)\<rparr>"

definition grant_stream_usage :: "grants \<Rightarrow> nat \<Rightarrow> event_id \<Rightarrow> (stream_limits, topic_error) result" where
  "grant_stream_usage s i event =
     (case event_index (node s i) event of
        Err e \<Rightarrow> Err e
      | Ok index \<Rightarrow>
          (let usage = pl_usage (pool_of (node s i) (Some index))
           in Ok \<lparr>sl_retained_items = usage ! 3, sl_subscriptions = usage ! 2, sl_waiters = usage ! 4\<rparr>))"

definition grant_usage :: "grants \<Rightarrow> nat \<Rightarrow> limits" where
  "grant_usage s i = limits_from_values (map (\<lambda>index.
     pl_usage (gn_pool (node s i)) ! index
     + (\<Sum>a \<leftarrow> (case gn_permissions (node s i) of None \<Rightarrow> [] | Some as \<Rightarrow> as). pl_usage (ea_pool a) ! index))
     [0..<7])"

text \<open>\<open>AtomicUsize::fetch_sub\<close> wraps.\<close>

definition fetch_sub :: "nat \<Rightarrow> nat \<Rightarrow> nat" where
  "fetch_sub current amount =
     (if amount \<le> current then current - amount else current + 2 ^ 64 - amount)"

text \<open>The loop of \<open>charge\<close> from \<open>index\<close> on: the counters it leaves, and the index it failed at.\<close>

function charge_loop :: "nat list \<Rightarrow> nat list \<Rightarrow> nat list \<Rightarrow> nat \<Rightarrow> nat list \<times> nat option" where
  "charge_loop requested limits usage index =
     (if index < length requested
      then (if requested ! index = 0 then charge_loop requested limits usage (index + 1)
            else (case checked_add usize_max (usage ! index) (requested ! index) of
                    Some total_usage \<Rightarrow>
                      if total_usage \<le> limits ! index
                      then charge_loop requested limits (usage[index := total_usage]) (index + 1)
                      else (usage, Some index)
                  | None \<Rightarrow> (usage, Some index)))
      else (usage, None))"
  by pat_completeness auto
termination
  by (relation "measure (\<lambda>(requested, limits, usage, index). length requested - index)") auto

declare charge_loop.simps [simp del]

text \<open>The rollback of a failed charge, and the counters of a dropped lease.\<close>

definition release_counters :: "nat list \<Rightarrow> nat list \<Rightarrow> nat \<Rightarrow> nat list" where
  "release_counters usage amounts n =
     map (\<lambda>k. if k < n \<and> amounts ! k > 0 then fetch_sub (usage ! k) (amounts ! k) else usage ! k)
       [0..<length usage]"

definition notify_release :: "nat \<Rightarrow> nat option \<Rightarrow> grants \<Rightarrow> grants" where
  "notify_release i event s =
     (let s = emit [Changed i] s in
      case event of
        None \<Rightarrow> s
      | Some index \<Rightarrow>
          (let id = pm_event (ea_permission (the (gn_permissions (node s i)) ! index))
           in emit (map (\<lambda>(_, stream). Stream_changed stream)
                (filter (\<lambda>(event, stream). event = id \<and> stream \<in> set (gr_alive s))
                  (gn_streams (node s i)))) s))"

definition drop_lease :: "lease \<Rightarrow> grants \<Rightarrow> grants" where
  "drop_lease l s =
     (let amounts = limits_values (ls_usage l);
          i = ls_node l;
          usage = pl_usage (pool_of (node s i) (ls_event l));
          s = update_node i (set_usage (ls_event l) (release_counters usage amounts 7)) s
      in if list_ex (\<lambda>a. a > 0) amounts then notify_release i (ls_event l) s else s)"

definition grant_charge ::
    "nat \<Rightarrow> nat option \<Rightarrow> limits \<Rightarrow> grants \<Rightarrow> grants \<times> (lease, topic_error) result" where
  "grant_charge i event usage s =
     (if is_revoked s i then (s, Err TopicError_Revoked)
      else
       (let requested = limits_values usage;
            pool = pool_of (node s i) event
        in case charge_loop requested (limits_values (pl_limits pool)) (pl_usage pool) 0 of
             (counters, Some index) \<Rightarrow>
               (let s = update_node i (set_usage event (release_counters counters requested index)) s
                in (if list_ex (\<lambda>a. a > 0) (take index requested) then notify_release i event s else s,
                    Err TopicError_Capacity))
           | (counters, None) \<Rightarrow>
               (let s = update_node i (set_usage event counters) s;
                    lease = \<lparr>ls_node = i, ls_usage = usage, ls_event = event\<rparr>
                in if is_revoked s i then (drop_lease lease s, Err TopicError_Revoked)
                   else (s, Ok lease))))"

definition try_charge :: "nat \<Rightarrow> limits \<Rightarrow> grants \<Rightarrow> grants \<times> (lease, topic_error) result" where
  "try_charge i usage s = grant_charge i None usage s"

definition try_charge_stream ::
    "nat \<Rightarrow> event_id \<Rightarrow> stream_limits \<Rightarrow> grants \<Rightarrow> grants \<times> (lease, topic_error) result" where
  "try_charge_stream i event usage s =
     (case event_index (node s i) event of
        Err e \<Rightarrow> (s, Err e)
      | Ok index \<Rightarrow> grant_charge i (Some index) (as_limits usage) s)"

text \<open>\<open>Grant::reserve_resources\<close>.\<close>

definition reserve_resources :: "nat \<Rightarrow> nat \<Rightarrow> nat \<Rightarrow> grants \<Rightarrow> grants \<times> (lease, topic_error) result" where
  "reserve_resources i retained_items bytes s =
     try_charge i (limits_ZERO\<lparr>li_retained_items := retained_items, li_bytes := bytes\<rparr>) s"

subsection \<open>Children\<close>

definition drop_leases :: "lease list \<Rightarrow> grants \<Rightarrow> grants" where
  "drop_leases ls s = fold drop_lease ls s"

text \<open>The fields of a dropped node are dropped in order: the parent reservation, then the event
  reservations.\<close>

definition own_leases :: "grant_node \<Rightarrow> lease list" where
  "own_leases n = (case gn_parent_reservation n of None \<Rightarrow> [] | Some l \<Rightarrow> [l]) @ gn_event_reservations n"

definition drop_node :: "nat \<Rightarrow> grants \<Rightarrow> grants" where
  "drop_node i s = drop_leases (own_leases (node s i)) (update_node i (\<lambda>n. n\<lparr>gn_dropped := True\<rparr>) s)"

text \<open>The event reservations of a child. A failure drops the ones already taken.\<close>

fun charge_streams :: "nat \<Rightarrow> lease list \<Rightarrow> permission list \<Rightarrow> grants
    \<Rightarrow> grants \<times> (lease list, topic_error) result" where
  "charge_streams i taken [] s = (s, Ok taken)"
| "charge_streams i taken (p # ps) s =
     (case try_charge_stream i (pm_event p) (pm_limits p) s of
        (s, Err e) \<Rightarrow> (drop_leases taken s, Err e)
      | (s, Ok lease) \<Rightarrow> charge_streams i (taken @ [lease]) ps s)"

fun check_all :: "grants \<Rightarrow> nat \<Rightarrow> permission list \<Rightarrow> (unit, topic_error) result" where
  "check_all s i [] = Ok ()"
| "check_all s i (p # ps) =
     (case grant_check s i (pm_event p) (pm_rights p) of Err e \<Rightarrow> Err e | Ok _ \<Rightarrow> check_all s i ps)"

definition event_allowance_new :: "permission \<Rightarrow> event_allowance" where
  "event_allowance_new p = \<lparr>ea_permission = p, ea_pool = pool_new (as_limits (pm_limits p))\<rparr>"

text \<open>The part of \<open>restrict\<close> after the reservations: the child is made and registered unless its
  parent or an ancestor has been revoked meanwhile.\<close>

definition register_child :: "nat \<Rightarrow> grant_node \<Rightarrow> grants \<Rightarrow> grants \<times> (nat, topic_error) result" where
  "register_child i child s =
     (let id = length (gr_nodes s);
          s = s\<lparr>gr_nodes := gr_nodes s @ [child]\<rparr>
      in if is_revoked s i then (drop_node id s, Err TopicError_Revoked)
         else
          (let s = update_node i (\<lambda>n. n\<lparr>gn_children :=
                 filter (\<lambda>c. \<not> gn_dropped (node s c)) (gn_children n) @ [id]\<rparr>) s
           in if is_revoked s i then (drop_node id s, Err TopicError_Revoked) else (s, Ok id)))"

definition grant_restrict ::
    "nat \<Rightarrow> permission list \<Rightarrow> limits \<Rightarrow> grants \<Rightarrow> grants \<times> (nat, topic_error) result" where
  "grant_restrict i permissions l s =
     (case limits_validate l of Err e \<Rightarrow> (s, Err e) | Ok _ \<Rightarrow>
      if length permissions > li_streams l then (s, Err TopicError_Capacity)
      else (case check_all s i permissions of Err e \<Rightarrow> (s, Err e) | Ok _ \<Rightarrow>
      (case partition_limits l permissions of Err e \<Rightarrow> (s, Err e) | Ok generic \<Rightarrow>
       (let reservation = (if gn_permissions (node s i) = None then l else generic)
        in case checked_add usize_max (li_grants reservation) 1 of
             None \<Rightarrow> (s, Err TopicError_InvalidConfig)
           | Some count \<Rightarrow>
              (case try_charge i (reservation\<lparr>li_grants := count\<rparr>) s of
                 (s, Err e) \<Rightarrow> (s, Err e)
               | (s, Ok lease) \<Rightarrow>
                  (case (if gn_permissions (node s i) = None then (s, Ok [])
                         else charge_streams i [] (compact_permissions permissions) s) of
                     (s, Err e) \<Rightarrow> (drop_lease lease s, Err e)
                   | (s, Ok event_reservations) \<Rightarrow>
                       register_child i
                         (node_new l generic
                            (Some (map event_allowance_new (compact_permissions permissions)))
                            (Some lease) event_reservations) s))))))"

subsection \<open>Operations\<close>

record operation_guard =
  og_node :: nat
  og_notify :: bool

definition drop_operation :: "operation_guard \<Rightarrow> grants \<Rightarrow> grants" where
  "drop_operation g s =
     (let previous = gn_state (node s (og_node g));
          s = update_node (og_node g) (\<lambda>n. n\<lparr>gn_state := previous - 1\<rparr>) s
      in if og_notify g \<and> previous = (REVOKED OR 1) then emit [Changed (og_node g)] s else s)"

text \<open>The closure \<open>advance\<close> of \<open>enter_mode\<close>.\<close>

definition advance :: "u64 \<Rightarrow> u64 option" where
  "advance state =
     (if state AND REVOKED = 0 \<and> (state AND ACTIVE_COUNT) < ACTIVE_COUNT then Some (state + 1) else None)"

definition refusal :: "u64 \<Rightarrow> topic_error" where
  "refusal state = (if state AND REVOKED \<noteq> 0 then TopicError_Revoked else TopicError_Capacity)"

definition enter_mode ::
    "nat \<Rightarrow> event_id \<Rightarrow> rights \<Rightarrow> bool \<Rightarrow> grants \<Rightarrow> grants \<times> (operation_guard, topic_error) result" where
  "enter_mode i event right notify s =
     (case grant_check s i event right of
        Err e \<Rightarrow> (s, Err e)
      | Ok _ \<Rightarrow>
          (let state = gn_state (node s i) in
           case advance state of
             None \<Rightarrow> (s, Err (refusal state))
           | Some entered \<Rightarrow>
               (let s = update_node i (\<lambda>n. n\<lparr>gn_state := entered\<rparr>) s;
                    operation = \<lparr>og_node = i, og_notify = notify\<rparr>
                in if is_revoked s i then (drop_operation operation s, Err TopicError_Revoked)
                   else (s, Ok operation))))"

definition maintain_operations :: "nat \<Rightarrow> grants \<Rightarrow> grants" where
  "maintain_operations i s =
     (if gn_state (node s i) AND REVOKED \<noteq> 0 then emit [Changed i] s else s)"

definition register_stream :: "nat \<Rightarrow> event_id \<Rightarrow> nat \<Rightarrow> grants \<Rightarrow> grants \<times> (unit, topic_error) result" where
  "register_stream i event notify s =
     (if is_revoked s i then (s, Err TopicError_Revoked)
      else
       (let streams = filter (\<lambda>(_, stream). stream \<in> set (gr_alive s)) (gn_streams (node s i))
        in if (event, notify) \<in> set streams then (s, Ok ())
           else if length streams \<ge> li_streams (gn_limits (node s i)) then (s, Err TopicError_Capacity)
           else
            (let s = update_node i (\<lambda>n. n\<lparr>gn_streams := streams @ [(event, notify)]\<rparr>) s
             in if is_revoked s i then (emit [Stream_changed notify] s, Err TopicError_Revoked)
                else (s, Ok ()))))"

definition node_notify :: "nat \<Rightarrow> grants \<Rightarrow> grants" where
  "node_notify i s =
     emit (Changed i # map (\<lambda>(_, stream). Stream_changed stream)
       (filter (\<lambda>(_, stream). stream \<in> set (gr_alive s)) (gn_streams (node s i)))) s"

text \<open>What \<open>revoke\<close> does at each node of the subtree.\<close>

definition revoke_mark :: "nat \<Rightarrow> grants \<Rightarrow> grants" where
  "revoke_mark i s =
     (let previous = gn_state (node s i);
          s = update_node i (\<lambda>n. n\<lparr>gn_state := previous OR REVOKED\<rparr>) s;
          s = (if previous AND REVOKED = 0 then emit [Revocation_changed i] s else s)
      in node_notify i s)"

subsection \<open>The state word\<close>

text \<open>Bit 63 says revoked, the other bits count the entered operations. \<open>state_word r c\<close> is the
  word with that content; below \<open>2 ^ 63\<close> the count never reaches the bit.\<close>

definition state_word :: "bool \<Rightarrow> nat \<Rightarrow> u64" where
  "state_word r c = (if r then REVOKED else 0) OR of_nat c"

lemma bit_of_nat_small: "c < 2 ^ n \<Longrightarrow> n \<le> k \<Longrightarrow> \<not> bit (of_nat c :: u64) k"
proof
  assume c: "c < 2 ^ n" "n \<le> k" and "bit (of_nat c :: u64) k"
  then have "bit c k" by (simp add: bit_of_nat_iff)
  then have "2 ^ k \<le> c"
    by (metis bit_iff_odd div_less even_zero leI)
  moreover have "(2::nat) ^ n \<le> 2 ^ k" using c(2) by simp
  ultimately show False using c(1) by linarith
qed

lemma bit_REVOKED: "bit REVOKED k \<longleftrightarrow> k = 63"
  unfolding REVOKED_def bit_push_bit_iff bit_1_iff by auto

lemma ACTIVE_COUNT_mask: "ACTIVE_COUNT = mask 63"
  by (simp add: ACTIVE_COUNT_def REVOKED_def mask_eq_exp_minus_1 push_bit_eq_mult)

lemma bit_state_word: "c < 2 ^ 63 \<Longrightarrow> bit (state_word r c) k \<longleftrightarrow> r \<and> k = 63 \<or> k < 63 \<and> bit (of_nat c :: u64) k"
  using bit_of_nat_small [of c 63 k] by (cases "k < 63") (auto simp: state_word_def bit_or_iff bit_REVOKED)

lemma and_REVOKED: "w AND REVOKED \<noteq> 0 \<longleftrightarrow> bit w 63"
proof -
  have "w AND REVOKED = (if bit w 63 then REVOKED else 0)"
    by (rule bit_word_eqI) (auto simp: bit_and_iff bit_REVOKED)
  moreover have "REVOKED \<noteq> 0" using bit_REVOKED [of 63] by auto
  ultimately show ?thesis by simp
qed

lemma state_word_revoked: "c < 2 ^ 63 \<Longrightarrow> state_word r c AND REVOKED \<noteq> 0 \<longleftrightarrow> r"
  by (simp add: and_REVOKED bit_state_word)

lemma state_word_count: 
  assumes "c < 2 ^ 63" shows "state_word r c AND ACTIVE_COUNT = of_nat c"
proof (rule bit_word_eqI)
  fix n
  show "bit (state_word r c AND ACTIVE_COUNT) n = bit (of_nat c :: u64) n"
    using bit_of_nat_small [OF assms, of n]
    by (cases "n < 63") (auto simp: ACTIVE_COUNT_mask bit_and_iff bit_mask_iff bit_state_word [OF assms])
qed

lemma state_word_revoke: "state_word r c OR REVOKED = state_word True c"
  by (auto simp: state_word_def or.assoc or.commute or.left_commute)

lemma state_word_add:
  assumes "c < 2 ^ 63" shows "state_word r c = (if r then REVOKED else 0) + of_nat c"
proof -
  have "(if r then REVOKED else 0) AND (of_nat c :: u64) = 0"
  proof (rule bit_word_eqI)
    fix n show "bit ((if r then REVOKED else 0) AND (of_nat c :: u64)) n = bit (0 :: u64) n"
      using bit_of_nat_small [OF assms, of 63] by (auto simp: bit_and_iff bit_REVOKED)
  qed
  then show ?thesis unfolding state_word_def
    by (simp add: disjunctive_add_eq_or)
qed

lemma state_word_Suc: "c + 1 < 2 ^ 63 \<Longrightarrow> state_word r c + 1 = state_word r (c + 1)"
  by (simp add: state_word_add algebra_simps)

lemma state_word_pred: "c + 1 < 2 ^ 63 \<Longrightarrow> state_word r (c + 1) - 1 = state_word r c"
  by (simp add: state_word_add algebra_simps)

lemma of_nat_less_ACTIVE:
  assumes "c < 2 ^ 63" shows "(of_nat c :: u64) < ACTIVE_COUNT \<longleftrightarrow> c < 2 ^ 63 - 1"
proof -
  have "unat ACTIVE_COUNT = 2 ^ 63 - 1" unfolding ACTIVE_COUNT_def REVOKED_def by simp
  moreover have "unat (of_nat c :: u64) = c" using assms by (simp add: unat_of_nat take_bit_nat_eq_self)
  ultimately show ?thesis by (simp add: word_less_nat_alt)
qed

lemma advance_state_word:
  assumes "c < 2 ^ 63"
  shows "advance (state_word r c) = (if \<not> r \<and> c < 2 ^ 63 - 1 then Some (state_word r (c + 1)) else None)"
  using assms state_word_revoked [OF assms, of r] of_nat_less_ACTIVE [OF assms] state_word_Suc [of c r]
  unfolding advance_def state_word_count [OF assms] by auto

lemma state_word_last:
  assumes "c < 2 ^ 63" shows "state_word r c = (REVOKED OR 1) \<longleftrightarrow> r \<and> c = 1"
proof
  assume e: "state_word r c = (REVOKED OR 1)"
  have one: "(REVOKED OR 1) = state_word True 1" by (simp add: state_word_def)
  have "r" using e state_word_revoked [OF assms, of r] state_word_revoked [of 1 True] one by simp
  moreover have "(of_nat c :: u64) = 1"
    using e state_word_count [OF assms, of r] state_word_count [of 1 True] one by simp
  then have "unat (of_nat c :: u64) = 1" by simp
  then have "c = 1" using assms by (simp add: unat_of_nat take_bit_nat_eq_self)
  ultimately show "r \<and> c = 1" by blast
qed (simp add: state_word_def)

lemma count_zero: "c < 2 ^ 63 \<Longrightarrow> (of_nat c :: u64) = 0 \<longleftrightarrow> c = 0"
  by (simp add: word_unat_eq_iff unat_of_nat take_bit_nat_eq_self)

end
