(* ===== verification/Hiway_Quota.thy ===== *)
theory Hiway_Quota
  imports Hiway_Grant "HOL-Library.Multiset"
begin

text \<open>
  Accounting of the grant tree. The invariant says that every pool counter equals the sum of the
  live leases charged to it and stays within the pool's limits, and that every node's allowance is
  backed by leases on its parent. Live leases are those the clients hold and those the live nodes
  own; they are kept as a multiset.
\<close>

subsection \<open>Frames\<close>

lemma length_update_node [simp]: "length (gr_nodes (update_node i f s)) = length (gr_nodes s)"
  by (simp add: update_node_def)

lemma node_update_node: "node (update_node i f s) j =
    (if j = i \<and> i < length (gr_nodes s) then f (node s i) else node s j)"
  by (cases "i < length (gr_nodes s)") (auto simp: update_node_def nth_list_update list_update_beyond)

lemma gr_nodes_emit [simp]: "gr_nodes (emit ns s) = gr_nodes s"
  by (simp add: emit_def)

lemma emit_Nil [simp]: "emit [] s = s"
  by (simp add: emit_def)

lemma emit_emit: "emit b (emit a s) = emit (a @ b) s"
  by (simp add: emit_def)

lemma notify_release_emit: "\<exists>ns. notify_release i ev s = emit ns s"
  by (cases ev) (auto simp: notify_release_def emit_emit)

lemma update_node_same: "f (node s i) = node s i \<Longrightarrow> update_node i f s = s"
  by (simp add: update_node_def)

lemma revoked_walk_cong:
  assumes "\<And>j. gn_state (node t j) = gn_state (node s j)"
    and "\<And>j. gn_parent_reservation (node t j) = gn_parent_reservation (node s j)"
  shows "revoked_walk fuel t i = revoked_walk fuel s i"
  by (induction fuel arbitrary: i) (simp_all add: assms split: option.split)

lemma is_revoked_update:
  assumes "\<And>n. gn_state (f n) = gn_state n" and "\<And>n. gn_parent_reservation (f n) = gn_parent_reservation n"
  shows "is_revoked (update_node i f s) j = is_revoked s j"
  unfolding is_revoked_def length_update_node
  by (rule revoked_walk_cong) (simp_all add: node_update_node assms)

lemma is_revoked_emit [simp]: "is_revoked (emit ns s) i = is_revoked s i"
  unfolding is_revoked_def gr_nodes_emit by (rule revoked_walk_cong) simp_all

subsection \<open>Pools of a node\<close>

fun valid_pool :: "grant_node \<Rightarrow> nat option \<Rightarrow> bool" where
  "valid_pool n None = True"
| "valid_pool n (Some j) = (case gn_permissions n of None \<Rightarrow> False | Some as \<Rightarrow> j < length as)"

lemma set_usage_simps [simp]:
  "gn_limits (set_usage ev u n) = gn_limits n"
  "gn_parent_reservation (set_usage ev u n) = gn_parent_reservation n"
  "gn_event_reservations (set_usage ev u n) = gn_event_reservations n"
  "gn_state (set_usage ev u n) = gn_state n"
  "gn_children (set_usage ev u n) = gn_children n"
  "gn_dropped (set_usage ev u n) = gn_dropped n"
  "own_leases (set_usage ev u n) = own_leases n"
  by (cases ev; simp add: own_leases_def)+

lemma valid_pool_set_usage [simp]: "valid_pool (set_usage ev u n) ev' = valid_pool n ev'"
  by (cases ev; cases ev') (auto split: option.split)

lemma pool_of_set_usage:
  assumes "valid_pool n ev" and "valid_pool n ev'"
  shows "pool_of (set_usage ev u n) ev' = (if ev' = ev then (pool_of n ev)\<lparr>pl_usage := u\<rparr> else pool_of n ev')"
  using assms by (cases ev; cases ev') (auto split: option.splits)

lemma set_usage_same: "valid_pool n ev \<Longrightarrow> set_usage ev (pl_usage (pool_of n ev)) n = n"
  by (cases ev) (auto split: option.splits simp: list_update_same_conv)

text \<open>What never changes in a node: limits, permissions, reservations.\<close>

type_synonym essence =
  "limits \<times> limits \<times> (permission \<times> limits) list option \<times> lease option \<times> lease list"

definition essence :: "grant_node \<Rightarrow> essence" where
  "essence n = (gn_limits n, pl_limits (gn_pool n),
     map_option (map (\<lambda>a. (ea_permission a, pl_limits (ea_pool a)))) (gn_permissions n),
     gn_parent_reservation n, gn_event_reservations n)"

lemma nth_list_update_inside: "k < length xs \<Longrightarrow> xs[j := x] ! k = (if j = k then x else xs ! k)"
  by (cases "j = k") auto

lemma essence_set_usage [simp]: "essence (set_usage ev u n) = essence n"
proof (cases ev)
  case (Some j)
  show ?thesis
    by (cases "gn_permissions n")
      (auto simp: Some essence_def nth_list_update_inside intro!: nth_equalityI)
qed (simp add: essence_def)

subsection \<open>Charges\<close>

lemma charge_loop_spec:
  "charge_loop requested limits usage index = (counters, r) \<Longrightarrow>
   length usage = length requested \<Longrightarrow>
   (case r of None \<Rightarrow> True
    | Some j \<Rightarrow> index \<le> j \<and> j < length requested \<and> 0 < requested ! j
        \<and> \<not> (usage ! j + requested ! j \<le> limits ! j \<and> usage ! j + requested ! j \<le> usize_max))
   \<and> length counters = length usage
   \<and> (\<forall>k < length requested. counters ! k =
        usage ! k + (if index \<le> k \<and> (case r of None \<Rightarrow> True | Some j \<Rightarrow> k < j) then requested ! k else 0))
   \<and> (\<forall>k < length requested. index \<le> k \<and> (case r of None \<Rightarrow> True | Some j \<Rightarrow> k < j) \<and> 0 < requested ! k \<longrightarrow>
        counters ! k \<le> limits ! k)"
proof (induction requested limits usage index rule: charge_loop.induct)
  case (1 requested limits usage index)
  note run = "1.prems"(1) [unfolded charge_loop.simps [of requested limits usage index]]
  show ?case
  proof (cases "index < length requested")
    case False
    then show ?thesis using run by auto
  next
    case inside: True
    show ?thesis
    proof (cases "requested ! index = 0")
      case True
      then have "charge_loop requested limits usage (index + 1) = (counters, r)" using run inside by simp
      from "1.IH"(1) [OF inside True this "1.prems"(2)] show ?thesis
        using True by (auto simp: Suc_le_eq le_less split: option.splits)
    next
      case positive: False
      let ?sum = "usage ! index + requested ! index"
      have run': "(if ?sum \<le> usize_max \<and> ?sum \<le> limits ! index
          then charge_loop requested limits (usage[index := ?sum]) (index + 1) else (usage, Some index))
          = (counters, r)"
        using run inside positive by (auto simp: checked_add_def split: if_splits)
      show ?thesis
      proof (cases "?sum \<le> usize_max \<and> ?sum \<le> limits ! index")
        case False
        then show ?thesis using run' inside positive by auto
      next
        case True
        then have ok: "checked_add usize_max (usage ! index) (requested ! index) = Some ?sum" by simp
        have "charge_loop requested limits (usage[index := ?sum]) (index + 1) = (counters, r)"
          using run' True by simp
        from "1.IH"(2) [OF inside positive ok conjunct2 [OF True] this] "1.prems"(2) show ?thesis
          using True inside by (auto simp: Suc_le_eq nth_list_update le_less split: option.splits)
      qed
    qed
  qed
qed

lemma length_release_counters [simp]: "length (release_counters u a n) = length u"
  by (simp add: release_counters_def)

text \<open>A failed charge takes back exactly what it had added.\<close>

lemma charge_rollback:
  assumes "charge_loop requested limits usage 0 = (counters, Some j)" and "length usage = length requested"
  shows "release_counters counters requested j = usage"
proof -
  note spec = charge_loop_spec [OF assms]
  show ?thesis
    by (rule nth_equalityI) (use spec assms(2) in \<open>auto simp: release_counters_def fetch_sub_def\<close>)
qed


subsection \<open>The accounting invariant\<close>

definition charged :: "lease multiset \<Rightarrow> nat \<Rightarrow> nat option \<Rightarrow> nat \<Rightarrow> nat" where
  "charged M i ev k = (\<Sum>l \<in># filter_mset (\<lambda>l. ls_node l = i \<and> ls_event l = ev) M. allowance (ls_usage l) k)"

lemma charged_empty [simp]: "charged {#} i ev k = 0"
  by (simp add: charged_def)

lemma charged_add_mset [simp]:
  "charged (add_mset l M) i ev k =
     (if ls_node l = i \<and> ls_event l = ev then allowance (ls_usage l) k else 0) + charged M i ev k"
  by (simp add: charged_def)

definition pool_accounts :: "lease multiset \<Rightarrow> nat \<Rightarrow> nat option \<Rightarrow> pool \<Rightarrow> bool" where
  "pool_accounts M i ev p \<longleftrightarrow>
     length (pl_usage p) = 7
     \<and> (\<forall>k < 7. pl_usage p ! k = charged M i ev k \<and> pl_usage p ! k \<le> allowance (pl_limits p) k)"

definition accounts :: "grants \<Rightarrow> lease multiset \<Rightarrow> bool" where
  "accounts s M \<longleftrightarrow>
     (\<forall>i < length (gr_nodes s). \<forall>ev. valid_pool (node s i) ev \<longrightarrow> pool_accounts M i ev (pool_of (node s i) ev))"

definition lease_ok :: "grants \<Rightarrow> lease \<Rightarrow> bool" where
  "lease_ok s l \<longleftrightarrow> ls_node l < length (gr_nodes s) \<and> \<not> gn_dropped (node s (ls_node l))
     \<and> valid_pool (node s (ls_node l)) (ls_event l)"

definition node_ok :: "essence list \<Rightarrow> nat \<Rightarrow> bool" where
  "node_ok es i \<longleftrightarrow>
     (case es ! i of (l, generic, permissions, parent, events) \<Rightarrow>
        (\<forall>k < 7. allowance generic k
           + (\<Sum>a \<leftarrow> (case permissions of None \<Rightarrow> [] | Some as \<Rightarrow> as). allowance (snd a) k) = allowance l k)
        \<and> (case parent of
             None \<Rightarrow> permissions = None \<and> events = []
           | Some r \<Rightarrow>
               ls_node r < i \<and> (\<forall>e \<in> set events. ls_node e = ls_node r)
               \<and> (\<forall>k < 7. allowance l k \<le> allowance (ls_usage r) k + (\<Sum>e \<leftarrow> events. allowance (ls_usage e) k))
               \<and> (\<exists>as. permissions = Some as \<and> sorted_wrt (<) (map (event_key \<circ> fst) as)
                   \<and> (case es ! ls_node r of (_, _, upper, _, _) \<Rightarrow>
                        (case upper of None \<Rightarrow> True
                         | Some bs \<Rightarrow> \<forall>a \<in> fst ` set as. \<exists>b \<in> fst ` set bs.
                             pm_event b = pm_event a \<and> rights_contains (pm_rights b) (pm_rights a))))))"

definition essences :: "grants \<Rightarrow> essence list" where
  "essences s = map essence (gr_nodes s)"

definition tree_ok :: "essence list \<Rightarrow> bool" where
  "tree_ok es \<longleftrightarrow> (\<forall>i < length es. node_ok es i)"

definition grants_ok :: "grants \<Rightarrow> lease multiset \<Rightarrow> bool" where
  "grants_ok s M \<longleftrightarrow> tree_ok (essences s) \<and> (\<forall>l \<in># M. lease_ok s l) \<and> accounts s M"

lemma essences_update:
  "(\<And>n. essence (f n) = essence n) \<Longrightarrow> essences (update_node i f s) = essences s"
  by (auto simp: essences_def update_node_def intro!: nth_equalityI simp: nth_list_update_inside)

lemma essences_emit [simp]: "essences (emit ns s) = essences s"
  by (simp add: essences_def)

text \<open>Steps that leave pools, drops and essences alone keep the invariant.\<close>

lemma grants_ok_emit [simp]: "grants_ok (emit ns s) M = grants_ok s M"
  by (simp add: grants_ok_def lease_ok_def accounts_def)

lemma grants_ok_update_other:
  assumes "\<And>n. essence (f n) = essence n" and "\<And>n. gn_dropped (f n) = gn_dropped n"
    and "\<And>n ev. pool_of (f n) ev = pool_of n ev" and "\<And>n ev. valid_pool (f n) ev = valid_pool n ev"
  shows "grants_ok (update_node i f s) M = grants_ok s M"
proof -
  have "gn_dropped (node (update_node i f s) j) = gn_dropped (node s j)"
    "pool_of (node (update_node i f s) j) ev = pool_of (node s j) ev"
    "valid_pool (node (update_node i f s) j) ev = valid_pool (node s j) ev" for j ev
    by (auto simp: node_update_node assms)
  then show ?thesis by (simp add: grants_ok_def lease_ok_def accounts_def essences_update assms(1))
qed

lemma lease_ok_set_usage [simp]: "lease_ok (update_node i (set_usage ev u) s) l = lease_ok s l"
  by (simp add: lease_ok_def node_update_node)

text \<open>Setting the counters of one pool.\<close>

lemma accounts_set_usage:
  assumes "accounts s M" and i: "i < length (gr_nodes s)" "valid_pool (node s i) ev"
    and u: "pool_accounts M' i ev ((pool_of (node s i) ev)\<lparr>pl_usage := u\<rparr>)"
    and other: "\<And>j ev' k. (j, ev') \<noteq> (i, ev) \<Longrightarrow> charged M' j ev' k = charged M j ev' k"
  shows "accounts (update_node i (set_usage ev u) s) M'"
  unfolding accounts_def length_update_node
proof (intro allI impI)
  fix j ev'
  assume j: "j < length (gr_nodes s)" and v: "valid_pool (node (update_node i (set_usage ev u) s) j) ev'"
  show "pool_accounts M' j ev' (pool_of (node (update_node i (set_usage ev u) s) j) ev')"
  proof (cases "j = i \<and> ev' = ev")
    case True
    then show ?thesis using u i by (simp add: node_update_node pool_of_set_usage)
  next
    case False
    have v': "valid_pool (node s j) ev'" using v by (auto simp: node_update_node split: if_splits)
    have "pool_of (node (update_node i (set_usage ev u) s) j) ev' = pool_of (node s j) ev'"
      using False v' i by (auto simp: node_update_node pool_of_set_usage)
    moreover have "pool_accounts M j ev' (pool_of (node s j) ev')" using assms(1) j v' by (simp add: accounts_def)
    ultimately show ?thesis using other [of j ev'] False unfolding pool_accounts_def by (metis prod.inject)
  qed
qed


subsection \<open>Charging and releasing\<close>

text \<open>Everything in a node but its counters.\<close>

definition still :: "grant_node \<Rightarrow> essence \<times> u64 \<times> nat list \<times> bool \<times> (event_id \<times> nat) list" where
  "still n = (essence n, gn_state n, gn_children n, gn_dropped n, gn_streams n)"

definition framed :: "grants \<Rightarrow> grants \<Rightarrow> bool" where
  "framed s t \<longleftrightarrow> length (gr_nodes t) = length (gr_nodes s) \<and> (\<forall>j. still (node t j) = still (node s j))"

lemma framed_refl [simp]: "framed s s"
  by (simp add: framed_def)

lemma framed_trans: "framed s t \<Longrightarrow> framed t u \<Longrightarrow> framed s u"
  by (simp add: framed_def)

lemma framed_emit [simp]: "framed s (emit ns t) = framed s t"
  by (simp add: framed_def)

lemma gn_streams_set_usage [simp]: "gn_streams (set_usage ev u n) = gn_streams n"
  by (cases ev) simp_all

lemma framed_set_usage [simp]: "framed s (update_node i (set_usage ev u) s)"
  by (auto simp: framed_def node_update_node still_def)

lemma framedD:
  assumes "framed s t"
  shows "length (gr_nodes t) = length (gr_nodes s)" "essence (node t j) = essence (node s j)"
    "gn_state (node t j) = gn_state (node s j)" "gn_children (node t j) = gn_children (node s j)"
    "gn_dropped (node t j) = gn_dropped (node s j)"
    "gn_parent_reservation (node t j) = gn_parent_reservation (node s j)"
    "own_leases (node t j) = own_leases (node s j)" "valid_pool (node t j) ev = valid_pool (node s j) ev"
    "event_index (node t j) e = event_index (node s j) e"
    "gn_permissions (node t j) = None \<longleftrightarrow> gn_permissions (node s j) = None"
proof -
  have e: "essence (node t j) = essence (node s j)" using assms by (simp add: framed_def still_def)
  have perms: "map_option (map (\<lambda>a. (ea_permission a, pl_limits (ea_pool a)))) (gn_permissions (node t j))
      = map_option (map (\<lambda>a. (ea_permission a, pl_limits (ea_pool a)))) (gn_permissions (node s j))"
    using e by (simp add: essence_def)
  show "essence (node t j) = essence (node s j)" by (rule e)
  have pool_len: "length as = length bs"
    if "map (\<lambda>a. (ea_permission a, pl_limits (ea_pool a))) as = map (\<lambda>a. (ea_permission a, pl_limits (ea_pool a))) bs"
    for as bs :: "event_allowance list" using map_eq_imp_length_eq [OF that] .
  show "valid_pool (node t j) ev = valid_pool (node s j) ev"
  proof (cases ev)
    case (Some index)
    show ?thesis
      by (cases "gn_permissions (node t j)"; cases "gn_permissions (node s j)")
        (use perms Some in \<open>auto dest: pool_len\<close>)
  qed simp
  have pos: "position_of e as = position_of e bs"
    if "map (\<lambda>a. (ea_permission a, pl_limits (ea_pool a))) as = map (\<lambda>a. (ea_permission a, pl_limits (ea_pool a))) bs"
    for as bs :: "event_allowance list" using that
  proof (induction as arbitrary: bs)
    case (Cons a as)
    then obtain b bs' where "bs = b # bs'" by (cases bs) auto
    with Cons show ?case by simp
  qed simp
  show "event_index (node t j) e = event_index (node s j) e"
  proof (cases "gn_permissions (node t j)")
    case None
    then show ?thesis using perms by (simp add: event_index_def)
  next
    case (Some as)
    then obtain bs where bs: "gn_permissions (node s j) = Some bs" using perms by (cases "gn_permissions (node s j)") auto
    have "position_of e as = position_of e bs" by (rule pos) (use perms Some bs in simp)
    then show ?thesis unfolding event_index_def Some bs by simp
  qed
  show "gn_permissions (node t j) = None \<longleftrightarrow> gn_permissions (node s j) = None"
    using perms by (cases "gn_permissions (node t j)"; cases "gn_permissions (node s j)") auto
qed (use assms in \<open>simp_all add: framed_def still_def essence_def own_leases_def\<close>)

lemma framed_is_revoked: "framed s t \<Longrightarrow> is_revoked t i = is_revoked s i"
  unfolding is_revoked_def by (simp add: framedD(1)) (rule revoked_walk_cong; simp add: framedD)

lemma framed_lease_ok: "framed s t \<Longrightarrow> lease_ok t l = lease_ok s l"
  by (simp add: lease_ok_def framedD)

lemma framed_essences: "framed s t \<Longrightarrow> essences t = essences s"
  by (auto simp: essences_def framedD intro!: nth_equalityI)

lemma drop_lease_exec:
  "\<exists>ns. drop_lease l s = emit ns (update_node (ls_node l) (set_usage (ls_event l)
      (release_counters (pl_usage (pool_of (node s (ls_node l)) (ls_event l))) (limits_values (ls_usage l)) 7)) s)"
  using notify_release_emit by (auto simp: drop_lease_def Let_def intro: exI [of _ "[]"])

lemma framed_drop_lease [simp]: "framed s (drop_lease l s)"
  using drop_lease_exec [of l s] by auto

lemma grants_ok_drop_lease:
  assumes ok: "grants_ok s (add_mset l M)"
  shows "grants_ok (drop_lease l s) M"
proof -
  let ?i = "ls_node l" and ?ev = "ls_event l"
  let ?p = "pool_of (node s ?i) ?ev"
  let ?u = "release_counters (pl_usage ?p) (limits_values (ls_usage l)) 7"
  obtain ns where ns: "drop_lease l s = emit ns (update_node ?i (set_usage ?ev ?u) s)"
    using drop_lease_exec by blast
  have l: "?i < length (gr_nodes s)" "valid_pool (node s ?i) ?ev"
    using ok by (auto simp: grants_ok_def lease_ok_def)
  have acc: "accounts s (add_mset l M)" using ok by (simp add: grants_ok_def)
  then have p: "pool_accounts (add_mset l M) ?i ?ev ?p" using l by (simp add: accounts_def)
  have "pool_accounts M ?i ?ev (?p\<lparr>pl_usage := ?u\<rparr>)"
    unfolding pool_accounts_def
  proof (intro conjI allI impI)
    fix k :: nat assume k: "k < 7"
    have "pl_usage ?p ! k = allowance (ls_usage l) k + charged M ?i ?ev k"
      "pl_usage ?p ! k \<le> allowance (pl_limits ?p) k" "length (pl_usage ?p) = 7"
      using p k by (auto simp: pool_accounts_def)
    then show "pl_usage (?p\<lparr>pl_usage := ?u\<rparr>) ! k = charged M ?i ?ev k"
      "pl_usage (?p\<lparr>pl_usage := ?u\<rparr>) ! k \<le> allowance (pl_limits (?p\<lparr>pl_usage := ?u\<rparr>)) k"
      using k by (auto simp: release_counters_def fetch_sub_def)
  qed (use p in \<open>simp add: pool_accounts_def\<close>)
  then have "accounts (update_node ?i (set_usage ?ev ?u) s) M"
    by (rule accounts_set_usage [OF acc l]) auto
  then show ?thesis
    using ok unfolding ns grants_ok_emit by (simp add: grants_ok_def essences_update)
qed

lemma drop_leases_ok:
  "grants_ok s (mset ls + M) \<Longrightarrow> grants_ok (drop_leases ls s) M"
  by (induction ls arbitrary: s) (simp_all add: drop_leases_def grants_ok_drop_lease)

lemma framed_drop_leases [simp]: "framed s (drop_leases ls s)"
proof (induction ls arbitrary: s)
  case (Cons l ls)
  then show ?case using framed_trans [OF framed_drop_lease, of l s] by (simp add: drop_leases_def)
qed (simp add: drop_leases_def)

lemma grant_charge_cases:
  assumes ok: "grants_ok s M" and i: "i < length (gr_nodes s)" "\<not> gn_dropped (node s i)" "valid_pool (node s i) ev"
    and run: "grant_charge i ev usage s = (s', r)"
  obtains (charged) l where "r = Ok l" "l = \<lparr>ls_node = i, ls_usage = usage, ls_event = ev\<rparr>"
      "grants_ok s' (add_mset l M)" "framed s s'" "\<not> is_revoked s i"
      "\<forall>k < 7. charged M i ev k + allowance usage k \<le> allowance (pl_limits (pool_of (node s i) ev)) k"
    | (revoked) "r = Err TopicError_Revoked" "s' = s" "is_revoked s i"
    | (refused) k ns where "r = Err TopicError_Capacity" "s' = emit ns s" "\<not> is_revoked s i" "k < 7"
      "0 < allowance usage k"
      "\<not> (charged M i ev k + allowance usage k \<le> allowance (pl_limits (pool_of (node s i) ev)) k
          \<and> charged M i ev k + allowance usage k \<le> usize_max)"
proof (cases "is_revoked s i")
  case True
  then show thesis using run revoked by (simp add: grant_charge_def)
next
  case False
  let ?p = "pool_of (node s i) ev"
  have acc: "accounts s M" using ok by (simp add: grants_ok_def)
  then have p: "pool_accounts M i ev ?p" using i by (simp add: accounts_def)
  then have len: "length (pl_usage ?p) = length (limits_values usage)" by (simp add: pool_accounts_def)
  obtain counters q where loop:
    "charge_loop (limits_values usage) (limits_values (pl_limits ?p)) (pl_usage ?p) 0 = (counters, q)"
    by (cases "charge_loop (limits_values usage) (limits_values (pl_limits ?p)) (pl_usage ?p) 0")
  note spec = charge_loop_spec [OF loop len]
  show thesis
  proof (cases q)
    case None
    let ?l = "\<lparr>ls_node = i, ls_usage = usage, ls_event = ev\<rparr>"
    let ?s = "update_node i (set_usage ev counters) s"
    have sums: "counters ! k = charged M i ev k + allowance usage k"
      "counters ! k \<le> allowance (pl_limits ?p) k" if "k < 7" for k
      using spec None p that by (cases "allowance usage k = 0"; force simp: pool_accounts_def)+
    have "pool_accounts (add_mset ?l M) i ev (?p\<lparr>pl_usage := counters\<rparr>)"
      using sums spec len by (simp add: pool_accounts_def)
    then have "accounts ?s (add_mset ?l M)"
      by (rule accounts_set_usage [OF acc i(1,3)]) auto
    moreover have "lease_ok s ?l" using i by (simp add: lease_ok_def)
    ultimately have ok': "grants_ok ?s (add_mset ?l M)"
      using ok by (simp add: grants_ok_def essences_update)
    have rev: "\<not> is_revoked ?s i" using False by (simp add: is_revoked_update)
    have "s' = ?s" "r = Ok ?l"
      using run False loop None rev by (simp_all add: grant_charge_def Let_def)
    then show thesis using charged [of ?l] ok' False sums by simp
  next
    case (Some j)
    have same: "update_node i (set_usage ev (release_counters counters (limits_values usage) j)) s = s"
      using charge_rollback [OF loop [unfolded Some] len] i set_usage_same [of "node s i" ev]
      by (simp add: update_node_same)
    obtain ns where "notify_release i ev s = emit ns s" using notify_release_emit by blast
    moreover have "r = Err TopicError_Capacity" "s' = notify_release i ev s \<or> s' = s"
      using run False loop Some same by (auto simp: grant_charge_def Let_def split: if_splits)
    ultimately have "r = Err TopicError_Capacity" "\<exists>ns. s' = emit ns s"
      using emit_Nil [of s] by metis+
    then show thesis
      using refused [of _ j] spec Some p False by (auto simp: pool_accounts_def)
  qed
qed


lemma position_of_Some:
  "position_of e as = Some k \<Longrightarrow> k < length as \<and> pm_event (ea_permission (as ! k)) = e"
  by (induction as arbitrary: k) (auto split: if_splits)

lemma event_index_valid: "event_index n e = Ok k \<Longrightarrow> valid_pool n (Some k)"
  using position_of_Some by (fastforce simp: event_index_def split: option.splits)

lemma charge_streams_ok:
  assumes "charge_streams i taken ps s = (s', r)" and "grants_ok s (mset taken + M)"
    and "i < length (gr_nodes s)" and "\<not> gn_dropped (node s i)"
  shows "framed s s' \<and>
    (case r of
       Err e \<Rightarrow> grants_ok s' M
     | Ok ls \<Rightarrow> grants_ok s' (mset ls + M)
         \<and> (\<exists>new. ls = taken @ new
              \<and> list_all2 (\<lambda>l p. ls_node l = i \<and> ls_usage l = as_limits (pm_limits p)) new ps))"
  using assms
proof (induction ps arbitrary: taken s)
  case (Cons p ps)
  obtain s1 r1 where one: "try_charge_stream i (pm_event p) (pm_limits p) s = (s1, r1)"
    by (cases "try_charge_stream i (pm_event p) (pm_limits p) s")
  show ?case
  proof (cases "event_index (node s i) (pm_event p)")
    case (Err e)
    then have "s1 = s" "r1 = Err e" using one by (simp_all add: try_charge_stream_def)
    then show ?thesis using Cons.prems one drop_leases_ok [of s taken M] by auto
  next
    case (Ok index)
    then have charge: "grant_charge i (Some index) (as_limits (pm_limits p)) s = (s1, r1)"
      using one by (simp add: try_charge_stream_def)
    from Cons.prems(2-4) event_index_valid [OF Ok] charge show ?thesis
    proof (cases rule: grant_charge_cases)
      case (charged l)
      have "charge_streams i (taken @ [l]) ps s1 = (s', r)" using Cons.prems(1) one charged(1) by simp
      moreover have "grants_ok s1 (mset (taken @ [l]) + M)" using charged(3) by simp
      ultimately have "framed s1 s' \<and>
        (case r of
           Err e \<Rightarrow> grants_ok s' M
         | Ok ls \<Rightarrow> grants_ok s' (mset ls + M)
             \<and> (\<exists>new. ls = (taken @ [l]) @ new
                  \<and> list_all2 (\<lambda>l p. ls_node l = i \<and> ls_usage l = as_limits (pm_limits p)) new ps))"
        by (rule Cons.IH) (use Cons.prems framedD [OF charged(4)] in simp_all)
      moreover have "ls_node l = i \<and> ls_usage l = as_limits (pm_limits p)" using charged(2) by simp
      ultimately show ?thesis
        using framed_trans [OF charged(4), of s']
        by (cases r) (auto intro: exI [where P = "\<lambda>new. _ @ _ = _ @ new \<and> _ new" and x = "l # _"])
    next
      case revoked
      then show ?thesis using Cons.prems one drop_leases_ok [of s taken M] by auto
    next
      case (refused k ns)
      have "framed s (drop_leases taken (emit ns s))"
        by (rule framed_trans [OF _ framed_drop_leases]) simp
      then show ?thesis
        using Cons.prems one refused drop_leases_ok [of "emit ns s" taken M] by auto
    qed
  qed
qed auto

subsection \<open>Children\<close>

text \<open>The walk to the root: with parents older than children its fuel does not matter.\<close>

lemma tree_ok_parent:
  assumes "tree_ok (essences s)" and "i < length (gr_nodes s)" and "gn_parent_reservation (node s i) = Some r"
  shows "ls_node r < i"
  using assms by (auto simp: tree_ok_def node_ok_def essences_def essence_def)

lemma revoked_walk_fuel:
  assumes "tree_ok (essences s)"
  shows "i < length (gr_nodes s) \<Longrightarrow> i < fuel \<Longrightarrow> revoked_walk fuel s i = revoked_walk (Suc i) s i"
proof (induction i arbitrary: fuel rule: less_induct)
  case (less i)
  then obtain f where f: "fuel = Suc f" "i \<le> f" by (cases fuel) auto
  show ?case
  proof (cases "gn_parent_reservation (node s i)")
    case (Some r)
    then have r: "ls_node r < i" by (rule tree_ok_parent [OF assms less.prems(1)])
    then have "revoked_walk f s (ls_node r) = revoked_walk i s (ls_node r)"
      using less.IH [OF r, of f] less.IH [OF r, of i] less.prems f by simp
    then show ?thesis using Some f by simp
  qed (use f in simp)
qed

lemma is_revoked_step:
  assumes "tree_ok (essences s)" and "i < length (gr_nodes s)"
  shows "is_revoked s i \<longleftrightarrow> gn_state (node s i) AND REVOKED \<noteq> 0
    \<or> (case gn_parent_reservation (node s i) of None \<Rightarrow> False | Some r \<Rightarrow> is_revoked s (ls_node r))"
proof (cases "gn_parent_reservation (node s i)")
  case (Some r)
  then have r: "ls_node r < i" by (rule tree_ok_parent [OF assms])
  have "revoked_walk i s (ls_node r) = is_revoked s (ls_node r)"
    unfolding is_revoked_def
    using revoked_walk_fuel [OF assms(1), of "ls_node r" i] r
      revoked_walk_fuel [OF assms(1), of "ls_node r" "length (gr_nodes s)"] assms(2) by simp
  then show ?thesis
    using revoked_walk_fuel [OF assms(1,2), of "length (gr_nodes s)"] assms(2) Some
    by (simp add: is_revoked_def)
qed (use revoked_walk_fuel [OF assms(1,2), of "length (gr_nodes s)"] assms(2) in \<open>simp add: is_revoked_def\<close>)

definition add_node :: "grant_node \<Rightarrow> grants \<Rightarrow> grants" where
  "add_node c s = s\<lparr>gr_nodes := gr_nodes s @ [c]\<rparr>"

lemma add_node_simps [simp]:
  "length (gr_nodes (add_node c s)) = Suc (length (gr_nodes s))"
  "essences (add_node c s) = essences s @ [essence c]"
  by (simp_all add: add_node_def essences_def)

lemma node_add_node: "j \<le> length (gr_nodes s) \<Longrightarrow>
    node (add_node c s) j = (if j < length (gr_nodes s) then node s j else c)"
  by (auto simp: add_node_def nth_append)

lemma node_ok_append: "i < length es \<Longrightarrow> node_ok es i \<Longrightarrow> node_ok (es @ [e]) i"
proof -
  assume i: "i < length es" and ok: "node_ok es i"
  obtain l g ps parent events where es: "es ! i = (l, g, ps, parent, events)" by (cases "es ! i")
  have es': "(es @ [e]) ! i = (l, g, ps, parent, events)" using i es by (simp add: nth_append)
  show "node_ok (es @ [e]) i"
  proof (cases parent)
    case None
    then show ?thesis using ok unfolding node_ok_def es es' by auto
  next
    case (Some r)
    then have "ls_node r < i" using ok unfolding node_ok_def es by simp
    then have "(es @ [e]) ! ls_node r = es ! ls_node r" using i by (simp add: nth_append)
    then show ?thesis using ok Some unfolding node_ok_def es es' by simp
  qed
qed

lemma tree_ok_snoc: "tree_ok es \<Longrightarrow> node_ok (es @ [e]) (length es) \<Longrightarrow> tree_ok (es @ [e])"
  by (auto simp: tree_ok_def node_ok_append less_Suc_eq)

lemma is_revoked_add_node:
  assumes "tree_ok (essences s)" and "tree_ok (essences (add_node c s))"
  shows "i < length (gr_nodes s) \<Longrightarrow> is_revoked (add_node c s) i = is_revoked s i"
proof (induction i rule: less_induct)
  case (less i)
  have same: "node (add_node c s) i = node s i" using less.prems by (simp add: node_add_node)
  show ?case
    using is_revoked_step [OF assms(1) less.prems] is_revoked_step [OF assms(2), of i] less
      tree_ok_parent [OF assms(1) less.prems]
    by (auto simp: same split: option.splits)
qed

lemma accounts_add_node:
  assumes ok: "grants_ok s M" and new: "\<And>ev. valid_pool c ev \<Longrightarrow> pl_usage (pool_of c ev) = replicate 7 0"
    and tree: "tree_ok (essences (add_node c s))"
  shows "grants_ok (add_node c s) M"
proof -
  have leases: "lease_ok (add_node c s) l" if "l \<in># M" for l
    using ok that by (auto simp: grants_ok_def lease_ok_def node_add_node)
  have none: "charged M (length (gr_nodes s)) ev k = 0" for ev k
  proof -
    have "filter_mset (\<lambda>l. ls_node l = length (gr_nodes s) \<and> ls_event l = ev) M
        = filter_mset (\<lambda>_. False) M"
      by (rule filter_mset_cong) (use ok in \<open>auto simp: grants_ok_def lease_ok_def\<close>)
    then show ?thesis by (auto simp: charged_def)
  qed
  have "accounts (add_node c s) M"
    unfolding accounts_def
  proof (intro allI impI)
    fix i ev
    assume i: "i < length (gr_nodes (add_node c s))" and v: "valid_pool (node (add_node c s) i) ev"
    show "pool_accounts M i ev (pool_of (node (add_node c s) i) ev)"
    proof (cases "i < length (gr_nodes s)")
      case True
      then show ?thesis using ok v by (simp add: grants_ok_def accounts_def node_add_node)
    next
      case False
      then have "i = length (gr_nodes s)" using i by simp
      then show ?thesis using new [of ev] v none by (simp add: node_add_node pool_accounts_def)
    qed
  qed
  then show ?thesis using leases tree by (simp add: grants_ok_def)
qed


lemma check_all_Ok:
  "check_all s i ps = Ok u \<Longrightarrow> p \<in> set ps \<Longrightarrow> grant_check s i (pm_event p) (pm_rights p) = Ok ()"
  by (induction ps) (auto split: result.splits)

lemma grant_check_Ok:
  assumes "grant_check s i event right = Ok ()" and "gn_permissions (node s i) = Some as"
  obtains k where "position_of event as = Some k" "rights_contains (pm_rights (ea_permission (as ! k))) right"
  using assms by (auto simp: grant_check_def split: if_splits option.splits)

definition reservation_of :: "grants \<Rightarrow> nat \<Rightarrow> limits \<Rightarrow> limits \<Rightarrow> limits" where
  "reservation_of s i l generic = (if gn_permissions (node s i) = None then l else generic)"

lemma allowance_more_grants: "k < 7 \<Longrightarrow> li_grants l \<le> c \<Longrightarrow> allowance l k \<le> allowance (l\<lparr>li_grants := c\<rparr>) k"
  using all_less_7 [of "\<lambda>k. allowance l k \<le> allowance (l\<lparr>li_grants := c\<rparr>) k"]
  by (simp add: limits_values.simps)

definition child_of :: "limits \<Rightarrow> limits \<Rightarrow> permission list \<Rightarrow> lease \<Rightarrow> lease list \<Rightarrow> grant_node" where
  "child_of l generic ps lease events =
     node_new l generic (Some (map event_allowance_new (compact_permissions ps))) (Some lease) events"

lemma essence_child_of:
  "essence (child_of l generic ps lease events) =
     (l, generic, Some (map (\<lambda>p. (p, as_limits (pm_limits p))) (compact_permissions ps)), Some lease, events)"
  by (simp add: essence_def child_of_def node_new_def pool_new_def event_allowance_new_def)

lemma child_attenuated:
  assumes "check_all s i ps = Ok ()" and "gn_permissions (node s i) = Some as"
    and p: "p \<in> set (compact_permissions ps)"
  shows "\<exists>b \<in> set as. pm_event (ea_permission b) = pm_event p
    \<and> rights_contains (pm_rights (ea_permission b)) (pm_rights p)"
proof -
  obtain q where q: "q \<in> set ps" "pm_event q = pm_event p"
    using dedup_limits [of p "sort_key event_key ps"] p unfolding compact_permissions_def set_sort by blast
  obtain k where k: "position_of (pm_event p) as = Some k"
    using grant_check_Ok [OF check_all_Ok [OF assms(1) q(1)] assms(2)] q(2) by metis
  have "rights_contains (pm_rights (ea_permission (as ! k))) (pm_rights r)"
    if "r \<in> set ps" "pm_event r = pm_event p" for r
    using grant_check_Ok [OF check_all_Ok [OF assms(1) that(1)] assms(2)] that(2) k by (metis option.inject)
  then have "rights_contains (pm_rights (ea_permission (as ! k))) (pm_rights p)"
    using dedup_rights [of p "sort_key event_key ps"] p by (simp add: compact_permissions_def)
  then show ?thesis using position_of_Some [OF k] nth_mem by blast
qed

lemma sum_list_events:
  "list_all2 (\<lambda>l p. ls_node l = i \<and> ls_usage l = as_limits (pm_limits p)) ls ps \<Longrightarrow>
     (\<Sum>l \<leftarrow> ls. allowance (ls_usage l) k) = (\<Sum>p \<leftarrow> ps. allowance (as_limits (pm_limits p)) k)"
  by (induction ls ps rule: list_all2_induct) auto

lemma child_node_ok:
  assumes i: "i < length (gr_nodes s)" and part: "partition_limits l ps = Ok generic"
    and check: "check_all s i ps = Ok ()"
    and events: "if gn_permissions (node s i) = None then events = []
      else list_all2 (\<lambda>l p. ls_node l = i \<and> ls_usage l = as_limits (pm_limits p)) events (compact_permissions ps)"
    and lease: "ls_node lease = i"
      "ls_usage lease = (reservation_of s i l generic)\<lparr>li_grants := li_grants (reservation_of s i l generic) + 1\<rparr>"
  shows "node_ok (essences s @ [essence (child_of l generic ps lease events)]) (length (essences s))"
proof -
  have len: "length (essences s) = length (gr_nodes s)" by (simp add: essences_def)
  have parts: "allowance generic k + (\<Sum>p \<leftarrow> compact_permissions ps. allowance (as_limits (pm_limits p)) k) = allowance l k"
    if "k < 7" for k
    using partition_split [OF part] that by simp
  have nodes: "\<forall>e \<in> set events. ls_node e = i"
    using events by (auto simp: list_all2_conv_all_nth in_set_conv_nth split: if_splits)
  have backed: "allowance l k \<le> allowance (ls_usage lease) k + (\<Sum>e \<leftarrow> events. allowance (ls_usage e) k)"
    if "k < 7" for k
    using allowance_more_grants [OF that, of "reservation_of s i l generic" "li_grants (reservation_of s i l generic) + 1"]
      parts [OF that] events sum_list_events
    by (cases "gn_permissions (node s i) = None") (fastforce simp: lease reservation_of_def)+
  have "sorted_wrt (<) (map (event_key \<circ> fst) (map (\<lambda>p. (p, as_limits (pm_limits p))) (compact_permissions ps)))"
    using compact_sorted [of ps] by (simp add: comp_def)
  moreover have "\<forall>a \<in> fst ` set (map (\<lambda>p. (p, as_limits (pm_limits p))) (compact_permissions ps)).
      \<exists>b \<in> fst ` set bs. pm_event b = pm_event a \<and> rights_contains (pm_rights b) (pm_rights a)"
    if bs: "map_option (map (\<lambda>a. (ea_permission a, pl_limits (ea_pool a)))) (gn_permissions (node s i)) = Some bs" for bs
    using child_attenuated [OF check] bs by fastforce
  moreover have "essences s ! i = essence (node s i)" using i by (simp add: essences_def)
  ultimately show ?thesis
    using i nodes backed parts lease(1)
    unfolding node_ok_def nth_append_length essence_child_of prod.case
    by (auto simp: nth_append len essence_def comp_def split: option.split)
qed


lemma grants_ok_children [simp]:
  "grants_ok (update_node i (\<lambda>n. n\<lparr>gn_children := f n\<rparr>) s) M = grants_ok s M"
proof (rule grants_ok_update_other)
  show "pool_of (n\<lparr>gn_children := f n\<rparr>) ev = pool_of n ev" for n ev by (cases ev) simp_all
  show "valid_pool (n\<lparr>gn_children := f n\<rparr>) ev = valid_pool n ev" for n ev by (cases ev) simp_all
qed (simp_all add: essence_def)

lemma register_child_ok:
  assumes ok: "grants_ok s M" and i: "i < length (gr_nodes s)" "\<not> is_revoked s i"
    and child: "node_ok (essences s @ [essence c]) (length (essences s))"
    and new: "\<And>ev. valid_pool c ev \<Longrightarrow> pl_usage (pool_of c ev) = replicate 7 0"
  obtains cs where "register_child i c s =
      (update_node i (\<lambda>n. n\<lparr>gn_children := cs\<rparr>) (add_node c s), Ok (length (gr_nodes s)))"
    and "grants_ok (update_node i (\<lambda>n. n\<lparr>gn_children := cs\<rparr>) (add_node c s)) M"
    and "cs = filter (\<lambda>c'. \<not> gn_dropped (node (add_node c s) c')) (gn_children (node s i)) @ [length (gr_nodes s)]"
proof -
  have tree: "tree_ok (essences s)" using ok by (simp add: grants_ok_def)
  have tree': "tree_ok (essences (add_node c s))" using tree_ok_snoc [OF tree child] by simp
  have node: "node (add_node c s) i = node s i" using i(1) by (simp add: node_add_node)
  let ?cs = "filter (\<lambda>c'. \<not> gn_dropped (node (add_node c s) c')) (gn_children (node s i)) @ [length (gr_nodes s)]"
  have open1: "\<not> is_revoked (add_node c s) i" using is_revoked_add_node [OF tree tree' i(1)] i(2) by simp
  have open2: "\<not> is_revoked (update_node i (\<lambda>n. n\<lparr>gn_children := ?cs\<rparr>) (add_node c s)) i"
    using open1 by (subst is_revoked_update) simp_all
  have same: "update_node i (\<lambda>n. n\<lparr>gn_children := filter (\<lambda>c'. \<not> gn_dropped (node (add_node c s) c')) (gn_children n)
        @ [length (gr_nodes s)]\<rparr>) (add_node c s)
      = update_node i (\<lambda>n. n\<lparr>gn_children := ?cs\<rparr>) (add_node c s)"
    by (simp add: update_node_def node)
  have exec: "register_child i c s =
      (update_node i (\<lambda>n. n\<lparr>gn_children := ?cs\<rparr>) (add_node c s), Ok (length (gr_nodes s)))"
    unfolding register_child_def Let_def add_node_def [symmetric] same using open1 open2 by simp
  show thesis
    by (rule that [OF exec _ refl]) (simp add: accounts_add_node [OF ok new tree'])
qed

lemma child_pools_empty:
  "valid_pool (child_of l generic ps lease events) ev \<Longrightarrow>
     pl_usage (pool_of (child_of l generic ps lease events) ev) = replicate 7 0"
  by (cases ev) (simp_all add: child_of_def node_new_def pool_new_def event_allowance_new_def)

lemma grant_restrict_cases:
  assumes ok: "grants_ok s M" and i: "i < length (gr_nodes s)" "\<not> gn_dropped (node s i)"
    and run: "grant_restrict i ps l s = (s', r)"
  obtains (derived) lease events generic s1 cs where "r = Ok (length (gr_nodes s))" "framed s s1"
      "s' = update_node i (\<lambda>n. n\<lparr>gn_children := cs\<rparr>) (add_node (child_of l generic ps lease events) s1)"
      "grants_ok s' (add_mset lease (mset events + M))" "\<not> is_revoked s i" "check_all s i ps = Ok ()"
      "partition_limits l ps = Ok generic" "ls_node lease = i"
      "cs = filter (\<lambda>c'. \<not> gn_dropped (node (add_node (child_of l generic ps lease events) s1) c'))
        (gn_children (node s1 i)) @ [length (gr_nodes s1)]"
    | (refused) e where "r = Err e" "grants_ok s' M" "framed s s'"
proof (cases "\<exists>e. r = Err e \<and> s' = s")
  case True
  then show thesis using refused ok by auto
next
  case False
  note no = this
  from run no have valid: "limits_validate l = Ok ()" and few: "(length ps > li_streams l) = False"
    and check: "check_all s i ps = Ok ()"
    by (auto simp: grant_restrict_def split: result.splits if_splits)
  from this run no obtain generic where part: "partition_limits l ps = Ok generic"
    by (auto simp: grant_restrict_def split: result.splits)
  have run1: "(case checked_add usize_max (li_grants (reservation_of s i l generic)) 1 of
       None \<Rightarrow> (s, Err TopicError_InvalidConfig)
     | Some slots \<Rightarrow>
        (case try_charge i ((reservation_of s i l generic)\<lparr>li_grants := slots\<rparr>) s of
           (s, Err e) \<Rightarrow> (s, Err e)
         | (s, Ok lease) \<Rightarrow>
            (case (if gn_permissions (node s i) = None then (s, Ok [])
                   else charge_streams i [] (compact_permissions ps) s) of
               (s, Err e) \<Rightarrow> (drop_lease lease s, Err e)
             | (s, Ok events) \<Rightarrow> register_child i (child_of l generic ps lease events) s))) = (s', r)"
    using run unfolding grant_restrict_def reservation_of_def child_of_def Let_def
    by (simp only: valid few check part result.case if_False)
  let ?res = "(reservation_of s i l generic)\<lparr>li_grants := li_grants (reservation_of s i l generic) + 1\<rparr>"
  have count: "checked_add usize_max (li_grants (reservation_of s i l generic)) 1
      = Some (li_grants (reservation_of s i l generic) + 1)"
    using run1 no by (cases "checked_add usize_max (li_grants (reservation_of s i l generic)) 1")
      (auto simp: checked_add_def split: if_splits)
  obtain s1 r1 where charge: "grant_charge i None ?res s = (s1, r1)" by (cases "grant_charge i None ?res s")
  have v: "valid_pool (node s i) None" by simp
  from ok i v charge show thesis
  proof (cases rule: grant_charge_cases)
    case (charged lease)
    note f1 = framedD [OF charged(4)]
    obtain s2 r2 where streams:
      "(if gn_permissions (node s1 i) = None then (s1, Ok [])
        else charge_streams i [] (compact_permissions ps) s1) = (s2, r2)"
      by (cases "if gn_permissions (node s1 i) = None then (s1, Ok [])
        else charge_streams i [] (compact_permissions ps) s1")
    have run2: "(case r2 of Err e \<Rightarrow> (drop_lease lease s2, Err e)
        | Ok events \<Rightarrow> register_child i (child_of l generic ps lease events) s2) = (s', r)"
      using run1 charge charged(1) streams unfolding count try_charge_def by simp
    have i1: "i < length (gr_nodes s1)" "\<not> gn_dropped (node s1 i)" using i f1 by simp_all
    have two: "framed s1 s2 \<and> (case r2 of Err e \<Rightarrow> grants_ok s2 (add_mset lease M)
        | Ok events \<Rightarrow> grants_ok s2 (mset events + add_mset lease M)
            \<and> (if gn_permissions (node s i) = None then events = []
               else list_all2 (\<lambda>l p. ls_node l = i \<and> ls_usage l = as_limits (pm_limits p)) events
                 (compact_permissions ps)))"
    proof (cases "gn_permissions (node s i) = None")
      case True
      then show ?thesis using streams f1 charged(3) by auto
    next
      case False
      then have "(gn_permissions (node s1 i) = None) = False" using f1(10) by simp
      from streams [unfolded this if_False]
      have "charge_streams i [] (compact_permissions ps) s1 = (s2, r2)" .
      from charge_streams_ok [OF this, of "add_mset lease M"] charged(3) i1 show ?thesis
        using False by (auto split: result.splits)
    qed
    have f2: "framed s s2" using framed_trans [OF charged(4)] two by blast
    show thesis
    proof (cases r2)
      case (Err e)
      have "grants_ok s' M" "framed s s'" "r = Err e"
        using run2 Err two grants_ok_drop_lease framed_trans [OF f2 framed_drop_lease] by auto
      then show thesis using refused by blast
    next
      case (Ok events)
      let ?c = "child_of l generic ps lease events"
      have ok2: "grants_ok s2 (add_mset lease (mset events + M))" using two Ok by (simp add: ac_simps)
      have ev: "if gn_permissions (node s i) = None then events = []
          else list_all2 (\<lambda>l p. ls_node l = i \<and> ls_usage l = as_limits (pm_limits p)) events (compact_permissions ps)"
        using two Ok by simp
      have "node_ok (essences s @ [essence ?c]) (length (essences s))"
        by (rule child_node_ok [OF i(1) part check ev]) (simp_all add: charged(2))
      then have child: "node_ok (essences s2 @ [essence ?c]) (length (essences s2))"
        by (simp add: framed_essences [OF f2])
      have i2: "i < length (gr_nodes s2)" "\<not> is_revoked s2 i"
        using i(1) charged(5) framedD [OF f2] framed_is_revoked [OF f2] by simp_all
      obtain cs where reg: "register_child i ?c s2 =
          (update_node i (\<lambda>n. n\<lparr>gn_children := cs\<rparr>) (add_node ?c s2), Ok (length (gr_nodes s2)))"
        and ok3: "grants_ok (update_node i (\<lambda>n. n\<lparr>gn_children := cs\<rparr>) (add_node ?c s2)) (add_mset lease (mset events + M))"
        and cs: "cs = filter (\<lambda>c'. \<not> gn_dropped (node (add_node ?c s2) c')) (gn_children (node s2 i)) @ [length (gr_nodes s2)]"
        by (rule register_child_ok [OF ok2 i2 child child_pools_empty])
      have "r = Ok (length (gr_nodes s))"
        and "s' = update_node i (\<lambda>n. n\<lparr>gn_children := cs\<rparr>) (add_node ?c s2)"
        using run2 Ok reg framedD(1) [OF f2] by simp_all
      moreover have "ls_node lease = i" using charged(2) by simp
      ultimately show thesis using derived [OF _ f2 _ _ charged(5) check part _ cs] ok3 by blast
    qed
  next
    case revoked
    then show thesis using run1 charge no unfolding count try_charge_def by auto
  next
    case (refused k ns)
    then have "r = Err TopicError_Capacity" "s' = emit ns s"
      using run1 charge unfolding count try_charge_def by simp_all
    then show thesis using that(2) ok by simp
  qed
qed

end
