(* ===== verification/Hiway_Grant_Machine.thy ===== *)
theory Hiway_Grant_Machine
  imports Hiway_Quota
begin

text \<open>
  The grant tree as its clients drive it: calls on handles, with the leases and operation guards
  the clients hold. The invariant of \<open>Hiway_Quota\<close> is kept by every call, and so are the
  counts of entered operations in the state words.
\<close>

subsection \<open>The machine\<close>

record grant_machine =
  gm_store :: grants
  gm_leases :: "lease list"
  gm_guards :: "operation_guard list"

datatype grant_call =
    Charge nat limits
  | Charge_stream nat event_id stream_limits
  | Release nat
  | Restrict nat "permission list" limits
  | Enter nat event_id rights bool
  | Leave nat
  | Register_stream nat event_id nat
  | Maintain nat
  | Mark nat
  | Drop_handle nat

datatype grant_out =
    Leased "(lease, topic_error) result"
  | Derived "(nat, topic_error) result"
  | Entered "(operation_guard, topic_error) result"
  | Registered "(unit, topic_error) result"
  | Done

definition live_leases :: "grants \<Rightarrow> lease list" where
  "live_leases s = concat (map (\<lambda>n. if gn_dropped n then [] else own_leases n) (gr_nodes s))"

text \<open>A client can only call on a node it has a handle to.\<close>

definition handle :: "grants \<Rightarrow> nat \<Rightarrow> bool" where
  "handle s i \<longleftrightarrow> i < length (gr_nodes s) \<and> \<not> gn_dropped (node s i)"

text \<open>The last handle goes when neither a lease nor a guard nor a client refers to the node.\<close>

definition unreferenced :: "grant_machine \<Rightarrow> nat \<Rightarrow> bool" where
  "unreferenced m i \<longleftrightarrow>
     list_all (\<lambda>l. ls_node l \<noteq> i) (gm_leases m @ live_leases (gm_store m))
     \<and> list_all (\<lambda>g. og_node g \<noteq> i) (gm_guards m)"

definition remove_at :: "nat \<Rightarrow> 'x list \<Rightarrow> 'x list" where
  "remove_at k xs = take k xs @ drop (k + 1) xs"

fun keep_lease :: "grants \<times> (lease, topic_error) result \<Rightarrow> grant_machine \<Rightarrow> grant_machine \<times> grant_out" where
  "keep_lease (s, Ok l) m = (m\<lparr>gm_store := s, gm_leases := gm_leases m @ [l]\<rparr>, Leased (Ok l))"
| "keep_lease (s, Err e) m = (m\<lparr>gm_store := s\<rparr>, Leased (Err e))"

fun keep_guard :: "grants \<times> (operation_guard, topic_error) result \<Rightarrow> grant_machine \<Rightarrow> grant_machine \<times> grant_out" where
  "keep_guard (s, Ok g) m = (m\<lparr>gm_store := s, gm_guards := gm_guards m @ [g]\<rparr>, Entered (Ok g))"
| "keep_guard (s, Err e) m = (m\<lparr>gm_store := s\<rparr>, Entered (Err e))"

fun grant_step :: "grant_machine \<Rightarrow> grant_call \<Rightarrow> grant_machine \<times> grant_out" where
  "grant_step m (Charge i usage) =
     (if handle (gm_store m) i then keep_lease (try_charge i usage (gm_store m)) m else (m, Done))"
| "grant_step m (Charge_stream i event usage) =
     (if handle (gm_store m) i then keep_lease (try_charge_stream i event usage (gm_store m)) m else (m, Done))"
| "grant_step m (Release k) =
     (if k < length (gm_leases m)
      then (m\<lparr>gm_store := drop_lease (gm_leases m ! k) (gm_store m), gm_leases := remove_at k (gm_leases m)\<rparr>, Done)
      else (m, Done))"
| "grant_step m (Restrict i ps l) =
     (if handle (gm_store m) i
      then (case grant_restrict i ps l (gm_store m) of (s, r) \<Rightarrow> (m\<lparr>gm_store := s\<rparr>, Derived r))
      else (m, Done))"
| "grant_step m (Enter i event right notify) =
     (if handle (gm_store m) i then keep_guard (enter_mode i event right notify (gm_store m)) m else (m, Done))"
| "grant_step m (Leave k) =
     (if k < length (gm_guards m)
      then (m\<lparr>gm_store := drop_operation (gm_guards m ! k) (gm_store m), gm_guards := remove_at k (gm_guards m)\<rparr>, Done)
      else (m, Done))"
| "grant_step m (Register_stream i event notify) =
     (if handle (gm_store m) i
      then (case register_stream i event notify (gm_store m) of (s, r) \<Rightarrow> (m\<lparr>gm_store := s\<rparr>, Registered r))
      else (m, Done))"
| "grant_step m (Maintain i) =
     (if handle (gm_store m) i then (m\<lparr>gm_store := maintain_operations i (gm_store m)\<rparr>, Done) else (m, Done))"
| "grant_step m (Mark i) =
     (if handle (gm_store m) i then (m\<lparr>gm_store := revoke_mark i (gm_store m)\<rparr>, Done) else (m, Done))"
| "grant_step m (Drop_handle i) =
     (if handle (gm_store m) i \<and> unreferenced m i then (m\<lparr>gm_store := drop_node i (gm_store m)\<rparr>, Done)
      else (m, Done))"

definition machine_new :: "limits \<Rightarrow> grant_machine" where
  "machine_new l = \<lparr>gm_store = \<lparr>gr_nodes = [node_root l], gr_alive = [], gr_notices = []\<rparr>,
     gm_leases = [], gm_guards = []\<rparr>"

abbreviation all_leases :: "grant_machine \<Rightarrow> lease multiset" where
  "all_leases m \<equiv> mset (gm_leases m) + mset (live_leases (gm_store m))"

definition entered_count :: "operation_guard list \<Rightarrow> nat \<Rightarrow> nat" where
  "entered_count gs i = length (filter (\<lambda>g. og_node g = i) gs)"

definition guards_ok :: "grants \<Rightarrow> operation_guard list \<Rightarrow> bool" where
  "guards_ok s gs \<longleftrightarrow>
     (\<forall>g \<in> set gs. handle s (og_node g))
     \<and> (\<forall>i < length (gr_nodes s). entered_count gs i < 2 ^ 63
          \<and> (\<exists>r. gn_state (node s i) = state_word r (entered_count gs i)))"

definition machine_ok :: "grant_machine \<Rightarrow> bool" where
  "machine_ok m \<longleftrightarrow> grants_ok (gm_store m) (all_leases m) \<and> guards_ok (gm_store m) (gm_guards m)"

subsection \<open>Every call keeps it\<close>

lemma mset_remove_at: "k < length xs \<Longrightarrow> mset xs = add_mset (xs ! k) (mset (remove_at k xs))"
  unfolding remove_at_def by (subst (1) id_take_nth_drop [of k]) simp_all

lemma set_remove_at: "set (remove_at k xs) \<subseteq> set xs"
  using set_take_subset set_drop_subset by (fastforce simp: remove_at_def)

lemma framed_live_leases: "framed s t \<Longrightarrow> live_leases t = live_leases s"
  unfolding live_leases_def
  by (intro arg_cong [of _ _ concat] nth_equalityI) (simp_all add: framedD)

lemma framed_handle: "framed s t \<Longrightarrow> handle t i = handle s i"
  by (simp add: handle_def framedD)

lemma framed_guards_ok: "framed s t \<Longrightarrow> guards_ok t gs = guards_ok s gs"
  by (simp add: guards_ok_def framed_handle framedD)

lemma live_leases_update:
  assumes "\<And>n. gn_dropped (f n) = gn_dropped n" and "\<And>n. own_leases (f n) = own_leases n"
  shows "live_leases (update_node i f s) = live_leases s"
  unfolding live_leases_def
  by (intro arg_cong [of _ _ concat] nth_equalityI)
    (simp_all add: update_node_def nth_list_update_inside assms)

lemma live_leases_emit [simp]: "live_leases (emit ns s) = live_leases s"
  by (simp add: live_leases_def)

lemma handle_emit [simp]: "handle (emit ns s) i = handle s i"
  by (simp add: handle_def)

lemma guards_ok_emit [simp]: "guards_ok (emit ns s) gs = guards_ok s gs"
  by (simp add: guards_ok_def)

lemma handle_update:
  "(\<And>n. gn_dropped (f n) = gn_dropped n) \<Longrightarrow> handle (update_node i f s) j = handle s j"
  by (auto simp: handle_def node_update_node)

lemma machine_ok_framed:
  assumes "machine_ok m" and "framed (gm_store m) s" and "grants_ok s (all_leases m)"
  shows "machine_ok (m\<lparr>gm_store := s\<rparr>)"
  using assms by (simp add: machine_ok_def framed_live_leases framed_guards_ok)

lemma handle_range: "handle s i \<Longrightarrow> i < length (gr_nodes s) \<and> \<not> gn_dropped (node s i)"
  by (simp add: handle_def)

lemma charge_machine_ok:
  assumes ok: "machine_ok m" and h: "handle (gm_store m) i" and v: "valid_pool (node (gm_store m) i) ev"
  shows "machine_ok (fst (keep_lease (grant_charge i ev usage (gm_store m)) m))"
proof -
  obtain s r where run: "grant_charge i ev usage (gm_store m) = (s, r)"
    by (cases "grant_charge i ev usage (gm_store m)")
  have g: "grants_ok (gm_store m) (all_leases m)" using ok by (simp add: machine_ok_def)
  note hr = handle_range [OF h]
  from g conjunct1 [OF hr] conjunct2 [OF hr] v run show ?thesis
  proof (cases rule: grant_charge_cases)
    case (charged l)
    then show ?thesis
      using ok run by (simp add: machine_ok_def framed_live_leases framed_guards_ok)
  qed (use ok run machine_ok_framed [OF ok] g in \<open>simp_all\<close>)
qed

lemma update_state_frame:
  fixes w
  defines "f \<equiv> \<lambda>n. n\<lparr>gn_state := w\<rparr>"
  shows "grants_ok (update_node i f s) M = grants_ok s M" "live_leases (update_node i f s) = live_leases s"
    "handle (update_node i f s) j = handle s j"
proof -
  have p: "pool_of (f n) ev = pool_of n ev" "valid_pool (f n) ev = valid_pool n ev" for n ev
    by (cases ev; simp add: f_def)+
  show "grants_ok (update_node i f s) M = grants_ok s M"
    by (rule grants_ok_update_other) (simp_all add: p, simp_all add: f_def essence_def)
  show "live_leases (update_node i f s) = live_leases s"
    by (rule live_leases_update) (simp_all add: f_def own_leases_def)
  show "handle (update_node i f s) j = handle s j" by (rule handle_update) (simp add: f_def)
qed

lemma guards_ok_enter:
  assumes "guards_ok s gs" and "handle s i" and "advance (gn_state (node s i)) = Some w"
  shows "guards_ok (update_node i (\<lambda>n. n\<lparr>gn_state := w\<rparr>) s) (gs @ [\<lparr>og_node = i, og_notify = b\<rparr>])"
    and "drop_operation \<lparr>og_node = i, og_notify = b\<rparr> (update_node i (\<lambda>n. n\<lparr>gn_state := w\<rparr>) s) = s"
proof -
  let ?c = "entered_count gs i"
  have i: "i < length (gr_nodes s)" using assms(2) by (simp add: handle_def)
  obtain r where st: "gn_state (node s i) = state_word r ?c" and c: "?c < 2 ^ 63"
    using assms(1) i by (auto simp: guards_ok_def)
  have r: "\<not> r" and c': "?c + 1 < 2 ^ 63" and w: "w = state_word r (?c + 1)"
    using assms(3) unfolding st advance_state_word [OF c] by (auto split: if_splits)
  show "guards_ok (update_node i (\<lambda>n. n\<lparr>gn_state := w\<rparr>) s) (gs @ [\<lparr>og_node = i, og_notify = b\<rparr>])"
    using assms(1,2) i c' w by (auto simp: guards_ok_def update_state_frame node_update_node entered_count_def)
  have "w \<noteq> (REVOKED OR 1)" using state_word_last [OF c'] r w by simp
  moreover have "update_node i (\<lambda>n. n\<lparr>gn_state := w - 1\<rparr>) (update_node i (\<lambda>n. n\<lparr>gn_state := w\<rparr>) s) = s"
    using i st state_word_pred [OF c'] w by (simp add: update_node_def list_update_same_conv)
  ultimately show "drop_operation \<lparr>og_node = i, og_notify = b\<rparr> (update_node i (\<lambda>n. n\<lparr>gn_state := w\<rparr>) s) = s"
    using i by (simp add: drop_operation_def Let_def node_update_node)
qed

lemma enter_mode_cases:
  assumes "guards_ok s gs" and "handle s i" and "enter_mode i event right notify s = (s', r)"
  obtains (entered) w where "r = Ok \<lparr>og_node = i, og_notify = notify\<rparr>"
      "s' = update_node i (\<lambda>n. n\<lparr>gn_state := w\<rparr>) s" "advance (gn_state (node s i)) = Some w"
      "grant_check s i event right = Ok ()"
    | (refused) e where "r = Err e" "s' = s"
proof (cases "grant_check s i event right")
  case (Ok u)
  show thesis
  proof (cases "advance (gn_state (node s i))")
    case (Some w)
    let ?s = "update_node i (\<lambda>n. n\<lparr>gn_state := w\<rparr>) s"
    show thesis
    proof (cases "is_revoked ?s i")
      case True
      then show thesis
        using refused assms(3) Ok Some guards_ok_enter(2) [OF assms(1,2) Some, of notify]
        by (auto simp: enter_mode_def)
    next
      case False
      then show thesis using entered [of w] assms(3) Ok Some by (simp add: enter_mode_def)
    qed
  qed (use refused assms(3) Ok in \<open>auto simp: enter_mode_def\<close>)
qed (use refused assms(3) in \<open>auto simp: enter_mode_def\<close>)

lemma entered_count_remove:
  "k < length gs \<Longrightarrow> entered_count gs i =
     (if og_node (gs ! k) = i then 1 else 0) + entered_count (remove_at k gs) i"
proof -
  assume "k < length gs"
  then have "gs = take k gs @ gs ! k # drop (k + 1) gs" by (simp add: Cons_nth_drop_Suc)
  then have "entered_count gs i = entered_count (take k gs @ gs ! k # drop (k + 1) gs) i" by simp
  then show ?thesis by (simp add: entered_count_def remove_at_def)
qed

lemma drop_operation_exec:
  "\<exists>ns. drop_operation g s =
     emit ns (update_node (og_node g) (\<lambda>n. n\<lparr>gn_state := gn_state (node s (og_node g)) - 1\<rparr>) s)"
  unfolding drop_operation_def Let_def by (metis emit_Nil)

lemma guards_ok_leave:
  assumes ok: "guards_ok s gs" and k: "k < length gs"
  shows "guards_ok (drop_operation (gs ! k) s) (remove_at k gs)"
proof -
  let ?i = "og_node (gs ! k)"
  have i: "?i < length (gr_nodes s)" using ok k by (auto simp: guards_ok_def handle_def)
  obtain r where st: "gn_state (node s ?i) = state_word r (entered_count gs ?i)" and c: "entered_count gs ?i < 2 ^ 63"
    using ok i by (auto simp: guards_ok_def)
  have "gn_state (node s ?i) - 1 = state_word r (entered_count (remove_at k gs) ?i)"
    using st entered_count_remove [OF k, of ?i] state_word_pred c by (simp add: add.commute)
  moreover have "entered_count (remove_at k gs) j \<le> entered_count gs j" for j
    using entered_count_remove [OF k, of j] by simp
  moreover have "entered_count (remove_at k gs) j = entered_count gs j" if "j \<noteq> ?i" for j
    using entered_count_remove [OF k, of j] that by simp
  moreover have "entered_count (remove_at k gs) ?i < 2 ^ 63"
    using entered_count_remove [OF k, of ?i] c by linarith
  ultimately have "guards_ok (update_node ?i (\<lambda>n. n\<lparr>gn_state := gn_state (node s ?i) - 1\<rparr>) s) (remove_at k gs)"
    using ok set_remove_at [of k gs]
    by (auto simp: guards_ok_def update_state_frame node_update_node intro: order_le_less_trans)
  then show ?thesis using drop_operation_exec [of "gs ! k" s] by auto
qed

lemma drop_operation_frame:
  "grants_ok (drop_operation g s) M = grants_ok s M" "live_leases (drop_operation g s) = live_leases s"
  using drop_operation_exec [of g s] by (auto simp: update_state_frame)


lemma update_streams_frame:
  fixes w
  defines "f \<equiv> \<lambda>n. n\<lparr>gn_streams := w\<rparr>"
  shows "grants_ok (update_node i f s) M = grants_ok s M" "live_leases (update_node i f s) = live_leases s"
    "guards_ok (update_node i f s) gs = guards_ok s gs"
proof -
  have p: "pool_of (f n) ev = pool_of n ev" "valid_pool (f n) ev = valid_pool n ev" for n ev
    by (cases ev; simp add: f_def)+
  show "grants_ok (update_node i f s) M = grants_ok s M"
    by (rule grants_ok_update_other) (simp_all add: p, simp_all add: f_def essence_def)
  show "live_leases (update_node i f s) = live_leases s"
    by (rule live_leases_update) (simp_all add: f_def own_leases_def)
  have h: "handle (update_node i f s) j = handle s j" for j by (rule handle_update) (simp add: f_def)
  have st: "gn_state (node (update_node i f s) j) = gn_state (node s j)" for j
    by (simp add: node_update_node f_def)
  show "guards_ok (update_node i f s) gs = guards_ok s gs"
    by (simp add: guards_ok_def h st)
qed

lemma revoke_mark_exec:
  "\<exists>ns. revoke_mark i s = emit ns (update_node i (\<lambda>n. n\<lparr>gn_state := gn_state (node s i) OR REVOKED\<rparr>) s)"
  by (auto simp: revoke_mark_def node_notify_def Let_def emit_emit)

lemma mark_machine_ok:
  assumes ok: "machine_ok m" and h: "handle (gm_store m) i"
  shows "machine_ok (m\<lparr>gm_store := revoke_mark i (gm_store m)\<rparr>)"
proof -
  let ?s = "gm_store m"
  obtain ns where ns: "revoke_mark i ?s
      = emit ns (update_node i (\<lambda>n. n\<lparr>gn_state := gn_state (node ?s i) OR REVOKED\<rparr>) ?s)"
    using revoke_mark_exec by blast
  have "guards_ok ?s (gm_guards m)" using ok by (simp add: machine_ok_def)
  then have "guards_ok (update_node i (\<lambda>n. n\<lparr>gn_state := gn_state (node ?s i) OR REVOKED\<rparr>) ?s) (gm_guards m)"
    by (auto simp: guards_ok_def update_state_frame node_update_node) (metis state_word_revoke)
  then show ?thesis using ok by (simp add: machine_ok_def ns update_state_frame)
qed

lemma live_leases_drop:
  assumes "handle s i"
  shows "mset (live_leases s) =
    mset (own_leases (node s i)) + mset (live_leases (update_node i (\<lambda>n. n\<lparr>gn_dropped := True\<rparr>) s))"
proof -
  have i: "i < length (gr_nodes s)" and live: "\<not> gn_dropped (node s i)" using assms by (auto simp: handle_def)
  let ?g = "\<lambda>n. if gn_dropped n then [] else own_leases n"
  have a: "gr_nodes s = take i (gr_nodes s) @ node s i # drop (Suc i) (gr_nodes s)"
    using i by (rule id_take_nth_drop)
  have b: "gr_nodes (update_node i (\<lambda>n. n\<lparr>gn_dropped := True\<rparr>) s)
      = take i (gr_nodes s) @ (node s i)\<lparr>gn_dropped := True\<rparr> # drop (Suc i) (gr_nodes s)"
    using i by (simp add: update_node_def upd_conv_take_nth_drop)
  have "live_leases s = concat (map ?g (take i (gr_nodes s))) @ own_leases (node s i)
      @ concat (map ?g (drop (Suc i) (gr_nodes s)))"
    unfolding live_leases_def by (subst a) (simp add: live)
  moreover have "live_leases (update_node i (\<lambda>n. n\<lparr>gn_dropped := True\<rparr>) s)
      = concat (map ?g (take i (gr_nodes s))) @ concat (map ?g (drop (Suc i) (gr_nodes s)))"
    unfolding live_leases_def b by simp
  ultimately show ?thesis by simp
qed

lemma drop_machine_ok:
  assumes ok: "machine_ok m" and h: "handle (gm_store m) i" and free: "unreferenced m i"
  shows "machine_ok (m\<lparr>gm_store := drop_node i (gm_store m)\<rparr>)"
proof -
  let ?s = "gm_store m"
  let ?t = "update_node i (\<lambda>n. n\<lparr>gn_dropped := True\<rparr>) ?s"
  have g: "grants_ok ?s (all_leases m)" and gu: "guards_ok ?s (gm_guards m)" using ok by (auto simp: machine_ok_def)
  have others: "ls_node l \<noteq> i" if "l \<in># all_leases m" for l
    using free that by (auto simp: unreferenced_def list_all_iff)
  have p: "pool_of (node ?t j) ev = pool_of (node ?s j) ev" "valid_pool (node ?t j) ev = valid_pool (node ?s j) ev"
    for j ev by (cases ev; simp add: node_update_node)+
  have "lease_ok ?t l" if "l \<in># all_leases m" for l
    using g others [OF that] that by (auto simp: grants_ok_def lease_ok_def node_update_node)
  moreover have "essences ?t = essences ?s" by (rule essences_update) (simp add: essence_def)
  ultimately have "grants_ok ?t (all_leases m)"
    using g by (auto simp: grants_ok_def accounts_def p)
  then have "grants_ok (drop_node i ?s) (mset (gm_leases m) + mset (live_leases ?t))"
    using drop_leases_ok [of ?t "own_leases (node ?s i)"] live_leases_drop [OF h]
    by (simp add: drop_node_def ac_simps)
  moreover have "framed ?t (drop_node i ?s)" by (simp add: drop_node_def)
  moreover have "guards_ok ?t (gm_guards m)"
    using gu free by (auto simp: guards_ok_def handle_def node_update_node unreferenced_def list_all_iff)
  ultimately show ?thesis by (simp add: machine_ok_def framed_live_leases framed_guards_ok)
qed

lemma restrict_machine_ok:
  assumes ok: "machine_ok m" and h: "handle (gm_store m) i"
    and run: "grant_restrict i ps l (gm_store m) = (s, r)"
  shows "machine_ok (m\<lparr>gm_store := s\<rparr>)"
proof -
  have g: "grants_ok (gm_store m) (all_leases m)" and gu: "guards_ok (gm_store m) (gm_guards m)"
    using ok by (auto simp: machine_ok_def)
  note hr = handle_range [OF h]
  from g conjunct1 [OF hr] conjunct2 [OF hr] run show ?thesis
  proof (cases rule: grant_restrict_cases)
    case (derived lease events generic s1 cs)
    let ?c = "child_of l generic ps lease events"
    have len: "length (gr_nodes s1) = length (gr_nodes (gm_store m))" using framedD(1) [OF derived(2)] .
    have "own_leases ?c = lease # events" "\<not> gn_dropped ?c" and zero: "gn_state ?c = 0"
      by (simp_all add: child_of_def node_new_def own_leases_def)
    then have "live_leases (add_node ?c s1) = live_leases s1 @ lease # events"
      by (simp add: live_leases_def add_node_def)
    moreover have "live_leases s = live_leases (add_node ?c s1)"
      unfolding derived(3) by (rule live_leases_update) (simp_all add: own_leases_def)
    ultimately have live: "live_leases s = live_leases (gm_store m) @ lease # events"
      using framed_live_leases [OF derived(2)] by simp
    have gu1: "guards_ok s1 (gm_guards m)" using gu framed_guards_ok [OF derived(2)] by simp
    have none: "entered_count (gm_guards m) (length (gr_nodes s1)) = 0"
    proof -
      have "filter (\<lambda>g. og_node g = length (gr_nodes s1)) (gm_guards m) = []"
        using gu1 by (auto simp: filter_empty_conv guards_ok_def handle_def)
      then show ?thesis by (simp add: entered_count_def)
    qed
    have h1: "handle s j = handle (add_node ?c s1) j" for j
      unfolding derived(3) by (rule handle_update) simp
    have st: "gn_state (node s j) = gn_state (node (add_node ?c s1) j)" for j
      by (simp add: derived(3) node_update_node)
    have dr: "gn_dropped (node s j) = gn_dropped (node (add_node ?c s1) j)" for j
      by (simp add: derived(3) node_update_node)
    have "state_word False 0 = 0" by (simp add: state_word_def)
    moreover have "length (gr_nodes s) = Suc (length (gr_nodes s1))" by (simp add: derived(3))
    ultimately have "guards_ok s (gm_guards m)"
      using gu1 none zero
      by (auto simp: guards_ok_def st dr less_Suc_eq node_add_node handle_def intro: exI [of _ False])
    then show ?thesis using derived(4) live by (simp add: machine_ok_def ac_simps)
  next
    case (refused e)
    then show ?thesis using machine_ok_framed [OF ok] by blast
  qed
qed

lemma register_stream_exec:
  "register_stream i event notify s = (s', r) \<Longrightarrow>
     s' = s \<or> (\<exists>w. s' = update_node i (\<lambda>n. n\<lparr>gn_streams := w\<rparr>) s)
     \<or> (\<exists>ns w. s' = emit ns (update_node i (\<lambda>n. n\<lparr>gn_streams := w\<rparr>) s))"
  unfolding register_stream_def Let_def by (simp split: if_splits) blast+

lemma try_charge_stream_machine_ok:
  assumes "machine_ok m" and "handle (gm_store m) i"
  shows "machine_ok (fst (keep_lease (try_charge_stream i event usage (gm_store m)) m))"
proof (cases "event_index (node (gm_store m) i) event")
  case (Ok k)
  then show ?thesis
    using charge_machine_ok [OF assms event_index_valid [OF Ok]] by (simp add: try_charge_stream_def)
qed (use assms in \<open>simp add: try_charge_stream_def\<close>)

lemma machine_ok_step: "machine_ok m \<Longrightarrow> machine_ok (fst (grant_step m c))"
proof (cases c)
  case (Release k)
  assume ok: "machine_ok m"
  show ?thesis
  proof (cases "k < length (gm_leases m)")
    case True
    have "grants_ok (gm_store m) (add_mset (gm_leases m ! k) (mset (remove_at k (gm_leases m)) + mset (live_leases (gm_store m))))"
      using ok mset_remove_at [OF True] by (simp add: machine_ok_def)
    from grants_ok_drop_lease [OF this] show ?thesis
      using True ok Release framed_live_leases [OF framed_drop_lease] framed_guards_ok [OF framed_drop_lease]
      by (simp add: machine_ok_def)
  qed (use ok Release in simp)
next
  case (Enter i event right notify)
  assume ok: "machine_ok m"
  show ?thesis
  proof (cases "handle (gm_store m) i")
    case True
    have gu: "guards_ok (gm_store m) (gm_guards m)" using ok by (simp add: machine_ok_def)
    obtain s r where run: "enter_mode i event right notify (gm_store m) = (s, r)"
      by (cases "enter_mode i event right notify (gm_store m)")
    from gu True run show ?thesis
    proof (cases rule: enter_mode_cases)
      case (entered w)
      then show ?thesis
        using Enter True run ok guards_ok_enter(1) [OF gu True entered(3)]
        by (simp add: machine_ok_def update_state_frame)
    qed (use Enter True run ok in simp)
  qed (use ok Enter in simp)
next
  case (Leave k)
  assume ok: "machine_ok m"
  then show ?thesis
    using Leave guards_ok_leave [of "gm_store m" "gm_guards m" k]
    by (simp add: machine_ok_def drop_operation_frame)
next
  case (Register_stream i event notify)
  assume ok: "machine_ok m"
  obtain s r where run: "register_stream i event notify (gm_store m) = (s, r)"
    by (cases "register_stream i event notify (gm_store m)")
  from register_stream_exec [OF run] have "machine_ok (m\<lparr>gm_store := s\<rparr>)"
    using ok by (elim disjE exE) (simp_all add: machine_ok_def update_streams_frame)
  then show ?thesis using ok Register_stream run by simp
next
  case (Restrict i ps l)
  assume "machine_ok m"
  then show ?thesis
    using Restrict restrict_machine_ok [of m i ps l] by (auto split: prod.split)
next
  case (Maintain i)
  assume "machine_ok m"
  then show ?thesis using Maintain by (simp add: machine_ok_def maintain_operations_def)
qed (simp_all add: mark_machine_ok drop_machine_ok try_charge_stream_machine_ok charge_machine_ok try_charge_def)

lemma machine_ok_new: "machine_ok (machine_new l)"
proof -
  have "node_ok [(l, l, None, None, [])] 0" by (auto simp: node_ok_def)
  then have "tree_ok (essences (gm_store (machine_new l)))"
    by (simp add: tree_ok_def essences_def machine_new_def node_root_def node_new_def essence_def pool_new_def)
  moreover have "valid_pool (node_root l) ev \<longleftrightarrow> ev = None" for ev
    by (cases ev) (simp_all add: node_root_def node_new_def)
  moreover have "gn_state (node_root l) = state_word False 0"
    by (simp add: node_root_def node_new_def state_word_def)
  ultimately show ?thesis
    by (auto simp: machine_ok_def grants_ok_def accounts_def guards_ok_def entered_count_def machine_new_def
        live_leases_def node_root_def node_new_def own_leases_def pool_accounts_def pool_new_def)
qed

definition grant_reachable :: "limits \<Rightarrow> grant_call list \<Rightarrow> grant_machine \<Rightarrow> grant_out list \<Rightarrow> bool" where
  "grant_reachable l cs m outs \<longleftrightarrow> run_calls grant_step (machine_new l) cs = (m, outs)"

lemma reachable_machine_ok: "grant_reachable l cs m outs \<Longrightarrow> machine_ok m"
  using run_calls_invariant [where good = machine_ok and step = grant_step, OF machine_ok_step machine_ok_new, of l cs]
  by (simp add: grant_reachable_def)

end
