(* ===== verification/Hiway_Grant_Properties.thy ===== *)
theory Hiway_Grant_Properties
  imports Hiway_Grant_Machine
begin

text \<open>
  What the grant tree promises: exact accounting of every pool, quotas that hold for whole
  subtrees, failures that leave nothing behind, authority that only shrinks on the way down,
  revocation that is final, and exact counts of entered operations.
\<close>

subsection \<open>Totals\<close>

definition weight :: "lease multiset \<Rightarrow> (lease \<Rightarrow> bool) \<Rightarrow> nat \<Rightarrow> nat" where
  "weight M P k = (\<Sum>l \<in># filter_mset P M. allowance (ls_usage l) k)"

lemma weight_empty [simp]: "weight {#} P k = 0"
  by (simp add: weight_def)

lemma weight_add [simp]:
  "weight (add_mset l M) P k = (if P l then allowance (ls_usage l) k else 0) + weight M P k"
  by (simp add: weight_def)

lemma weight_plus [simp]: "weight (M + N) P k = weight M P k + weight N P k"
  by (simp add: weight_def)

lemma weight_mset_all: "(\<forall>l \<in> set ls. P l) \<Longrightarrow> weight (mset ls) P k = (\<Sum>l \<leftarrow> ls. allowance (ls_usage l) k)"
  by (induction ls) auto

lemma weight_cover:
  assumes "finite C"
  shows "(\<And>l. l \<in># M \<Longrightarrow> P l \<Longrightarrow> Q l \<or> (\<exists>c \<in> C. R c l)) \<Longrightarrow>
    weight M P k \<le> weight M Q k + (\<Sum>c \<in> C. weight M (R c) k)"
proof (induction M)
  case (add l M)
  have rest: "weight M P k \<le> weight M Q k + (\<Sum>c \<in> C. weight M (R c) k)"
    by (rule add.IH) (use add.prems in auto)
  have one: "(if P l then allowance (ls_usage l) k else 0)
      \<le> (if Q l then allowance (ls_usage l) k else 0) + (\<Sum>c \<in> C. if R c l then allowance (ls_usage l) k else 0)"
  proof (cases "P l \<and> \<not> Q l")
    case True
    then obtain c where c: "c \<in> C" "R c l" using add.prems [of l] by auto
    then have "allowance (ls_usage l) k \<le> (\<Sum>c \<in> C. if R c l then allowance (ls_usage l) k else 0)"
      using sum_mono2 [of C "{c}" "\<lambda>c. if R c l then allowance (ls_usage l) k else 0"] assms by simp
    then show ?thesis using True by simp
  qed auto
  show ?case using rest one by (simp add: sum.distrib)
qed simp

lemma weight_node:
  "(\<And>l. l \<in># M \<Longrightarrow> ls_node l = a \<Longrightarrow> (case ls_event l of None \<Rightarrow> True | Some j \<Rightarrow> j < n)) \<Longrightarrow>
     weight M (\<lambda>l. ls_node l = a) k = charged M a None k + (\<Sum>j < n. charged M a (Some j) k)"
proof (induction M)
  case (add l M)
  have rest: "weight M (\<lambda>l. ls_node l = a) k = charged M a None k + (\<Sum>j < n. charged M a (Some j) k)"
    by (rule add.IH) (use add.prems in auto)
  show ?case
  proof (cases "ls_node l = a")
    case True
    then show ?thesis using add.prems [of l] rest by (cases "ls_event l") (auto simp: sum.distrib)
  qed (use rest in simp)
qed simp

definition permissions_of :: "grant_node \<Rightarrow> event_allowance list" where
  "permissions_of n = (case gn_permissions n of None \<Rightarrow> [] | Some as \<Rightarrow> as)"

lemma node_total:
  assumes ok: "grants_ok s M" and a: "a < length (gr_nodes s)" and k: "k < 7"
  shows "allowance (grant_usage s a) k = weight M (\<lambda>l. ls_node l = a) k"
    and "weight M (\<lambda>l. ls_node l = a) k \<le> allowance (gn_limits (node s a)) k"
proof -
  let ?n = "node s a" and ?as = "permissions_of (node s a)"
  have valid: "valid_pool ?n (Some j)" if "j < length ?as" for j
    using that by (auto simp: permissions_of_def split: option.splits)
  have pool: "ea_pool (?as ! j) = pool_of ?n (Some j)" if "j < length ?as" for j
    using that by (auto simp: permissions_of_def split: option.splits)
  have acc: "pool_accounts M a ev (pool_of ?n ev)" if "valid_pool ?n ev" for ev
    using ok a that by (simp add: grants_ok_def accounts_def)
  have own: "pl_usage (gn_pool ?n) ! k = charged M a None k"
    "charged M a None k \<le> allowance (pl_limits (gn_pool ?n)) k"
    using acc [of None] k by (auto simp: pool_accounts_def)
  have each: "pl_usage (ea_pool (?as ! j)) ! k = charged M a (Some j) k"
    "charged M a (Some j) k \<le> allowance (pl_limits (ea_pool (?as ! j))) k" if "j < length ?as" for j
    using acc [OF valid [OF that]] k pool [OF that] by (auto simp: pool_accounts_def)
  have total: "weight M (\<lambda>l. ls_node l = a) k = charged M a None k + (\<Sum>j < length ?as. charged M a (Some j) k)"
  proof (rule weight_node)
    fix l assume "l \<in># M" "ls_node l = a"
    then have "valid_pool ?n (ls_event l)" using ok by (auto simp: grants_ok_def lease_ok_def)
    then show "case ls_event l of None \<Rightarrow> True | Some j \<Rightarrow> j < length ?as"
      by (cases "ls_event l") (auto simp: permissions_of_def split: option.splits)
  qed
  have "(\<Sum>a \<leftarrow> ?as. pl_usage (ea_pool a) ! k) = (\<Sum>j < length ?as. charged M a (Some j) k)"
    using each by (simp add: sum_list_sum_nth atLeast0LessThan)
  moreover have "allowance (grant_usage s a) k
      = pl_usage (gn_pool ?n) ! k + (\<Sum>a \<leftarrow> ?as. pl_usage (ea_pool a) ! k)"
  proof -
    have v: "limits_values (limits_from_values v) = v" if "length v = 7" for v
    proof (rule nth_equalityI)
      fix i assume "i < length (limits_values (limits_from_values v))"
      then have "i < 7" by simp
      then show "limits_values (limits_from_values v) ! i = v ! i"
        using all_less_7 [of "\<lambda>i. limits_values (limits_from_values v) ! i = v ! i"]
        by (simp add: limits_from_values_def limits_values.simps)
    qed (use that in simp)
    show ?thesis using k by (simp add: grant_usage_def v permissions_of_def)
  qed
  ultimately show "allowance (grant_usage s a) k = weight M (\<lambda>l. ls_node l = a) k" using own total by simp
  have "(\<Sum>j < length ?as. charged M a (Some j) k) \<le> (\<Sum>j < length ?as. allowance (pl_limits (ea_pool (?as ! j))) k)"
    by (intro sum_mono) (use each in auto)
  also have "\<dots> = (\<Sum>a \<leftarrow> ?as. allowance (pl_limits (ea_pool a)) k)"
    by (simp add: sum_list_sum_nth atLeast0LessThan)
  finally have sum: "charged M a None k + (\<Sum>j < length ?as. charged M a (Some j) k)
      \<le> allowance (pl_limits (gn_pool ?n)) k + (\<Sum>a \<leftarrow> ?as. allowance (pl_limits (ea_pool a)) k)"
    using own by simp
  have "node_ok (essences s) a" using ok a by (simp add: grants_ok_def tree_ok_def essences_def)
  then have "allowance (pl_limits (gn_pool ?n)) k + (\<Sum>a \<leftarrow> ?as. allowance (pl_limits (ea_pool a)) k)
      = allowance (gn_limits ?n) k"
    using a k by (cases "gn_permissions ?n")
      (simp_all add: node_ok_def essences_def essence_def permissions_of_def comp_def)
  then show "weight M (\<lambda>l. ls_node l = a) k \<le> allowance (gn_limits ?n) k"
    unfolding total using sum by simp
qed

subsection \<open>Subtrees\<close>

inductive descends :: "grants \<Rightarrow> nat \<Rightarrow> nat \<Rightarrow> bool" for s :: grants where
  descends_self: "descends s a a"
| descends_up: "gn_parent_reservation (node s i) = Some r \<Longrightarrow> descends s (ls_node r) a \<Longrightarrow> descends s i a"

text \<open>Nothing lives below a dropped node.\<close>

definition rooted :: "grants \<Rightarrow> bool" where
  "rooted s \<longleftrightarrow> (\<forall>i r. handle s i \<longrightarrow> gn_parent_reservation (node s i) = Some r \<longrightarrow> handle s (ls_node r))"

lemma live_lease_mem:
  assumes "handle s i" and "l \<in> set (own_leases (node s i))"
  shows "l \<in> set (live_leases s)"
  using assms nth_mem [of i "gr_nodes s"] by (force simp: live_leases_def handle_def)

lemma machine_rooted: "machine_ok m \<Longrightarrow> rooted (gm_store m)"
  unfolding rooted_def
proof (intro allI impI)
  fix i r
  assume "machine_ok m" "handle (gm_store m) i" "gn_parent_reservation (node (gm_store m) i) = Some r"
  then have "r \<in># all_leases m" using live_lease_mem [of "gm_store m" i r] by (simp add: own_leases_def)
  then show "handle (gm_store m) (ls_node r)"
    using \<open>machine_ok m\<close> by (auto simp: machine_ok_def grants_ok_def lease_ok_def handle_def)
qed

lemma descends_cases_top:
  assumes "descends s j a" and "rooted s" and "handle s j"
  shows "j = a \<or> (\<exists>c r. handle s c \<and> gn_parent_reservation (node s c) = Some r \<and> ls_node r = a \<and> descends s j c)"
  using assms(1,3)
proof (induction rule: descends.induct)
  case (descends_up i r a)
  have h: "handle s (ls_node r)" using descends_up.hyps(1) descends_up.prems assms(2) by (auto simp: rooted_def)
  from descends_up.IH [OF h] show ?case
  proof (elim disjE exE conjE)
    assume "ls_node r = a"
    then show ?thesis using descends_up.hyps descends_up.prems descends_self by blast
  next
    fix c q assume "handle s c" "gn_parent_reservation (node s c) = Some q" "ls_node q = a" "descends s (ls_node r) c"
    then show ?thesis using descends.descends_up [OF descends_up.hyps(1)] by blast
  qed
qed simp

lemma child_leases:
  assumes "tree_ok (essences s)" and "c < length (gr_nodes s)" and "gn_parent_reservation (node s c) = Some r"
  shows "\<forall>l \<in> set (own_leases (node s c)). ls_node l = ls_node r"
    and "k < 7 \<Longrightarrow> allowance (gn_limits (node s c)) k \<le> (\<Sum>l \<leftarrow> own_leases (node s c). allowance (ls_usage l) k)"
  using assms by (auto simp: tree_ok_def node_ok_def essences_def essence_def own_leases_def)

lemma weight_concat: "weight (mset (concat xss)) P k = (\<Sum>xs \<leftarrow> xss. weight (mset xs) P k)"
  by (induction xss) simp_all

lemma subtree_weight:
  assumes ok: "machine_ok m" and k: "k < 7"
  shows "handle (gm_store m) a \<Longrightarrow>
    weight (mset (gm_leases m)) (\<lambda>l. descends (gm_store m) (ls_node l) a) k
      \<le> allowance (gn_limits (node (gm_store m) a)) k"
proof (induction "length (gr_nodes (gm_store m)) - a" arbitrary: a rule: less_induct)
  case less
  let ?s = "gm_store m" and ?M = "mset (gm_leases m)"
  let ?C = "{c. handle ?s c \<and> (\<exists>r. gn_parent_reservation (node ?s c) = Some r \<and> ls_node r = a)}"
  have g: "grants_ok ?s (all_leases m)" and tree: "tree_ok (essences ?s)"
    using ok by (auto simp: machine_ok_def grants_ok_def)
  have a: "a < length (gr_nodes ?s)" using less.prems by (simp add: handle_def)
  have finC: "finite ?C" by (rule finite_subset [of _ "{..< length (gr_nodes ?s)}"]) (auto simp: handle_def)
  have "weight ?M (\<lambda>l. descends ?s (ls_node l) a) k
      \<le> weight ?M (\<lambda>l. ls_node l = a) k + (\<Sum>c \<in> ?C. weight ?M (\<lambda>l. descends ?s (ls_node l) c) k)"
  proof (rule weight_cover [OF finC])
    fix l assume "l \<in># ?M" "descends ?s (ls_node l) a"
    moreover from this have "handle ?s (ls_node l)" using g by (auto simp: grants_ok_def lease_ok_def handle_def)
    ultimately show "ls_node l = a \<or> (\<exists>c \<in> ?C. descends ?s (ls_node l) c)"
      using descends_cases_top [OF _ machine_rooted [OF ok]] by blast
  qed
  also have "(\<Sum>c \<in> ?C. weight ?M (\<lambda>l. descends ?s (ls_node l) c) k)
      \<le> (\<Sum>c \<in> ?C. weight (mset (own_leases (node ?s c))) (\<lambda>l. ls_node l = a) k)"
  proof (rule sum_mono)
    fix c assume "c \<in> ?C"
    then obtain r where c: "handle ?s c" "gn_parent_reservation (node ?s c) = Some r" "ls_node r = a" by auto
    have cl: "c < length (gr_nodes ?s)" using c(1) by (simp add: handle_def)
    have "a < c" using tree_ok_parent [OF tree cl c(2)] c(3) by simp
    then have "weight ?M (\<lambda>l. descends ?s (ls_node l) c) k \<le> allowance (gn_limits (node ?s c)) k"
      using less.hyps [of c] c(1) cl by auto
    also have "\<dots> \<le> (\<Sum>l \<leftarrow> own_leases (node ?s c). allowance (ls_usage l) k)"
      by (rule child_leases(2) [OF tree cl c(2) k])
    finally show "weight ?M (\<lambda>l. descends ?s (ls_node l) c) k
        \<le> weight (mset (own_leases (node ?s c))) (\<lambda>l. ls_node l = a) k"
      using weight_mset_all [of "own_leases (node ?s c)" "\<lambda>l. ls_node l = a" k] child_leases(1) [OF tree cl c(2)] c(3)
      by simp
  qed
  also have "(\<Sum>c \<in> ?C. weight (mset (own_leases (node ?s c))) (\<lambda>l. ls_node l = a) k)
      \<le> weight (mset (live_leases ?s)) (\<lambda>l. ls_node l = a) k"
  proof -
    let ?g = "\<lambda>n. if gn_dropped n then [] else own_leases n"
    have "weight (mset (live_leases ?s)) (\<lambda>l. ls_node l = a) k
        = (\<Sum>c < length (gr_nodes ?s). weight (mset (?g (node ?s c))) (\<lambda>l. ls_node l = a) k)"
      by (simp add: live_leases_def weight_concat sum_list_sum_nth atLeast0LessThan)
    moreover have "(\<Sum>c \<in> ?C. weight (mset (own_leases (node ?s c))) (\<lambda>l. ls_node l = a) k)
        = (\<Sum>c \<in> ?C. weight (mset (?g (node ?s c))) (\<lambda>l. ls_node l = a) k)"
      by (rule sum.cong) (auto simp: handle_def)
    moreover have "\<dots> \<le> (\<Sum>c < length (gr_nodes ?s). weight (mset (?g (node ?s c))) (\<lambda>l. ls_node l = a) k)"
      by (rule sum_mono2) (auto simp: handle_def)
    ultimately show ?thesis by linarith
  qed
  finally have "weight ?M (\<lambda>l. descends ?s (ls_node l) a) k \<le> weight (all_leases m) (\<lambda>l. ls_node l = a) k"
    by simp
  also have "\<dots> \<le> allowance (gn_limits (node ?s a)) k" by (rule node_total(2) [OF g a k])
  finally show ?case .
qed


subsection \<open>Revocation over time\<close>

definition marked :: "grants \<Rightarrow> nat \<Rightarrow> bool" where
  "marked s i \<longleftrightarrow> gn_state (node s i) AND REVOKED \<noteq> 0"

lemma revoked_iff_marked:
  assumes "tree_ok (essences s)"
  shows "i < length (gr_nodes s) \<Longrightarrow> is_revoked s i \<longleftrightarrow> (\<exists>a. descends s i a \<and> marked s a)"
proof (induction i rule: less_induct)
  case (less i)
  show ?case
  proof (cases "gn_parent_reservation (node s i)")
    case None
    have "descends s i a \<longleftrightarrow> a = i" for a
      using None by (auto intro: descends_self elim: descends.cases)
    then show ?thesis using is_revoked_step [OF assms less.prems] None by (simp add: marked_def)
  next
    case (Some r)
    have up: "descends s i a \<longleftrightarrow> a = i \<or> descends s (ls_node r) a" for a
      using Some by (auto intro: descends_self descends_up elim: descends.cases)
    have r: "ls_node r < i" by (rule tree_ok_parent [OF assms less.prems Some])
    then show ?thesis
      using is_revoked_step [OF assms less.prems] Some less.IH [OF r] less.prems up by (auto simp: marked_def)
  qed
qed

definition stable :: "grants \<Rightarrow> grants \<Rightarrow> bool" where
  "stable s t \<longleftrightarrow> length (gr_nodes s) \<le> length (gr_nodes t)
     \<and> (\<forall>i < length (gr_nodes s). gn_parent_reservation (node t i) = gn_parent_reservation (node s i)
          \<and> (marked s i \<longrightarrow> marked t i))"

lemma stable_refl [simp]: "stable s s"
  by (simp add: stable_def)

lemma stable_trans: "stable s t \<Longrightarrow> stable t u \<Longrightarrow> stable s u"
  by (auto simp: stable_def)

lemma stable_framed: "framed s t \<Longrightarrow> stable s t"
  by (simp add: stable_def marked_def framedD)

lemma stable_emit [simp]: "stable s (emit ns t) = stable s t"
  by (simp add: stable_def marked_def)

lemma stable_update:
  assumes "gn_parent_reservation (f (node s i)) = gn_parent_reservation (node s i)"
    and "marked s i \<Longrightarrow> gn_state (f (node s i)) AND REVOKED \<noteq> 0"
  shows "stable s (update_node i f s)"
  using assms by (auto simp: stable_def marked_def node_update_node)

lemma stable_descends:
  assumes "stable s t" and "tree_ok (essences s)"
  shows "descends s i a \<Longrightarrow> i < length (gr_nodes s) \<Longrightarrow> descends t i a"
proof (induction rule: descends.induct)
  case (descends_up i r a)
  have "ls_node r < length (gr_nodes s)"
    using tree_ok_parent [OF assms(2) descends_up.prems descends_up.hyps(1)] descends_up.prems by simp
  then show ?case
    using descends_up descends.descends_up [of t i r a] assms(1) by (auto simp: stable_def)
qed (rule descends_self)

lemma descends_range:
  "descends s i a \<Longrightarrow> tree_ok (essences s) \<Longrightarrow> i < length (gr_nodes s) \<Longrightarrow> a \<le> i"
proof (induction rule: descends.induct)
  case (descends_up i r a)
  then show ?case using tree_ok_parent [OF descends_up.prems descends_up.hyps(1)] by simp
qed simp

lemma stable_revoked:
  assumes "stable s t" and "tree_ok (essences s)" and "tree_ok (essences t)"
    and "i < length (gr_nodes s)" and "is_revoked s i"
  shows "is_revoked t i"
proof -
  obtain a where a: "descends s i a" "marked s a" using revoked_iff_marked [OF assms(2,4)] assms(5) by blast
  have "a < length (gr_nodes s)" using descends_range [OF a(1) assms(2,4)] assms(4) by simp
  then have "marked t a" using assms(1) a(2) by (simp add: stable_def)
  moreover have "descends t i a" by (rule stable_descends [OF assms(1,2) a(1) assms(4)])
  moreover have "i < length (gr_nodes t)" using assms(1,4) by (simp add: stable_def)
  ultimately show ?thesis using revoked_iff_marked [OF assms(3)] by blast
qed

lemma machine_trees: "machine_ok m \<Longrightarrow> tree_ok (essences (gm_store m))"
  by (simp add: machine_ok_def grants_ok_def)

lemma guard_word:
  assumes "guards_ok s gs" and "i < length (gr_nodes s)"
  obtains r where "gn_state (node s i) = state_word r (entered_count gs i)" "entered_count gs i < 2 ^ 63"
  using assms by (auto simp: guards_ok_def)

lemma REVOKED_neq_0 [simp]: "REVOKED \<noteq> 0"
  using bit_REVOKED [of 63] by auto

lemma stable_step:
  assumes ok: "machine_ok m"
  shows "stable (gm_store m) (gm_store (fst (grant_step m c)))"
proof -
  let ?s = "gm_store m"
  have g: "grants_ok ?s (all_leases m)" and gu: "guards_ok ?s (gm_guards m)"
    using ok by (auto simp: machine_ok_def)
  have charge: "stable ?s (gm_store (fst (keep_lease (grant_charge i ev usage ?s) m)))"
    if h: "handle ?s i" "valid_pool (node ?s i) ev" for i ev usage
  proof -
    obtain t r where run: "grant_charge i ev usage ?s = (t, r)" by (cases "grant_charge i ev usage ?s")
    note hr = handle_range [OF h(1)]
    from g conjunct1 [OF hr] conjunct2 [OF hr] h(2) run show ?thesis
      by (cases rule: grant_charge_cases) (simp_all add: run stable_framed)
  qed
  show ?thesis
  proof (cases c)
    case (Charge i usage)
    then show ?thesis using charge [of i None] by (simp add: try_charge_def)
  next
    case (Charge_stream i event usage)
    show ?thesis
    proof (cases "event_index (node ?s i) event")
      case (Ok k)
      then show ?thesis using Charge_stream charge [OF _ event_index_valid [OF Ok]] by (simp add: try_charge_stream_def)
    qed (use Charge_stream in \<open>simp add: try_charge_stream_def\<close>)
  next
    case (Release k)
    then show ?thesis using stable_framed [OF framed_drop_lease] by simp
  next
    case (Restrict i ps l)
    show ?thesis
    proof (cases "handle ?s i")
      case True
      obtain t r where run: "grant_restrict i ps l ?s = (t, r)" by (cases "grant_restrict i ps l ?s")
      note hr = handle_range [OF True]
      from g conjunct1 [OF hr] conjunct2 [OF hr] run show ?thesis
      proof (cases rule: grant_restrict_cases)
        case (derived lease events generic s1 cs)
        have "stable s1 (add_node (child_of l generic ps lease events) s1)"
          by (simp add: stable_def marked_def node_add_node)
        moreover have "stable (add_node (child_of l generic ps lease events) s1) t"
          unfolding derived(3) by (rule stable_update) (simp_all add: marked_def)
        ultimately show ?thesis
          using stable_trans [OF stable_framed [OF derived(2)]] stable_trans Restrict True run by auto
      next
        case (refused e)
        then show ?thesis using Restrict True run stable_framed by simp
      qed
    qed (use Restrict in simp)
  next
    case (Enter i event right notify)
    show ?thesis
    proof (cases "handle ?s i")
      case True
      obtain t r where run: "enter_mode i event right notify ?s = (t, r)" by (cases "enter_mode i event right notify ?s")
      from gu True run show ?thesis
      proof (cases rule: enter_mode_cases)
        case (entered w)
        have "\<not> marked ?s i" using entered(3) by (auto simp: advance_def marked_def split: if_splits)
        then have "stable ?s t" unfolding entered(2) by (intro stable_update) simp_all
        then show ?thesis using Enter True run entered(1) by simp
      qed (use Enter True run in simp)
    qed (use Enter in simp)
  next
    case (Leave k)
    show ?thesis
    proof (cases "k < length (gm_guards m)")
      case True
      let ?g = "gm_guards m ! k"
      have i: "og_node ?g < length (gr_nodes ?s)" using gu True by (auto simp: guards_ok_def handle_def)
      obtain r where w: "gn_state (node ?s (og_node ?g)) = state_word r (entered_count (gm_guards m) (og_node ?g))"
        "entered_count (gm_guards m) (og_node ?g) < 2 ^ 63"
        by (rule guard_word [OF gu i])
      obtain c where c: "entered_count (gm_guards m) (og_node ?g) = c + 1"
        using entered_count_remove [OF True, of "og_node ?g"] by simp
      have "gn_state (node ?s (og_node ?g)) - 1 = state_word r c"
        using w c state_word_pred by simp
      moreover have "r" if "marked ?s (og_node ?g)" using that w state_word_revoked by (simp add: marked_def)
      moreover have "c < 2 ^ 63" using w c by simp
      ultimately have "stable ?s (update_node (og_node ?g)
          (\<lambda>n. n\<lparr>gn_state := gn_state (node ?s (og_node ?g)) - 1\<rparr>) ?s)"
        using state_word_revoked by (intro stable_update) simp_all
      then show ?thesis using drop_operation_exec [of ?g ?s] Leave True by auto
    qed (use Leave in simp)
  next
    case (Register_stream i event notify)
    obtain t r where run: "register_stream i event notify ?s = (t, r)" by (cases "register_stream i event notify ?s")
    have "stable ?s (update_node i (\<lambda>n. n\<lparr>gn_streams := w\<rparr>) ?s)" for w
      by (rule stable_update) (simp_all add: marked_def)
    then have "stable ?s t" using register_stream_exec [OF run] by auto
    then show ?thesis using Register_stream run by simp
  next
    case (Mark i)
    have "stable ?s (update_node i (\<lambda>n. n\<lparr>gn_state := gn_state (node ?s i) OR REVOKED\<rparr>) ?s)"
      by (rule stable_update) simp_all
    then show ?thesis using Mark revoke_mark_exec [of i ?s] by auto
  next
    case (Drop_handle i)
    have "stable ?s (update_node i (\<lambda>n. n\<lparr>gn_dropped := True\<rparr>) ?s)"
      by (rule stable_update) (simp_all add: marked_def)
    then show ?thesis
      using Drop_handle stable_trans [OF _ stable_framed [OF framed_drop_leases]] by (simp add: drop_node_def)
  qed (auto simp: maintain_operations_def)
qed

lemma stable_run:
  "machine_ok m \<Longrightarrow> run_calls grant_step m cs = (m', outs) \<Longrightarrow> stable (gm_store m) (gm_store m') \<and> machine_ok m'"
proof (induction cs arbitrary: m outs)
  case (Cons c cs)
  obtain m1 out where s: "grant_step m c = (m1, out)" by (cases "grant_step m c")
  obtain outs' where run: "run_calls grant_step m1 cs = (m', outs')"
    using Cons.prems(2) s by (auto split: prod.splits)
  have "machine_ok m1" "stable (gm_store m) (gm_store m1)"
    using machine_ok_step [OF Cons.prems(1), of c] stable_step [OF Cons.prems(1), of c] s by auto
  then show ?case using Cons.IH [OF _ run] stable_trans by blast
qed simp


lemma charge_loop_fits:
  assumes "charge_loop requested limits usage 0 = (counters, None)" and "length usage = length requested"
    and "k < length requested" and "0 < requested ! k"
  shows "usage ! k + requested ! k \<le> limits ! k \<and> usage ! k + requested ! k \<le> usize_max"
proof -
  have "charge_loop requested limits usage index = (counters, None) \<Longrightarrow> length usage = length requested \<Longrightarrow>
      index \<le> k \<Longrightarrow> k < length requested \<Longrightarrow> 0 < requested ! k \<Longrightarrow>
      usage ! k + requested ! k \<le> limits ! k \<and> usage ! k + requested ! k \<le> usize_max" for index
  proof (induction requested limits usage index rule: charge_loop.induct)
    case (1 requested limits usage index)
    have inside: "index < length requested" using "1.prems" by simp
    note run = "1.prems"(1) [unfolded charge_loop.simps [of requested limits usage index]]
    show ?case
    proof (cases "requested ! index = 0")
      case True
      then have "index \<noteq> k" using "1.prems"(5) by auto
      then show ?thesis using "1.IH"(1) [OF inside True] "1.prems" run inside True by simp
    next
      case False
      have fit: "usage ! index + requested ! index \<le> usize_max" "usage ! index + requested ! index \<le> limits ! index"
        and next_run: "charge_loop requested limits (usage[index := usage ! index + requested ! index]) (index + 1) = (counters, None)"
        using run inside False by (auto simp: checked_add_def split: if_splits)
      show ?thesis
      proof (cases "index = k")
        case True
        then show ?thesis using fit by simp
      next
        case other: False
        have "checked_add usize_max (usage ! index) (requested ! index) = Some (usage ! index + requested ! index)"
          using fit by simp
        from "1.IH"(2) [OF inside False this fit(2) next_run] "1.prems" other show ?thesis by simp
      qed
    qed
  qed
  then show ?thesis using assms by blast
qed

lemma refused_framed:
  assumes ok: "machine_ok m" and step: "grant_step m c = (m', out)"
    and out: "out \<in> {Leased (Err e), Derived (Err e), Entered (Err e)}"
  shows "framed (gm_store m) (gm_store m') \<and> gm_leases m' = gm_leases m \<and> gm_guards m' = gm_guards m"
proof -
  let ?s = "gm_store m"
  have g: "grants_ok ?s (all_leases m)" and gu: "guards_ok ?s (gm_guards m)"
    using ok by (auto simp: machine_ok_def)
  have charge: "framed ?s (gm_store n) \<and> gm_leases n = gm_leases m \<and> gm_guards n = gm_guards m"
    if h: "handle ?s i" "valid_pool (node ?s i) ev" and k: "keep_lease (grant_charge i ev usage ?s) m = (n, Leased (Err e'))"
    for i ev usage n e'
  proof -
    obtain t r where run: "grant_charge i ev usage ?s = (t, r)" by (cases "grant_charge i ev usage ?s")
    note hr = handle_range [OF h(1)]
    from g conjunct1 [OF hr] conjunct2 [OF hr] h(2) run show ?thesis
      by (cases rule: grant_charge_cases) (use k run in auto)
  qed
  have no_lease: "\<exists>e'. out = Leased (Err e')" if "out = Leased r" for r using out that by auto
  show ?thesis
  proof (cases c)
    case (Charge i usage)
    show ?thesis
    proof (cases "handle ?s i")
      case True
      then obtain e' where "keep_lease (grant_charge i None usage ?s) m = (m', Leased (Err e'))"
        using step Charge out by (cases "(grant_charge i None usage ?s, m)" rule: keep_lease.cases) (auto simp: try_charge_def)
      then show ?thesis using charge [OF True, of None] by simp
    qed (use step Charge out in auto)
  next
    case (Charge_stream i event usage)
    show ?thesis
    proof (cases "handle ?s i")
      case True
      show ?thesis
      proof (cases "event_index (node ?s i) event")
        case (Ok k)
        then obtain e' where "keep_lease (grant_charge i (Some k) (as_limits usage) ?s) m = (m', Leased (Err e'))"
          using step Charge_stream out True
          by (cases "(grant_charge i (Some k) (as_limits usage) ?s, m)" rule: keep_lease.cases) (auto simp: try_charge_stream_def)
        then show ?thesis using charge [OF True event_index_valid [OF Ok]] by simp
      qed (use step Charge_stream True in \<open>auto simp: try_charge_stream_def\<close>)
    qed (use step Charge_stream out in auto)
  next
    case (Restrict i ps l)
    show ?thesis
    proof (cases "handle ?s i")
      case True
      obtain t r where run: "grant_restrict i ps l ?s = (t, r)" by (cases "grant_restrict i ps l ?s")
      note hr = handle_range [OF True]
      from g conjunct1 [OF hr] conjunct2 [OF hr] run show ?thesis
        by (cases rule: grant_restrict_cases) (use step Restrict out True run in auto)
    qed (use step Restrict out in auto)
  next
    case (Enter i event right notify)
    show ?thesis
    proof (cases "handle ?s i")
      case True
      obtain t r where run: "enter_mode i event right notify ?s = (t, r)" by (cases "enter_mode i event right notify ?s")
      from gu True run show ?thesis
        by (cases rule: enter_mode_cases) (use step Enter out True run in auto)
    qed (use step Enter out in auto)
  qed (use step out in \<open>auto split: if_splits prod.splits\<close>)
qed

lemma machine_pool:
  assumes "machine_ok m" and "i < length (gr_nodes (gm_store m))" and "valid_pool (node (gm_store m) i) ev"
  shows "pool_accounts (all_leases m) i ev (pool_of (node (gm_store m) i) ev)"
  using assms unfolding machine_ok_def grants_ok_def accounts_def by blast

lemma position_of_unique:
  assumes "sorted_wrt (<) (map (event_key \<circ> ea_permission) as)" and "b \<in> set as"
    and "pm_event (ea_permission b) = e"
  shows "\<exists>k. position_of e as = Some k \<and> as ! k = b"
  using assms
proof (induction as)
  case (Cons a as)
  show ?case
  proof (cases "pm_event (ea_permission a) = e")
    case True
    have "b \<notin> set as" if "b \<noteq> a"
      using Cons.prems True by (auto simp: event_key_def)
    then show ?thesis using True Cons.prems(2) by auto
  next
    case False
    then show ?thesis using Cons by auto
  qed
qed simp

lemma check_parent:
  assumes ok: "machine_ok m" and h: "handle (gm_store m) i"
    and r: "gn_parent_reservation (node (gm_store m) i) = Some r"
    and check: "grant_check (gm_store m) i event right = Ok ()"
  shows "grant_check (gm_store m) (ls_node r) event right = Ok ()"
proof -
  let ?s = "gm_store m"
  have tree: "tree_ok (essences ?s)" by (rule machine_trees [OF ok])
  have i: "i < length (gr_nodes ?s)" using h by (simp add: handle_def)
  have open_i: "\<not> is_revoked ?s i" using check by (auto simp: grant_check_def split: if_splits)
  then have open_r: "\<not> is_revoked ?s (ls_node r)" using is_revoked_step [OF tree i] r by simp
  show ?thesis
  proof (cases "gn_permissions (node ?s (ls_node r))")
    case None
    then show ?thesis using open_r by (simp add: grant_check_def)
  next
    case (Some bs)
    have p: "ls_node r < length (gr_nodes ?s)" using tree_ok_parent [OF tree i r] i by simp
    have "node_ok (essences ?s) i" using tree i by (simp add: tree_ok_def essences_def)
    then obtain as where as: "gn_permissions (node ?s i) = Some as"
      and below: "\<forall>a \<in> set as. \<exists>b \<in> set bs. pm_event (ea_permission b) = pm_event (ea_permission a)
          \<and> rights_contains (pm_rights (ea_permission b)) (pm_rights (ea_permission a))"
      using i p r Some by (auto simp: node_ok_def essences_def essence_def)
    obtain k where k: "position_of event as = Some k"
      "rights_contains (pm_rights (ea_permission (as ! k))) right"
      by (rule grant_check_Ok [OF check as])
    then obtain b where b: "b \<in> set bs" "pm_event (ea_permission b) = event"
        "rights_contains (pm_rights (ea_permission b)) (pm_rights (ea_permission (as ! k)))"
      using below position_of_Some [OF k(1)] nth_mem by metis
    have "node_ok (essences ?s) (ls_node r)" using tree p by (simp add: tree_ok_def essences_def)
    then have "sorted_wrt (<) (map (event_key \<circ> ea_permission) bs)"
      using p Some by (auto simp: node_ok_def essences_def essence_def comp_def split: option.splits)
    from position_of_unique [OF this b(1,2)] obtain k' where "position_of event bs = Some k'" "bs ! k' = b" by blast
    then show ?thesis
      using open_r Some rights_contains_trans [OF b(3) k(2)] by (simp add: grant_check_def)
  qed
qed

subsection \<open>Properties\<close>

text \<open>A root with one child for the witnesses: the child may publish event 7, with four retained
  items reserved for it.\<close>

definition example_permission :: permission where
  "example_permission = with_limits (permission_new (EventId 7) Rights_PUBLISH)
     \<lparr>sl_retained_items = 4, sl_subscriptions = 0, sl_waiters = 0\<rparr>"

definition example_limits :: limits where
  "example_limits = limits_ZERO\<lparr>li_streams := 1, li_grants := 2, li_retained_items := 10\<rparr>"

definition example_child_limits :: limits where
  "example_child_limits = limits_ZERO\<lparr>li_streams := 1, li_retained_items := 6\<rparr>"

definition example_grant_calls :: "grant_call list" where
  "example_grant_calls =
     [Restrict 0 [example_permission] example_child_limits,
      Charge_stream 1 (EventId 7) \<lparr>sl_retained_items = 3, sl_subscriptions = 0, sl_waiters = 0\<rparr>,
      Enter 1 (EventId 7) Rights_PUBLISH True]"

definition example_lease :: lease where
  "example_lease = \<lparr>ls_node = 1, ls_usage = limits_ZERO\<lparr>li_retained_items := 3\<rparr>, ls_event = Some 0\<rparr>"

definition example_outcomes :: "grant_out list" where
  "example_outcomes = [Derived (Ok 1), Leased (Ok example_lease), Entered (Ok \<lparr>og_node = 1, og_notify = True\<rparr>)]"

definition example_machine :: grant_machine where
  "example_machine =
     \<lparr>gm_store =
       \<lparr>gr_nodes =
         [(node_root example_limits)\<lparr>gn_pool := \<lparr>pl_limits = example_limits, pl_usage = [1, 1, 0, 6, 0, 0, 0]\<rparr>,
            gn_children := [1]\<rparr>,
          \<lparr>gn_limits = example_child_limits,
           gn_pool = pool_new (example_child_limits\<lparr>li_retained_items := 2\<rparr>),
           gn_permissions = Some [\<lparr>ea_permission = example_permission,
             ea_pool = \<lparr>pl_limits = limits_ZERO\<lparr>li_retained_items := 4\<rparr>, pl_usage = [0, 0, 0, 3, 0, 0, 0]\<rparr>\<rparr>],
           gn_parent_reservation = Some \<lparr>ls_node = 0, ls_usage = example_child_limits\<lparr>li_grants := 1\<rparr>, ls_event = None\<rparr>,
           gn_event_reservations = [], gn_state = 1, gn_revoker = False,
           gn_revocation_complete = False, gn_children = [], gn_streams = [], gn_dropped = False\<rparr>],
        gr_alive = [], gr_notices = []\<rparr>,
      gm_leases = [example_lease], gm_guards = [\<lparr>og_node = 1, og_notify = True\<rparr>]\<rparr>"

lemma replicate_7: "replicate 7 x = [x, x, x, x, x, x, x]"
  by (simp add: numeral_eq_Suc)

lemmas grant_exec = grant_restrict_def limits_validate_def partition_limits_def compact_permissions_def
  try_charge_def try_charge_stream_def grant_charge_def charge_loop.simps checked_add_def checked_sub_def
  usize_max_def isize_max_def is_revoked_def register_child_def event_index_def Let_def
  grant_check_def limits_values.simps as_limits_def update_node_def node_new_def pool_new_def
  event_allowance_new_def emit_def handle_def limits_ZERO_def permission_new_def with_limits_def
  Rights_PUBLISH_def rights_contains_def enter_mode_def advance_def drop_operation_def
  machine_new_def node_root_def event_key_def replicate_7 REVOKED_def ACTIVE_COUNT_def

lemmas grant_examples = example_limits_def example_permission_def example_child_limits_def
  example_grant_calls_def example_machine_def example_lease_def example_outcomes_def

lemma example_machine_reachable:
  "grant_reachable example_limits example_grant_calls example_machine example_outcomes"
  by (simp add: grant_reachable_def grant_exec grant_examples)

lemma example_handles: "handle (gm_store example_machine) 0" "handle (gm_store example_machine) 1"
  by (simp_all add: handle_def example_machine_def node_root_def node_new_def)

lemma example_descends: "descends (gm_store example_machine) 1 0"
  by (rule descends_up [of _ _ "\<lparr>ls_node = 0, ls_usage = example_child_limits\<lparr>li_grants := 1\<rparr>, ls_event = None\<rparr>"])
    (simp_all add: example_machine_def descends_self)

text \<open>C11: Every pool accounts exactly: after any calls, each counter of each pool of a live grant,
  generic or of an event, is the sum of the live leases charged to that pool, child reservations
  included, and it is within the pool's limit. So no counter wraps when a lease is dropped, and
  no allowance is lost or lent twice.\<close>

theorem pools_account_exactly:
  assumes "grant_reachable l cs m outs" and "handle (gm_store m) i"
    and "valid_pool (node (gm_store m) i) ev" and "k < 7"
  shows "pl_usage (pool_of (node (gm_store m) i) ev) ! k = charged (all_leases m) i ev k
    \<and> pl_usage (pool_of (node (gm_store m) i) ev) ! k
        \<le> allowance (pl_limits (pool_of (node (gm_store m) i) ev)) k"
  using machine_pool [OF reachable_machine_ok [OF assms(1)] _ assms(3)] assms(2,4)
  unfolding handle_def pool_accounts_def by metis

theorem pools_account_exactly_witness:
  "pl_usage (pool_of (node (gm_store example_machine) 1) (Some 0)) ! 3
     = charged (all_leases example_machine) 1 (Some 0) 3"
  using pools_account_exactly [OF example_machine_reachable example_handles(2), of "Some 0" 3]
  by (simp add: example_machine_def)

text \<open>C9: A grant bounds its whole subtree: after any calls, what clients hold on a grant and on all
  its descendants together never exceeds the grant's own limits, allowance by allowance, however
  the descendants were derived; and \<open>usage()\<close> reports exactly the leases on the grant itself.\<close>

theorem subtree_within_limits:
  assumes "grant_reachable l cs m outs" and "handle (gm_store m) a" and "k < 7"
  shows "weight (mset (gm_leases m)) (\<lambda>ls. descends (gm_store m) (ls_node ls) a) k
      \<le> allowance (gn_limits (node (gm_store m) a)) k
    \<and> allowance (grant_usage (gm_store m) a) k = weight (all_leases m) (\<lambda>ls. ls_node ls = a) k
    \<and> allowance (grant_usage (gm_store m) a) k \<le> allowance (gn_limits (node (gm_store m) a)) k"
proof -
  have ok: "machine_ok m" by (rule reachable_machine_ok [OF assms(1)])
  then have g: "grants_ok (gm_store m) (all_leases m)" by (simp add: machine_ok_def)
  have a: "a < length (gr_nodes (gm_store m))" using assms(2) by (simp add: handle_def)
  show ?thesis
    using subtree_weight [OF ok assms(3,2)] node_total [OF g a assms(3)] by simp
qed

theorem subtree_within_limits_witness:
  "weight (mset (gm_leases example_machine)) (\<lambda>ls. descends (gm_store example_machine) (ls_node ls) 0) 3 \<le> 10"
  using subtree_within_limits [OF example_machine_reachable example_handles(1), of 3]
  by (simp add: example_machine_def example_limits_def node_root_def node_new_def limits_ZERO_def limits_values.simps)

text \<open>C19: A charge is exact: on a grant that is not revoked it succeeds if and only if every requested
  amount fits, on top of what is charged, in the limit of its pool (and in \<open>usize\<close>); otherwise
  the caller gets \<open>Capacity\<close>.\<close>

theorem charge_exact:
  assumes "grant_reachable l cs m outs" and "handle (gm_store m) i" and "\<not> is_revoked (gm_store m) i"
  shows "snd (grant_step m (Charge i usage)) =
    Leased (if \<forall>k < 7. 0 < allowance usage k \<longrightarrow>
          charged (all_leases m) i None k + allowance usage k \<le> allowance (pl_limits (gn_pool (node (gm_store m) i))) k
          \<and> charged (all_leases m) i None k + allowance usage k \<le> usize_max
       then Ok \<lparr>ls_node = i, ls_usage = usage, ls_event = None\<rparr> else Err TopicError_Capacity)"
proof -
  let ?s = "gm_store m" and ?p = "gn_pool (node (gm_store m) i)"
  have g: "grants_ok ?s (all_leases m)" using reachable_machine_ok [OF assms(1)] by (simp add: machine_ok_def)
  have i: "i < length (gr_nodes ?s)" using assms(2) by (simp add: handle_def)
  have p: "pool_accounts (all_leases m) i None ?p"
    using machine_pool [OF reachable_machine_ok [OF assms(1)] i, of None] by simp
  obtain counters q where loop:
    "charge_loop (limits_values usage) (limits_values (pl_limits ?p)) (pl_usage ?p) 0 = (counters, q)"
    by (cases "charge_loop (limits_values usage) (limits_values (pl_limits ?p)) (pl_usage ?p) 0")
  have len: "length (pl_usage ?p) = length (limits_values usage)" using p by (simp add: pool_accounts_def)
  note spec = charge_loop_spec [OF loop len]
  have rev: "\<not> is_revoked (update_node i (set_usage None u) ?s) i" for u
    using assms(3) by (simp add: is_revoked_update)
  have use: "pl_usage ?p ! k = charged (all_leases m) i None k" if "k < 7" for k
    using p that by (simp add: pool_accounts_def)
  show ?thesis
  proof (cases q)
    case None
    have "snd (grant_charge i None usage ?s) = Ok \<lparr>ls_node = i, ls_usage = usage, ls_event = None\<rparr>"
      using loop None assms(3) rev by (simp add: grant_charge_def Let_def)
    moreover have "charged (all_leases m) i None k + allowance usage k \<le> usize_max"
      "charged (all_leases m) i None k + allowance usage k \<le> allowance (pl_limits ?p) k"
      if "k < 7" "0 < allowance usage k" for k
      using charge_loop_fits [OF loop [unfolded None] len, of k] that use [OF that(1)] None by auto
    ultimately show ?thesis
      using assms(2) by (cases "grant_charge i None usage ?s") (auto simp: try_charge_def)
  next
    case (Some j)
    have "snd (grant_charge i None usage ?s) = Err TopicError_Capacity"
      using loop Some assms(3) by (simp add: grant_charge_def Let_def)
    moreover have "j < 7" "0 < allowance usage j" "\<not> (charged (all_leases m) i None j + allowance usage j
        \<le> allowance (pl_limits ?p) j \<and> charged (all_leases m) i None j + allowance usage j \<le> usize_max)"
      using spec Some use [of j] by auto
    ultimately show ?thesis
      using assms(2) by (cases "grant_charge i None usage ?s") (auto simp: try_charge_def)
  qed
qed

theorem charge_exact_witness:
  "snd (grant_step example_machine (Charge 1 (limits_ZERO\<lparr>li_retained_items := 3\<rparr>))) = Leased (Err TopicError_Capacity)"
proof -
  have "\<not> is_revoked (gm_store example_machine) 1"
    by (simp add: example_machine_def is_revoked_def node_root_def node_new_def REVOKED_def)
  moreover have "pl_limits (gn_pool (node (gm_store example_machine) 1)) = example_child_limits\<lparr>li_retained_items := 2\<rparr>"
    by (simp add: example_machine_def pool_new_def)
  ultimately show ?thesis
    using charge_exact [OF example_machine_reachable example_handles(2), of "limits_ZERO\<lparr>li_retained_items := 3\<rparr>"]
    by (auto simp: example_child_limits_def limits_ZERO_def limits_values.simps intro: exI [of _ 3])
qed

text \<open>C18: A failed request leaves nothing behind: when a charge, a stream charge, a derivation or an
  entry is refused, for whatever reason and after however many partial reservations, every pool
  counter, every lease and every count of entered operations is what it was.\<close>

theorem failure_leaves_nothing:
  assumes "grant_reachable l cs m outs" and "grant_step m c = (m', out)"
    and "out \<in> {Leased (Err e), Derived (Err e), Entered (Err e)}"
  shows "gm_leases m' = gm_leases m \<and> gm_guards m' = gm_guards m
    \<and> live_leases (gm_store m') = live_leases (gm_store m)
    \<and> (\<forall>i ev. i < length (gr_nodes (gm_store m)) \<and> valid_pool (node (gm_store m) i) ev \<longrightarrow>
         pl_usage (pool_of (node (gm_store m') i) ev) = pl_usage (pool_of (node (gm_store m) i) ev)
         \<and> gn_state (node (gm_store m') i) = gn_state (node (gm_store m) i))"
proof -
  have ok: "machine_ok m" by (rule reachable_machine_ok [OF assms(1)])
  obtain keep: "framed (gm_store m) (gm_store m')" "gm_leases m' = gm_leases m" "gm_guards m' = gm_guards m"
    using refused_framed [OF ok assms(2,3)] by blast
  have "machine_ok m'" using machine_ok_step [OF ok, of c] assms(2) by simp
  then have acc': "accounts (gm_store m') (all_leases m)" and acc: "accounts (gm_store m) (all_leases m)"
    using ok keep framed_live_leases [OF keep(1)] by (simp_all add: machine_ok_def grants_ok_def)
  have "pl_usage (pool_of (node (gm_store m') i) ev) = pl_usage (pool_of (node (gm_store m) i) ev)"
    if "i < length (gr_nodes (gm_store m))" "valid_pool (node (gm_store m) i) ev" for i ev
  proof (rule nth_equalityI)
    have "pool_accounts (all_leases m) i ev (pool_of (node (gm_store m') i) ev)"
      "pool_accounts (all_leases m) i ev (pool_of (node (gm_store m) i) ev)"
      using acc acc' that framedD [OF keep(1)] by (simp_all add: accounts_def)
    then show "length (pl_usage (pool_of (node (gm_store m') i) ev)) = length (pl_usage (pool_of (node (gm_store m) i) ev))"
      and "\<And>k. k < length (pl_usage (pool_of (node (gm_store m') i) ev)) \<Longrightarrow>
        pl_usage (pool_of (node (gm_store m') i) ev) ! k = pl_usage (pool_of (node (gm_store m) i) ev) ! k"
      by (simp_all add: pool_accounts_def)
  qed
  then show ?thesis using keep framed_live_leases [OF keep(1)] framedD(3) [OF keep(1)] by simp
qed

theorem failure_leaves_nothing_witness:
  "gm_leases (fst (grant_step example_machine (Charge 1 (limits_ZERO\<lparr>li_streams := 1, li_retained_items := 3\<rparr>))))
     = [example_lease]"
proof -
  let ?c = "Charge 1 (limits_ZERO\<lparr>li_streams := 1, li_retained_items := 3\<rparr>)"
  have out: "snd (grant_step example_machine ?c) \<in> {Leased (Err TopicError_Capacity),
      Derived (Err TopicError_Capacity), Entered (Err TopicError_Capacity)}"
    by (simp add: grant_exec grant_examples)
  have "gm_leases (fst (grant_step example_machine ?c)) = gm_leases example_machine"
    using failure_leaves_nothing [OF example_machine_reachable surjective_pairing out] by blast
  then show ?thesis by (simp add: example_machine_def)
qed

text \<open>C17: Authority only shrinks: whatever a grant may do on an event, its parent may do too, and so
  may every ancestor.\<close>

theorem authority_attenuates:
  assumes "grant_reachable l cs m outs" and "handle (gm_store m) i" and "descends (gm_store m) i a"
    and "grant_check (gm_store m) i event right = Ok ()"
  shows "grant_check (gm_store m) a event right = Ok ()"
  using assms(3,2,4)
proof (induction rule: descends.induct)
  case (descends_up i r a)
  have ok: "machine_ok m" by (rule reachable_machine_ok [OF assms(1)])
  have "handle (gm_store m) (ls_node r)"
    using machine_rooted [OF ok] descends_up.hyps(1) descends_up.prems(1) by (auto simp: rooted_def)
  moreover have "grant_check (gm_store m) (ls_node r) event right = Ok ()"
    by (rule check_parent [OF ok descends_up.prems(1) descends_up.hyps(1) descends_up.prems(2)])
  ultimately show ?case by (rule descends_up.IH)
qed

theorem authority_attenuates_witness:
  "grant_check (gm_store example_machine) 0 (EventId 7) Rights_PUBLISH = Ok ()"
proof (rule authority_attenuates [OF example_machine_reachable example_handles(2) example_descends])
  show "grant_check (gm_store example_machine) 1 (EventId 7) Rights_PUBLISH = Ok ()"
    by (simp add: grant_exec grant_examples)
qed

text \<open>C32: Revocation is final and reaches the whole subtree: once a grant has been marked, every
  descendant counts as revoked in every later state, and while handles to it remain, entering is
  refused as revoked, charging is refused as revoked, and deriving, charging a stream and
  registering a stream are refused.\<close>

theorem revocation_is_final:
  assumes "grant_reachable l cs m outs" and "handle (gm_store m) a" and "i < length (gr_nodes (gm_store m))"
    and "descends (gm_store m) i a" and "run_calls grant_step m (Mark a # ds) = (m', outs')"
  shows "is_revoked (gm_store m') i
    \<and> (handle (gm_store m') i \<longrightarrow>
         snd (grant_step m' (Enter i event right notify)) = Entered (Err TopicError_Revoked)
         \<and> snd (grant_step m' (Charge i usage)) = Leased (Err TopicError_Revoked)
         \<and> (\<exists>e. snd (grant_step m' (Charge_stream i event limits)) = Leased (Err e))
         \<and> (\<exists>e. snd (grant_step m' (Restrict i ps l')) = Derived (Err e))
         \<and> snd (grant_step m' (Register_stream i event stream)) = Registered (Err TopicError_Revoked))"
proof -
  have ok: "machine_ok m" by (rule reachable_machine_ok [OF assms(1)])
  let ?m = "fst (grant_step m (Mark a))"
  have run: "run_calls grant_step ?m ds = (m', tl outs')" using assms(5) by (auto split: prod.splits)
  have ok1: "machine_ok ?m" by (rule machine_ok_step [OF ok])
  have st: "stable (gm_store m) (gm_store ?m)" by (rule stable_step [OF ok])
  have late: "stable (gm_store ?m) (gm_store m')" "machine_ok m'" using stable_run [OF ok1 run] by auto
  have i: "i < length (gr_nodes (gm_store ?m))" using st assms(3) by (simp add: stable_def)
  have "marked (gm_store ?m) a"
    using assms(2) revoke_mark_exec [of a "gm_store m"] by (auto simp: marked_def node_update_node handle_def)
  moreover have "descends (gm_store ?m) i a"
    by (rule stable_descends [OF st machine_trees [OF ok] assms(4,3)])
  ultimately have "is_revoked (gm_store ?m) i" using revoked_iff_marked [OF machine_trees [OF ok1] i] by blast
  then have rev: "is_revoked (gm_store m') i"
    using stable_revoked [OF late(1) machine_trees [OF ok1] machine_trees [OF late(2)] i] by simp
  moreover have "\<exists>e. snd (grant_step m' (Restrict i ps l')) = Derived (Err e)" if h: "handle (gm_store m') i"
  proof -
    obtain s r where r: "grant_restrict i ps l' (gm_store m') = (s, r)" by (cases "grant_restrict i ps l' (gm_store m')")
    have "grants_ok (gm_store m') (all_leases m')" using late(2) by (simp add: machine_ok_def)
    from this conjunct1 [OF handle_range [OF h]] conjunct2 [OF handle_range [OF h]] r show ?thesis
      by (cases rule: grant_restrict_cases) (use rev r h in auto)
  qed
  moreover have "\<exists>e. snd (grant_step m' (Charge_stream i event limits)) = Leased (Err e)" if "handle (gm_store m') i"
    using that rev by (auto simp: try_charge_stream_def grant_charge_def split: result.splits)
  ultimately show ?thesis
    by (auto simp: enter_mode_def grant_check_def try_charge_def grant_charge_def register_stream_def)
qed

theorem revocation_is_final_witness:
  "is_revoked (gm_store (fst (run_calls grant_step example_machine [Mark 0, Leave 0]))) 1"
proof -
  have "1 < length (gr_nodes (gm_store example_machine))" by (simp add: example_machine_def)
  from revocation_is_final [OF example_machine_reachable example_handles(1) this example_descends surjective_pairing,
      of "[Leave 0]"]
  show ?thesis by blast
qed

text \<open>C20: The state word counts exactly: after any calls the low 63 bits of a grant's state are the
  number of operations that have entered it and not left, so the count never runs into the
  revocation bit, and an operation enters a grant only while no revocation has reached it.\<close>

theorem active_count_exact:
  assumes "grant_reachable l cs m outs" and "i < length (gr_nodes (gm_store m))"
  shows "unat (gn_state (node (gm_store m) i) AND ACTIVE_COUNT) = entered_count (gm_guards m) i
    \<and> (snd (grant_step m (Enter i event right notify)) = Entered (Ok g) \<longrightarrow>
         \<not> is_revoked (gm_store m) i
         \<and> entered_count (gm_guards (fst (grant_step m (Enter i event right notify)))) i
             = entered_count (gm_guards m) i + 1)"
proof -
  have ok: "machine_ok m" by (rule reachable_machine_ok [OF assms(1)])
  then have gu: "guards_ok (gm_store m) (gm_guards m)" by (simp add: machine_ok_def)
  obtain r where w: "gn_state (node (gm_store m) i) = state_word r (entered_count (gm_guards m) i)"
    "entered_count (gm_guards m) i < 2 ^ 63"
    by (rule guard_word [OF gu assms(2)])
  have "unat (gn_state (node (gm_store m) i) AND ACTIVE_COUNT) = entered_count (gm_guards m) i"
    unfolding w(1) state_word_count [OF w(2)] using w(2) by (simp add: unat_of_nat take_bit_nat_eq_self)
  moreover have "\<not> is_revoked (gm_store m) i
         \<and> entered_count (gm_guards (fst (grant_step m (Enter i event right notify)))) i
             = entered_count (gm_guards m) i + 1"
    if out: "snd (grant_step m (Enter i event right notify)) = Entered (Ok g)"
  proof -
    have h: "handle (gm_store m) i" using out by (auto split: if_splits)
    obtain s q where run: "enter_mode i event right notify (gm_store m) = (s, q)"
      by (cases "enter_mode i event right notify (gm_store m)")
    from gu h run show ?thesis
    proof (cases rule: enter_mode_cases)
      case (entered v)
      then show ?thesis using run h by (simp add: grant_check_def entered_count_def split: if_splits)
    qed (use out run h in simp)
  qed
  ultimately show ?thesis by blast
qed

theorem active_count_exact_witness:
  "unat (gn_state (node (gm_store example_machine) 1) AND ACTIVE_COUNT) = 1"
proof -
  have "1 < length (gr_nodes (gm_store example_machine))" by (simp add: example_machine_def)
  moreover have "entered_count (gm_guards example_machine) 1 = 1"
    by (simp add: example_machine_def entered_count_def)
  ultimately show ?thesis using active_count_exact [OF example_machine_reachable, of 1] by metis
qed

end
