(* ===== verification/Hiway_Dynamic_Stream.thy ===== *)
theory Hiway_Dynamic_Stream
  imports Hiway_Stream Hiway_Grant_Properties
begin

text \<open>
  One retained stream of \<open>hiway/src/alloc_local.rs\<close>: \<open>State\<close>, \<open>Stream\<close> with its guard,
  maintenance and waiters, and the sending and receiving halves. Every retained entry holds a
  lease on its publisher's grant, so each operation acts on the stream and on the grant store
  together (a \<open>scene\<close>). Other threads holding the state lock appear as the outcomes of the
  coming \<open>Mutex::try_lock\<close> calls in \<open>dt_busy\<close>, \<open>True\<close> for \<open>WouldBlock\<close>; everything else an
  operation does happens in one piece. What is sent to \<open>Notify\<close> is recorded in the grant
  store's notices. Sequences are the code's \<open>u64\<close> counters with their checked increments.
\<close>

subsection \<open>State\<close>

record stream_config =
  cf_capacity :: nat
  cf_subscribers :: nat
  cf_waiters :: nat

definition stream_config_default :: stream_config where
  "stream_config_default = \<lparr>cf_capacity = 64, cf_subscribers = 16, cf_waiters = 32\<rparr>"

text \<open>An event declaration together with the identity of its payload type, which \<open>downcast\<close>
  compares. Payloads of all types are values of one type here.\<close>

record dynamic_spec = event_spec +
  PAYLOAD :: nat

record 't entry =
  en_sequence :: nat
  en_value :: 't
  en_lease :: lease

record cursor_key =
  ck_index :: nat
  ck_id :: nat

record dyn_cursor =
  dc_id :: nat
  dc_next :: nat
  dc_role :: subscription_role
  dc_grant :: nat

record 't dynamic_state =
  dy_entries :: "'t entry list"
  dy_subscribers :: "dyn_cursor option list"
  dy_tail :: nat
  dy_next_cursor :: nat
  dy_closed :: bool
  dy_needs_room :: bool
  dy_retired :: "'t entry option"

record 't dynamic_stream =
  dt_config :: stream_config
  dt_wire_major :: u16
  dt_delivery :: delivery
  dt_payload :: nat
  dt_state :: "'t dynamic_state"
  dt_changed :: nat
  dt_contended :: bool
  dt_deferred :: bool
  dt_waiters :: nat
  dt_allocation :: lease
  dt_busy :: "bool list"

type_synonym 't scene = "grants \<times> 't dynamic_stream"

definition required_needs :: "grants \<Rightarrow> 't dynamic_state \<Rightarrow> nat \<Rightarrow> bool" where
  "required_needs g st sequence =
     list_ex (\<lambda>c. case c of None \<Rightarrow> False
        | Some cursor \<Rightarrow> dc_role cursor = Required \<and> dc_next cursor \<le> sequence
            \<and> \<not> is_revoked g (dc_grant cursor)) (dy_subscribers st)"

definition consumed :: "grants \<Rightarrow> 't dynamic_state \<Rightarrow> nat \<Rightarrow> bool" where
  "consumed g st sequence =
     list_all (\<lambda>c. case c of None \<Rightarrow> True
        | Some cursor \<Rightarrow> sequence < dc_next cursor \<or> is_revoked g (dc_grant cursor)) (dy_subscribers st)"

text \<open>\<open>entries.front().is_some_and(p)\<close> and \<open>entries.pop_front()\<close>.\<close>

fun front_is :: "('t entry \<Rightarrow> bool) \<Rightarrow> 't entry list \<Rightarrow> bool" where
  "front_is p [] = False"
| "front_is p (e # es) = p e"

fun pop_front :: "'t entry list \<Rightarrow> 't entry option \<times> 't entry list" where
  "pop_front [] = (None, [])"
| "pop_front (e # es) = (Some e, es)"

abbreviation with_state :: "('t dynamic_state \<Rightarrow> 't dynamic_state) \<Rightarrow> 't dynamic_stream \<Rightarrow> 't dynamic_stream" where
  "with_state f s \<equiv> s\<lparr>dt_state := f (dt_state s)\<rparr>"

subsection \<open>The lock and its guard\<close>

fun next_attempt :: "bool list \<Rightarrow> bool \<times> bool list" where
  "next_attempt [] = (False, [])"
| "next_attempt (b # bs) = (b, bs)"

text \<open>\<open>Stream::try_lock\<close>: whether the guard was acquired. A refused first attempt leaves its mark
  before the second.\<close>

definition dynamic_try_lock :: "'t dynamic_stream \<Rightarrow> 't dynamic_stream \<times> bool" where
  "dynamic_try_lock s =
     (case next_attempt (dt_busy s) of
        (False, rest) \<Rightarrow> (s\<lparr>dt_busy := rest\<rparr>, True)
      | (True, rest) \<Rightarrow>
          (case next_attempt rest of
             (busy, rest) \<Rightarrow> (s\<lparr>dt_contended := True, dt_busy := rest\<rparr>, \<not> busy)))"

text \<open>\<open>StateGuard::drop\<close>, for a guard with these flags.\<close>

fun drop_guard :: "bool \<Rightarrow> bool \<Rightarrow> 't scene \<Rightarrow> 't scene" where
  "drop_guard notify dirty (g, s) =
     (let dirty = dt_contended s \<or> dirty;
          s = s\<lparr>dt_contended := False\<rparr>
      in if \<not> notify then (g, if dirty then s\<lparr>dt_deferred := True\<rparr> else s)
         else (if dt_deferred s \<or> dirty then emit [Stream_changed (dt_changed s)] g else g,
               s\<lparr>dt_deferred := False\<rparr>))"

text \<open>Dropping a removed entry returns its lease.\<close>

fun drop_entry :: "'t entry option \<Rightarrow> grants \<Rightarrow> grants" where
  "drop_entry None g = g"
| "drop_entry (Some e) g = drop_lease (en_lease e) g"

subsection \<open>Maintenance\<close>

fun retire_loop :: "nat \<Rightarrow> 't scene \<Rightarrow> 't scene" where
  "retire_loop 0 gs = gs"
| "retire_loop (Suc n) (g, s) =
     (case dynamic_try_lock s of
        (s, False) \<Rightarrow> (g, s)
      | (s, True) \<Rightarrow>
          if \<not> front_is (\<lambda>e. consumed g (dt_state s) (en_sequence e)) (dy_entries (dt_state s))
          then drop_guard True False (g, s)
          else (case pop_front (dy_entries (dt_state s)) of
                  (retired, es) \<Rightarrow>
                    (case drop_guard True True (g, with_state (dy_entries_update (\<lambda>_. es)) s) of
                       (g, s) \<Rightarrow> retire_loop n (drop_entry retired g, s))))"

fun retire_consumed :: "'t scene \<Rightarrow> 't scene" where
  "retire_consumed (g, s) =
     (if dt_delivery s = Latest then (g, s) else retire_loop (cf_capacity (dt_config s)) (g, s))"

text \<open>The three blocks of \<open>Stream::maintain\<close>.\<close>

fun maintain_retired :: "'t scene \<Rightarrow> 't scene" where
  "maintain_retired (g, s) =
     (if dt_delivery s = Latest
      then (case dynamic_try_lock s of
              (s, False) \<Rightarrow> (g, s)
            | (s, True) \<Rightarrow>
                (let retired = dy_retired (dt_state s) in
                 case drop_guard True (retired \<noteq> None) (g, with_state (dy_retired_update (\<lambda>_. None)) s) of
                   (g, s) \<Rightarrow> (drop_entry retired g, s)))
      else (g, s))"

fun maintain_room :: "'t scene \<Rightarrow> 't scene" where
  "maintain_room (g, s) =
     (case dynamic_try_lock s of
        (s, False) \<Rightarrow> (g, s)
      | (s, True) \<Rightarrow>
          (let st = dt_state s in
           if dy_needs_room st \<and> length (dy_entries st) = cf_capacity (dt_config s)
              \<and> front_is (\<lambda>e. \<not> required_needs g st (en_sequence e)) (dy_entries st)
           then (case pop_front (dy_entries st) of
                   (retired, es) \<Rightarrow>
                     (case drop_guard True True
                         (g, s\<lparr>dt_state := st\<lparr>dy_needs_room := False, dy_entries := es\<rparr>\<rparr>) of
                        (g, s) \<Rightarrow> (drop_entry retired g, s)))
           else drop_guard True False (g, s\<lparr>dt_state := st\<lparr>dy_needs_room := False\<rparr>\<rparr>)))"

fun maintain_wakeups :: "'t scene \<Rightarrow> 't scene" where
  "maintain_wakeups (g, s) =
     (if dt_deferred s then emit [Stream_changed (dt_changed s)] g else g, s\<lparr>dt_deferred := False\<rparr>)"

definition dynamic_maintain :: "'t scene \<Rightarrow> 't scene" where
  "dynamic_maintain gs = maintain_wakeups (maintain_room (retire_consumed (maintain_retired gs)))"

subsection \<open>Waiters\<close>

fun dynamic_waiter :: "nat \<Rightarrow> event_id \<Rightarrow> 't scene \<Rightarrow> 't scene \<times> (lease, topic_error) result" where
  "dynamic_waiter i event (g, s) =
     (case try_charge_stream i event (stream_limits_ZERO\<lparr>sl_waiters := 1\<rparr>) g of
        (g, Err e) \<Rightarrow> ((g, s), Err e)
      | (g, Ok lease) \<Rightarrow>
          if dt_waiters s < cf_waiters (dt_config s)
          then ((g, s\<lparr>dt_waiters := dt_waiters s + 1\<rparr>), Ok lease)
          else ((drop_lease lease g, s), Err TopicError_Capacity))"

fun drop_waiter :: "lease \<Rightarrow> 't scene \<Rightarrow> 't scene" where
  "drop_waiter lease (g, s) = (drop_lease lease g, s\<lparr>dt_waiters := fetch_sub (dt_waiters s) 1\<rparr>)"

subsection \<open>Publication\<close>

text \<open>How a publisher reads the errors of \<open>enter\<close>.\<close>

fun send_refusal :: "topic_error \<Rightarrow> 'v \<Rightarrow> 'v try_send_error" where
  "send_refusal TopicError_Contended v = TrySend_Contended v"
| "send_refusal TopicError_Capacity v = TrySend_Contended v"
| "send_refusal _ v = TrySend_Revoked v"

text \<open>The first block of the loop of \<open>reserve\<close>: why admission is impossible now.\<close>

definition reserve_refusal :: "grants \<Rightarrow> 't dynamic_stream \<Rightarrow> 't \<Rightarrow> 't try_send_error option" where
  "reserve_refusal g s v =
     (let st = dt_state s in
      if dy_closed st then Some (TrySend_Closed v)
      else if dy_tail st = u64_max then Some (TrySend_SequenceExhausted v)
      else if length (dy_entries st) = cf_capacity (dt_config s)
              \<and> front_is (\<lambda>e. required_needs g st (en_sequence e)) (dy_entries st)
      then Some (TrySend_Full v)
      else None)"

text \<open>The block that makes room in the publisher's own allowance: its oldest retained entry
  decides whether the front may go. A refusal or the removed entry.\<close>

definition reclaim_own :: "nat \<Rightarrow> 't \<Rightarrow> 't scene \<Rightarrow> 't scene \<times> ('t entry option, 't try_send_error) result" where
  "reclaim_own i v gs = (case gs of (g, s) \<Rightarrow>
     (case dynamic_try_lock s of
        (s, False) \<Rightarrow> ((g, s), Err (TrySend_Contended v))
      | (s, True) \<Rightarrow>
          (let st = dt_state s in
           if dy_closed st then (drop_guard True False (g, s), Err (TrySend_Closed v))
           else if (case find (\<lambda>e. ls_node (en_lease e) = i) (dy_entries st) of
                      None \<Rightarrow> True | Some e \<Rightarrow> required_needs g st (en_sequence e))
           then (drop_guard True False (g, s), Err (TrySend_Full v))
           else (case pop_front (dy_entries st) of
                   (retired, es) \<Rightarrow>
                     (drop_guard True True (g, s\<lparr>dt_state := st\<lparr>dy_entries := es\<rparr>\<rparr>), Ok retired)))))"

fun reserve_loop :: "nat \<Rightarrow> nat \<Rightarrow> event_id \<Rightarrow> 't \<Rightarrow> 't scene
    \<Rightarrow> 't scene \<times> ('t \<times> lease, 't try_send_error) result" where
  "reserve_loop 0 i event v gs = (gs, Err (TrySend_Full v))"
| "reserve_loop (Suc n) i event v (g, s) =
     (if is_revoked g i then ((g, s), Err (TrySend_Revoked v))
      else (case dynamic_try_lock s of
              (s, False) \<Rightarrow> ((g, s), Err (TrySend_Contended v))
            | (s, True) \<Rightarrow>
               (case (reserve_refusal g s v, drop_guard True False (g, s)) of
                  (Some e, gs) \<Rightarrow> (gs, Err e)
                | (None, g, s) \<Rightarrow>
                   (case try_charge_stream i event (stream_limits_ZERO\<lparr>sl_retained_items := 1\<rparr>) g of
                      (g, Ok lease) \<Rightarrow> ((g, s), Ok (v, lease))
                    | (g, Err e) \<Rightarrow>
                        if e = TopicError_Revoked then ((g, s), Err (TrySend_Revoked v))
                        else if dt_delivery s = Latest then ((g, s), Err (TrySend_Full v))
                        else (case reclaim_own i v (g, s) of
                                (gs, Err e) \<Rightarrow> (gs, Err e)
                              | ((g, s), Ok retired) \<Rightarrow>
                                  reserve_loop n i event v (drop_entry retired g, s))))))"

fun dynamic_reserve :: "nat \<Rightarrow> event_id \<Rightarrow> 't \<Rightarrow> 't scene
    \<Rightarrow> 't scene \<times> ('t \<times> lease, 't try_send_error) result" where
  "dynamic_reserve i event v (g, s) =
     (case enter_mode i event Rights_PUBLISH True g of
        (g, Err e) \<Rightarrow> ((g, s), Err (send_refusal e v))
      | (g, Ok operation) \<Rightarrow>
          (let g = drop_operation operation g;
               gs = (if dt_delivery s = Latest then dynamic_maintain (g, s) else (g, s))
           in reserve_loop (cf_capacity (dt_config s) + 1) i event v gs))"

text \<open>The locked part of \<open>commit\<close>: the state it leaves, whether it is dirty, and the refusal or
  the entry to drop.\<close>

definition commit_state :: "grants \<Rightarrow> stream_config \<Rightarrow> delivery \<Rightarrow> bool \<Rightarrow> 't \<Rightarrow> lease
    \<Rightarrow> 't dynamic_state \<Rightarrow> 't dynamic_state \<times> bool \<times> ('t entry option, ('t \<times> lease) try_send_error) result" where
  "commit_state g config d deferred v lease st =
     (if dy_closed st then (st, False, Err (TrySend_Closed (v, lease)))
      else
       (let sequence = dy_tail st in
        case checked_add u64_max sequence 1 of
          None \<Rightarrow> (st, False, Err (TrySend_SequenceExhausted (v, lease)))
        | Some nxt \<Rightarrow>
           (let push = (\<lambda>st. st\<lparr>dy_entries := dy_entries st
                  @ [\<lparr>en_sequence = sequence, en_value = v, en_lease = lease\<rparr>], dy_tail := nxt\<rparr>) in
            if length (dy_entries st) = cf_capacity config
            then (if front_is (\<lambda>e. required_needs g st (en_sequence e)) (dy_entries st)
                  then (st, False, Err (TrySend_Full (v, lease)))
                  else (case pop_front (dy_entries st) of
                    (retired, es) \<Rightarrow>
                      if deferred
                      then (if d = Latest
                            then (if dy_retired st \<noteq> None
                                  then (st, False, Err (TrySend_MaintenanceRequired (v, lease)))
                                  else (push (st\<lparr>dy_retired := retired, dy_entries := es\<rparr>), True, Ok None))
                            else (st\<lparr>dy_needs_room := True\<rparr>, False,
                                  Err (TrySend_MaintenanceRequired (v, lease))))
                      else (push (st\<lparr>dy_entries := es\<rparr>), True, Ok retired)))
            else (push st, True, Ok None))))"

fun dynamic_commit :: "nat \<Rightarrow> event_id \<Rightarrow> 't \<Rightarrow> lease \<Rightarrow> bool \<Rightarrow> 't scene
    \<Rightarrow> 't scene \<times> (unit, ('t \<times> lease) try_send_error) result" where
  "dynamic_commit i event v lease deferred (g, s) =
     (case enter_mode i event Rights_PUBLISH (\<not> deferred) g of
        (g, Err e) \<Rightarrow> ((g, s), Err (send_refusal e (v, lease)))
      | (g, Ok operation) \<Rightarrow>
          (case dynamic_try_lock s of
             (s, False) \<Rightarrow> ((drop_operation operation g, s), Err (TrySend_Contended (v, lease)))
           | (s, True) \<Rightarrow>
               (case commit_state g (dt_config s) (dt_delivery s) deferred v lease (dt_state s) of
                  (st, dirty, r) \<Rightarrow>
                    (case drop_guard (\<not> deferred) dirty (g, s\<lparr>dt_state := st\<rparr>) of
                       (g, s) \<Rightarrow>
                         (let g = drop_operation operation g in
                          case r of
                            Err e \<Rightarrow> ((g, s), Err e)
                          | Ok retired \<Rightarrow> ((drop_entry retired g, s), Ok ()))))))"

definition dynamic_send_now :: "nat \<Rightarrow> event_id \<Rightarrow> 't \<Rightarrow> 't scene \<Rightarrow> 't scene \<times> (unit, 't try_send_error) result" where
  "dynamic_send_now i event v gs =
     (case dynamic_reserve i event v gs of
        (gs, Err e) \<Rightarrow> (gs, Err e)
      | (gs, Ok (v, lease)) \<Rightarrow>
          (case dynamic_commit i event v lease False gs of
             (gs, Ok _) \<Rightarrow> (gs, Ok ())
           | ((g, s), Err e) \<Rightarrow>
               ((drop_lease (snd (try_send_into_inner e)) g, s), Err (try_send_map fst e))))"

subsection \<open>Reception\<close>

fun receive_refusal :: "topic_error \<Rightarrow> receive_error" where
  "receive_refusal TopicError_Contended = ReceiveError_Contended"
| "receive_refusal TopicError_Capacity = ReceiveError_Contended"
| "receive_refusal _ = ReceiveError_Closed CloseReason_Revoked"

text \<open>The cursor a key still owns.\<close>

definition owned_cursor :: "'t dynamic_state \<Rightarrow> cursor_key \<Rightarrow> dyn_cursor option" where
  "owned_cursor st key =
     (case dy_subscribers st ! ck_index key of
        None \<Rightarrow> None
      | Some cursor \<Rightarrow> if dc_id cursor = ck_id key then Some cursor else None)"

definition set_next :: "cursor_key \<Rightarrow> dyn_cursor \<Rightarrow> nat \<Rightarrow> 't dynamic_state \<Rightarrow> 't dynamic_state" where
  "set_next key cursor n st =
     st\<lparr>dy_subscribers := (dy_subscribers st)[ck_index key := Some (cursor\<lparr>dc_next := n\<rparr>)]\<rparr>"

text \<open>The locked part of \<open>try_recv\<close>.\<close>

definition receive_state :: "delivery \<Rightarrow> cursor_key \<Rightarrow> 't dynamic_state
    \<Rightarrow> 't dynamic_state \<times> bool \<times> ('t stream_item option, receive_error) result" where
  "receive_state d key st =
     (if dy_closed st then (st, False, Err (ReceiveError_Closed CloseReason_Closed))
      else
       (case owned_cursor st key of
          None \<Rightarrow> (st, False, Err (ReceiveError_Closed CloseReason_Closed))
        | Some cursor \<Rightarrow>
           (let nxt = (if d = Latest then max (dc_next cursor) (dy_tail st - 1) else dc_next cursor);
                head = (case dy_entries st of [] \<Rightarrow> dy_tail st | e # _ \<Rightarrow> en_sequence e)
            in if nxt < head then (set_next key cursor head st, True, Ok (Some (Gap nxt head)))
               else if nxt < dy_tail st
               then (let e = dy_entries st ! (nxt - head)
                     in (set_next key cursor (nxt + 1) st, True, Ok (Some (Data nxt (en_value e)))))
               else (st, False, Ok None))))"

fun dynamic_try_recv :: "nat \<Rightarrow> event_id \<Rightarrow> cursor_key \<Rightarrow> 't scene
    \<Rightarrow> 't scene \<times> ('t stream_item option, receive_error) result" where
  "dynamic_try_recv i event key (g, s) =
     (case enter_mode i event Rights_OBSERVE False g of
        (g, Err e) \<Rightarrow> ((g, s), Err (receive_refusal e))
      | (g, Ok operation) \<Rightarrow>
          (case dynamic_try_lock s of
             (s, False) \<Rightarrow> ((drop_operation operation g, s), Err ReceiveError_Contended)
           | (s, True) \<Rightarrow>
               (case receive_state (dt_delivery s) key (dt_state s) of
                  (st, dirty, r) \<Rightarrow>
                    (case drop_guard False dirty (g, s\<lparr>dt_state := st\<rparr>) of
                       (g, s) \<Rightarrow> ((drop_operation operation g, s), r)))))"

definition dynamic_recv_now :: "nat \<Rightarrow> event_id \<Rightarrow> cursor_key \<Rightarrow> 't scene
    \<Rightarrow> 't scene \<times> ('t stream_item option, receive_error) result" where
  "dynamic_recv_now i event key gs =
     (case dynamic_try_recv i event key gs of
        (gs, item) \<Rightarrow>
          (case dynamic_maintain gs of (g, s) \<Rightarrow> ((maintain_operations i g, s), item)))"

subsection \<open>Subscriptions\<close>

text \<open>The locked part of \<open>Grant::subscribe\<close>.\<close>

definition subscribe_state :: "delivery \<Rightarrow> subscription_role \<Rightarrow> nat \<Rightarrow> 't dynamic_state
    \<Rightarrow> 't dynamic_state \<times> bool \<times> (cursor_key, topic_error) result" where
  "subscribe_state d role i st =
     (if dy_closed st then (st, False, Err TopicError_Denied)
      else
       (case position_none (dy_subscribers st) of
          None \<Rightarrow> (st, False, Err TopicError_Capacity)
        | Some index \<Rightarrow>
           (let id = dy_next_cursor st in
            case checked_add u64_max id 1 of
              None \<Rightarrow> (st, False, Err TopicError_Capacity)
            | Some next_id \<Rightarrow>
               (let nxt = (if d = Latest then dy_tail st - 1 else dy_tail st)
                in (st\<lparr>dy_next_cursor := next_id,
                       dy_subscribers := (dy_subscribers st)[index :=
                         Some \<lparr>dc_id = id, dc_next = nxt, dc_role = role, dc_grant = i\<rparr>]\<rparr>,
                    True, Ok \<lparr>ck_index = index, ck_id = id\<rparr>)))))"

definition role_rights :: "subscription_role \<Rightarrow> rights" where
  "role_rights role = (case role of Observer \<Rightarrow> Rights_OBSERVE
     | Required \<Rightarrow> rights_union Rights_OBSERVE Rights_REQUIRED)"

text \<open>\<open>subscribe\<close> once the stream has been resolved.\<close>

fun dynamic_subscribe :: "nat \<Rightarrow> event_id \<Rightarrow> subscription_role \<Rightarrow> 't scene
    \<Rightarrow> 't scene \<times> (cursor_key \<times> lease, topic_error) result" where
  "dynamic_subscribe i event role (g, s) =
     (case try_charge_stream i event (stream_limits_ZERO\<lparr>sl_subscriptions := 1\<rparr>) g of
        (g, Err e) \<Rightarrow> ((g, s), Err e)
      | (g, Ok lease) \<Rightarrow>
         (case enter_mode i event (role_rights role) True g of
            (g, Err e) \<Rightarrow> ((drop_lease lease g, s), Err e)
          | (g, Ok operation) \<Rightarrow>
             (case subscribe_state (dt_delivery s) role i (dt_state s) of
                (st, dirty, r) \<Rightarrow>
                  (case drop_guard True dirty (g, s\<lparr>dt_state := st\<rparr>) of
                     (g, s) \<Rightarrow>
                       (let g = drop_operation operation g in
                        case r of
                          Err e \<Rightarrow> ((drop_lease lease g, s), Err e)
                        | Ok key \<Rightarrow> ((g, s), Ok (key, lease)))))))"

text \<open>\<open>ReceiverInner::drop\<close>, and the drop of its lease.\<close>

fun drop_receiver :: "cursor_key \<Rightarrow> lease \<Rightarrow> 't scene \<Rightarrow> 't scene" where
  "drop_receiver key lease (g, s) =
     (let st = dt_state s;
          st = (if ck_index key < length (dy_subscribers st)
                then st\<lparr>dy_subscribers := (dy_subscribers st)[ck_index key := None]\<rparr> else st)
      in case retire_consumed (drop_guard True True (g, s\<lparr>dt_state := st\<rparr>)) of
           (g, s) \<Rightarrow> (drop_lease lease g, s))"

text \<open>\<open>close_stream\<close> once the stream has been resolved.\<close>

fun dynamic_close :: "'t scene \<Rightarrow> 't scene" where
  "dynamic_close (g, s) =
     (let st = dt_state s in
      case drop_guard True True (g, s\<lparr>dt_state := st\<lparr>dy_closed := True, dy_entries := [],
             dy_subscribers := [], dy_retired := None\<rparr>\<rparr>) of
        (g, s) \<Rightarrow> (drop_entry (dy_retired st) (drop_leases (map en_lease (dy_entries st)) g), s))"

end
