(* ===== verification/Hiway_Dynamic_Invariant.thy ===== *)
theory Hiway_Dynamic_Invariant
  imports Hiway_Dynamic_Stream
begin

text \<open>
  The invariants of a dynamic stream and their preservation by every operation of
  \<open>Hiway_Dynamic_Stream\<close>: the retained entries are a window of everything ever admitted that
  ends at the tail, no required subscriber with authority has lost an entry, and every lease the
  stream holds is accounted for in the grant tree.
\<close>

subsection \<open>Invariants\<close>

definition window :: "nat \<Rightarrow> 't dynamic_state \<Rightarrow> 't list \<Rightarrow> bool" where
  "window cap st xs \<longleftrightarrow>
     length xs = dy_tail st \<and> dy_tail st \<le> u64_max \<and> length (dy_entries st) \<le> min cap (dy_tail st)
     \<and> (\<forall>i < length (dy_entries st).
          en_sequence (dy_entries st ! i) = dy_tail st - length (dy_entries st) + i
          \<and> en_value (dy_entries st ! i) = xs ! (dy_tail st - length (dy_entries st) + i))
     \<and> (dy_closed st \<longrightarrow> dy_entries st = [] \<and> dy_subscribers st = [])"

definition cursor_fits :: "grants \<Rightarrow> delivery \<Rightarrow> 't dynamic_state \<Rightarrow> dyn_cursor \<Rightarrow> bool" where
  "cursor_fits g d st c \<longleftrightarrow>
     dc_next c \<le> dy_tail st \<and> dc_id c < dy_next_cursor st \<and> dc_grant c < length (gr_nodes g)
     \<and> (dc_role c = Required \<longrightarrow> d = Ordered
          \<and> (\<not> is_revoked g (dc_grant c) \<longrightarrow> dy_tail st \<le> dc_next c + length (dy_entries st)))"

definition stream_good :: "grants \<Rightarrow> 't dynamic_stream \<Rightarrow> 't list \<Rightarrow> bool" where
  "stream_good g s xs \<longleftrightarrow>
     0 < cf_capacity (dt_config s) \<and> (dt_delivery s = Latest \<longrightarrow> cf_capacity (dt_config s) = 1)
     \<and> window (cf_capacity (dt_config s)) (dt_state s) xs
     \<and> (\<forall>c. Some c \<in> set (dy_subscribers (dt_state s)) \<longrightarrow> cursor_fits g (dt_delivery s) (dt_state s) c)"

text \<open>The leases a stream holds.\<close>

definition stream_leases :: "'t dynamic_stream \<Rightarrow> lease list" where
  "stream_leases s = dt_allocation s # map en_lease (dy_entries (dt_state s))
     @ (case dy_retired (dt_state s) of None \<Rightarrow> [] | Some e \<Rightarrow> [en_lease e])"

text \<open>The grant store with the leases \<open>M\<close> held outside it and the operations \<open>gs\<close> in flight.\<close>

definition sound :: "operation_guard list \<Rightarrow> grants \<Rightarrow> lease multiset \<Rightarrow> bool" where
  "sound gs g M \<longleftrightarrow> grants_ok g (M + mset (live_leases g)) \<and> guards_ok g gs"

definition scene_ok :: "operation_guard list \<Rightarrow> lease multiset \<Rightarrow> 't list \<Rightarrow> 't scene \<Rightarrow> bool" where
  "scene_ok gs M xs = (\<lambda>(g, s). sound gs g (mset (stream_leases s) + M) \<and> stream_good g s xs)"

lemma machine_ok_sound:
  "machine_ok m \<longleftrightarrow> sound (gm_guards m) (gm_store m) (mset (gm_leases m))"
  by (simp add: machine_ok_def sound_def)

lemma sound_emit [simp]: "sound gs (emit ns g) M = sound gs g M"
  by (simp add: sound_def)

lemma sound_drop_lease: "sound gs g (add_mset l M) \<Longrightarrow> sound gs (drop_lease l g) M"
  unfolding sound_def
  by (simp add: framed_live_leases [OF framed_drop_lease] framed_guards_ok [OF framed_drop_lease]
      grants_ok_drop_lease)

lemma sound_drop_leases: "sound gs g (mset ls + M) \<Longrightarrow> sound gs (drop_leases ls g) M"
  by (induction ls arbitrary: g) (simp_all add: drop_leases_def sound_drop_lease)

lemma sound_lease: "sound gs g M \<Longrightarrow> l \<in># M \<Longrightarrow> handle g (ls_node l)"
  by (auto simp: sound_def grants_ok_def lease_ok_def handle_def)

text \<open>Charging, entering and leaving, over \<open>sound\<close>.\<close>

lemma try_charge_stream_sound:
  assumes "sound gs g M" and "handle g i" and run: "try_charge_stream i event usage g = (g', r)"
  obtains (charged) l where "r = Ok l" "ls_node l = i" "ls_usage l = as_limits usage" "sound gs g' (add_mset l M)"
      "framed g g'" "\<not> is_revoked g i"
    | (refused) e ns where "r = Err e" "g' = emit ns g"
proof (cases "event_index (node g i) event")
  case (Ok k)
  have g: "grants_ok g (M + mset (live_leases g))" and gu: "guards_ok g gs" using assms(1) by (auto simp: sound_def)
  note h = handle_range [OF assms(2)]
  have "grant_charge i (Some k) (as_limits usage) g = (g', r)" using run Ok by (simp add: try_charge_stream_def)
  from g conjunct1 [OF h] conjunct2 [OF h] event_index_valid [OF Ok] this show thesis
  proof (cases rule: grant_charge_cases)
    case (charged l)
    have "sound gs g' (add_mset l M)"
      using charged(3) gu by (simp add: sound_def framed_live_leases [OF charged(4)] framed_guards_ok [OF charged(4)])
    then show thesis using that(1) charged by simp
  next
    case revoked
    then show thesis using that(2) emit_Nil by metis
  next
    case (refused k ns)
    then show thesis using that(2) by blast
  qed
next
  case (Err e)
  then show thesis using that(2) run emit_Nil by (metis try_charge_stream_def prod.inject result.simps(6))
qed

lemma revoked_walk_marks:
  assumes "\<And>j. gn_state (node t j) AND REVOKED = 0 \<longleftrightarrow> gn_state (node s j) AND REVOKED = 0"
    and "\<And>j. gn_parent_reservation (node t j) = gn_parent_reservation (node s j)"
  shows "revoked_walk fuel t i = revoked_walk fuel s i"
  by (induction fuel arbitrary: i) (simp_all add: assms split: option.split)

lemma enter_mode_sound:
  assumes "sound gs g M" and "handle g i" and run: "enter_mode i event right notify g = (g', r)"
  obtains (entered) op where "r = Ok op" "\<And>ns. \<exists>ms. drop_operation op (emit ns g') = emit ms g"
      "\<not> is_revoked g i" "\<And>j. is_revoked g' j = is_revoked g j" "grant_check g i event right = Ok ()"
    | (refused) e where "r = Err e" "g' = g"
proof -
  have gu: "guards_ok g gs" using assms(1) by (simp add: sound_def)
  from gu assms(2) run show thesis
  proof (cases rule: enter_mode_cases)
    case (entered w)
    let ?g = "update_node i (\<lambda>n. n\<lparr>gn_state := w\<rparr>) g"
    let ?op = "\<lparr>og_node = i, og_notify = notify\<rparr>"
    have st: "gn_state (node ?g i) = w" using assms(2) by (simp add: handle_def node_update_node)
    have leave: "drop_operation ?op ?g = g" by (rule guards_ok_enter(2) [OF gu assms(2) entered(3)])
    have "\<exists>ms. drop_operation ?op (emit ns ?g) = emit ms g" for ns
    proof -
      obtain ks where ks: "drop_operation ?op (emit ns ?g)
          = emit ks (update_node i (\<lambda>n. n\<lparr>gn_state := gn_state (node (emit ns ?g) i) - 1\<rparr>) (emit ns ?g))"
        using drop_operation_exec [of ?op "emit ns ?g"] by auto
      obtain ls where ls: "g = emit ls (update_node i (\<lambda>n. n\<lparr>gn_state := gn_state (node ?g i) - 1\<rparr>) ?g)"
        using drop_operation_exec [of ?op ?g] leave by auto
      have "gr_nodes g = gr_nodes (update_node i (\<lambda>n. n\<lparr>gn_state := gn_state (node ?g i) - 1\<rparr>) ?g)"
        by (subst ls) simp
      moreover have "gr_nodes (drop_operation ?op (emit ns ?g)) =
          gr_nodes (update_node i (\<lambda>n. n\<lparr>gn_state := gn_state (node ?g i) - 1\<rparr>) ?g)"
        unfolding ks by (simp add: update_node_def emit_def)
      ultimately have "gr_nodes (drop_operation ?op (emit ns ?g)) = gr_nodes g" by simp
      moreover have "gr_alive (drop_operation ?op (emit ns ?g)) = gr_alive g"
        unfolding ks by (simp add: update_node_def emit_def)
      moreover have "gr_notices (drop_operation ?op (emit ns ?g)) = gr_notices g @ ns @ ks"
        unfolding ks by (simp add: update_node_def emit_def)
      ultimately have "drop_operation ?op (emit ns ?g) = emit (ns @ ks) g"
        by (intro grants.equality) (simp_all add: emit_def)
      then show ?thesis by blast
    qed
    moreover have un: "\<not> is_revoked g i" using entered(4) by (auto simp: grant_check_def split: if_splits)
    moreover have "is_revoked ?g j = is_revoked g j" for j
    proof -
      have adv: "gn_state (node g i) AND REVOKED = 0" "w = gn_state (node g i) + 1"
        using entered(3) by (auto simp: advance_def split: if_splits)
      obtain r where r: "gn_state (node g i) = state_word r (entered_count gs i)" "entered_count gs i < 2 ^ 63"
        using gu assms(2) by (auto simp: guards_ok_def handle_def)
      have "w AND REVOKED = 0"
        using r adv entered(3) state_word_revoked [of "entered_count gs i + 1" False]
          advance_state_word [OF r(2), of r] by (auto split: if_splits)
      then show ?thesis using adv(1)
        unfolding is_revoked_def length_update_node
        by (intro revoked_walk_marks) (auto simp: node_update_node)
    qed
    ultimately show thesis using that(1) [of ?op] entered(1,2,4) by simp
  qed (use that(2) in blast)
qed


subsection \<open>Locks, guards and dropped entries\<close>

lemma try_lock_exec:
  "dynamic_try_lock s = (s', b) \<Longrightarrow> s' = s\<lparr>dt_contended := dt_contended s', dt_busy := dt_busy s'\<rparr>"
  by (cases s) (auto simp: dynamic_try_lock_def split: prod.splits bool.splits)

lemma drop_guard_eq:
  "drop_guard n b (g, s) =
     (emit (if n \<and> (dt_deferred s \<or> dt_contended s \<or> b) then [Stream_changed (dt_changed s)] else []) g,
      s\<lparr>dt_contended := False, dt_deferred := \<not> n \<and> (dt_deferred s \<or> dt_contended s \<or> b)\<rparr>)"
  by (cases s) (auto simp: Let_def)

lemma drop_guard_exec: "\<exists>ns c d. drop_guard n b (g, s) = (emit ns g, s\<lparr>dt_contended := c, dt_deferred := d\<rparr>)"
  unfolding drop_guard_eq by blast

declare drop_guard.simps [simp del]

lemma stream_good_simps [simp]:
  "stream_good (emit ns g) s xs = stream_good g s xs"
  "stream_good g (s\<lparr>dt_contended := c\<rparr>) xs = stream_good g s xs"
  "stream_good g (s\<lparr>dt_deferred := c\<rparr>) xs = stream_good g s xs"
  "stream_good g (s\<lparr>dt_busy := bs\<rparr>) xs = stream_good g s xs"
  "stream_good g (s\<lparr>dt_waiters := w\<rparr>) xs = stream_good g s xs"
  by (simp_all add: stream_good_def cursor_fits_def)

lemma stream_leases_simps [simp]:
  "stream_leases (s\<lparr>dt_contended := c\<rparr>) = stream_leases s"
  "stream_leases (s\<lparr>dt_deferred := c\<rparr>) = stream_leases s"
  "stream_leases (s\<lparr>dt_busy := bs\<rparr>) = stream_leases s"
  "stream_leases (s\<lparr>dt_waiters := w\<rparr>) = stream_leases s"
  by (simp_all add: stream_leases_def)

lemma scene_ok_simps [simp]:
  "scene_ok gs M xs (emit ns g, s) = scene_ok gs M xs (g, s)"
  "scene_ok gs M xs (g, s\<lparr>dt_contended := c\<rparr>) = scene_ok gs M xs (g, s)"
  "scene_ok gs M xs (g, s\<lparr>dt_deferred := c\<rparr>) = scene_ok gs M xs (g, s)"
  "scene_ok gs M xs (g, s\<lparr>dt_busy := bs\<rparr>) = scene_ok gs M xs (g, s)"
  "scene_ok gs M xs (g, s\<lparr>dt_waiters := w\<rparr>) = scene_ok gs M xs (g, s)"
  by (simp_all add: scene_ok_def)

lemma stream_good_framed: "framed g g' \<Longrightarrow> stream_good g' s xs = stream_good g s xs"
  by (simp add: stream_good_def cursor_fits_def framed_is_revoked framedD(1))

lemma scene_ok_release:
  assumes "scene_ok gs (add_mset l M) xs (g, s)"
  shows "scene_ok gs M xs (drop_lease l g, s)"
  using assms by (simp add: scene_ok_def sound_drop_lease stream_good_framed [OF framed_drop_lease])

text \<open>What stays as it is while a stream is only trimmed at its front.\<close>

definition fixed_part :: "'t dynamic_stream \<Rightarrow> _" where
  "fixed_part s = (dt_config s, dt_wire_major s, dt_delivery s, dt_payload s, dt_changed s,
     dt_allocation s, dy_subscribers (dt_state s), dy_tail (dt_state s), dy_next_cursor (dt_state s),
     dy_closed (dt_state s))"

fun trims :: "'t scene \<Rightarrow> 't scene \<Rightarrow> bool" where
  "trims (g, s) (g', s') \<longleftrightarrow>
     framed g g' \<and> fixed_part s' = fixed_part s
     \<and> (\<exists>n. dy_entries (dt_state s') = drop n (dy_entries (dt_state s)))"

lemma fixed_part_simps [simp]:
  "fixed_part (s\<lparr>dt_contended := c\<rparr>) = fixed_part s"
  "fixed_part (s\<lparr>dt_deferred := c\<rparr>) = fixed_part s"
  "fixed_part (s\<lparr>dt_busy := bs\<rparr>) = fixed_part s"
  "fixed_part (s\<lparr>dt_waiters := w\<rparr>) = fixed_part s"
  by (simp_all add: fixed_part_def)

lemma trims_refl [simp]: "trims gs gs"
  by (cases gs) (auto intro: exI [of _ 0])

lemma trims_trans: "trims a b \<Longrightarrow> trims b c \<Longrightarrow> trims a c"
  using framed_trans by (cases a; cases b; cases c) (auto simp: drop_drop)

lemma trims_simps [simp]:
  "trims a (emit ns g, s) = trims a (g, s)"
  "trims a (g, s\<lparr>dt_contended := c\<rparr>) = trims a (g, s)"
  "trims a (g, s\<lparr>dt_deferred := c\<rparr>) = trims a (g, s)"
  "trims a (g, s\<lparr>dt_busy := bs\<rparr>) = trims a (g, s)"
  "trims a (g, s\<lparr>dt_waiters := w\<rparr>) = trims a (g, s)"
  by (cases a; simp)+

lemma trimsI: "framed g g' \<Longrightarrow> fixed_part s' = fixed_part s \<Longrightarrow>
    dy_entries (dt_state s') = drop n (dy_entries (dt_state s)) \<Longrightarrow> trims (g, s) (g', s')"
  by auto

lemma trims_drop_lease: "trims a (g, s) \<Longrightarrow> trims a (drop_lease l g, s)"
  using framed_trans [OF _ framed_drop_lease] by (cases a) auto

declare trims.simps [simp del]

text \<open>Popping an entry no required subscriber with authority needs.\<close>

lemma window_nth: "window cap st xs \<Longrightarrow> i < length (dy_entries st) \<Longrightarrow>
    en_sequence (dy_entries st ! i) = dy_tail st - length (dy_entries st) + i
    \<and> en_value (dy_entries st ! i) = xs ! (dy_tail st - length (dy_entries st) + i)"
  by (simp add: window_def)

lemma window_front: "window cap st xs \<Longrightarrow> dy_entries st = e # es \<Longrightarrow>
    en_sequence e + length es + 1 = dy_tail st"
  using window_nth [of cap st xs 0] by (auto simp: window_def)

lemma window_pop:
  assumes w: "window cap st xs" and e: "dy_entries st = e # es"
    and t: "dy_entries st' = es" "dy_tail st' = dy_tail st" "dy_closed st' = dy_closed st"
      "dy_subscribers st' = dy_subscribers st"
  shows "window cap st' xs"
proof -
  have tail: "dy_tail st = en_sequence e + length es + 1" using window_front [OF w e] by simp
  have "en_sequence (es ! i) = dy_tail st - length es + i \<and> en_value (es ! i) = xs ! (dy_tail st - length es + i)"
    if "i < length es" for i
    using window_nth [OF w, of "Suc i"] that e by (simp add: tail)
  then show ?thesis using w e t by (auto simp: window_def)
qed

lemma required_needsI:
  "Some c \<in> set (dy_subscribers st) \<Longrightarrow> dc_role c = Required \<Longrightarrow> dc_next c \<le> n \<Longrightarrow>
     \<not> is_revoked g (dc_grant c) \<Longrightarrow> required_needs g st n"
  by (force simp: required_needs_def list_ex_iff)

lemma stream_good_pop:
  assumes good: "stream_good g s xs" and e: "dy_entries (dt_state s) = e # es"
    and free: "\<not> required_needs g (dt_state s) (en_sequence e)"
    and t: "dy_entries st' = es" "dy_tail st' = dy_tail (dt_state s)" "dy_closed st' = dy_closed (dt_state s)"
      "dy_subscribers st' = dy_subscribers (dt_state s)" "dy_next_cursor st' = dy_next_cursor (dt_state s)"
  shows "stream_good g (s\<lparr>dt_state := st'\<rparr>) xs"
proof -
  have w: "window (cf_capacity (dt_config s)) (dt_state s) xs" using good by (simp add: stream_good_def)
  have "cursor_fits g (dt_delivery s) st' c" if c: "Some c \<in> set (dy_subscribers (dt_state s))" for c
  proof -
    have "cursor_fits g (dt_delivery s) (dt_state s) c" using good c by (simp add: stream_good_def)
    moreover have "en_sequence e < dc_next c" if "dc_role c = Required" "\<not> is_revoked g (dc_grant c)"
      using required_needsI [OF c that(1) _ that(2)] free not_le by blast
    ultimately show ?thesis using window_front [OF w e] t by (auto simp: cursor_fits_def)
  qed
  then show ?thesis using good window_pop [OF w e t(1-4)] t by (simp add: stream_good_def)
qed

lemma front_dropped:
  assumes ok: "scene_ok gs M xs (g, s)" and e: "dy_entries (dt_state s) = e # es"
    and free: "\<not> required_needs g (dt_state s) (en_sequence e)"
    and t: "dy_entries st' = es" "dy_tail st' = dy_tail (dt_state s)" "dy_closed st' = dy_closed (dt_state s)"
      "dy_subscribers st' = dy_subscribers (dt_state s)" "dy_next_cursor st' = dy_next_cursor (dt_state s)"
      "dy_retired st' = dy_retired (dt_state s)"
    and guard: "drop_guard n b (g, s\<lparr>dt_state := st'\<rparr>) = (g', s')"
  shows "scene_ok gs M xs (drop_lease (en_lease e) g', s')" and "trims (g, s) (drop_lease (en_lease e) g', s')"
    and "dy_entries (dt_state s') = es"
proof -
  obtain ns c d where "drop_guard n b (g, s\<lparr>dt_state := st'\<rparr>)
      = (emit ns g, s\<lparr>dt_state := st'\<rparr>\<lparr>dt_contended := c, dt_deferred := d\<rparr>)"
    using drop_guard_exec by blast
  then have gs': "g' = emit ns g" "s' = s\<lparr>dt_state := st'\<rparr>\<lparr>dt_contended := c, dt_deferred := d\<rparr>"
    using guard by auto
  have "stream_good g (s\<lparr>dt_state := st'\<rparr>) xs"
    using ok stream_good_pop [OF _ e free t(1-5)] by (simp add: scene_ok_def)
  moreover have "mset (stream_leases s) = add_mset (en_lease e) (mset (stream_leases (s\<lparr>dt_state := st'\<rparr>)))"
    using e t by (simp add: stream_leases_def)
  ultimately have "scene_ok gs (add_mset (en_lease e) M) xs (g, s\<lparr>dt_state := st'\<rparr>)"
    using ok by (simp add: scene_ok_def)
  then show "scene_ok gs M xs (drop_lease (en_lease e) g', s')"
    unfolding gs' by (intro scene_ok_release) simp
  have "fixed_part (s\<lparr>dt_state := st'\<rparr>) = fixed_part s" using t by (simp add: fixed_part_def)
  then have "trims (g, s) (g, s\<lparr>dt_state := st'\<rparr>)" using e t by (intro trimsI [of _ _ _ _ 1]) simp_all
  then show "trims (g, s) (drop_lease (en_lease e) g', s')"
    unfolding gs' by (intro trims_drop_lease) simp
  show "dy_entries (dt_state s') = es" using t by (simp add: gs')
qed

subsection \<open>Maintenance keeps the invariant\<close>

lemma consumed_free: "consumed g st n \<Longrightarrow> \<not> required_needs g st n"
  by (fastforce simp: consumed_def required_needs_def list_all_iff list_ex_iff split: option.splits)

lemma front_is_iff: "front_is p es \<longleftrightarrow> (\<exists>e es'. es = e # es' \<and> p e)"
  by (cases es) auto

lemma guard_unchanged:
  assumes "drop_guard n b (g, s) = (g', s')"
  shows "scene_ok gs M xs (g', s') = scene_ok gs M xs (g, s)" and "trims a (g', s') = trims a (g, s)"
    and "dt_state s' = dt_state s" and "\<exists>ns. g' = emit ns g" and "fixed_part s' = fixed_part s"
    and "dt_delivery s' = dt_delivery s" and "dt_config s' = dt_config s" and "stream_leases s' = stream_leases s"
    and "stream_good h s' xs = stream_good h s xs"
  using assms by (auto simp: drop_guard_eq)

lemma lock_unchanged:
  assumes "dynamic_try_lock s = (s', b)"
  shows "scene_ok gs M xs (g, s') = scene_ok gs M xs (g, s)" and "trims a (g, s') = trims a (g, s)"
    and "dt_state s' = dt_state s" and "fixed_part s' = fixed_part s"
    and "dt_delivery s' = dt_delivery s" and "dt_config s' = dt_config s" and "stream_leases s' = stream_leases s"
    and "stream_good h s' xs = stream_good h s xs"
proof -
  obtain c bs where s': "s' = s\<lparr>dt_contended := c, dt_busy := bs\<rparr>" using try_lock_exec [OF assms] by blast
  show "scene_ok gs M xs (g, s') = scene_ok gs M xs (g, s)" "trims a (g, s') = trims a (g, s)"
    "dt_state s' = dt_state s" "fixed_part s' = fixed_part s" "dt_delivery s' = dt_delivery s"
    "dt_config s' = dt_config s" "stream_leases s' = stream_leases s" "stream_good h s' xs = stream_good h s xs"
    by (simp_all add: s')
qed

lemma retire_loop_ok:
  "scene_ok gs M xs (g, s) \<Longrightarrow>
     scene_ok gs M xs (retire_loop n (g, s)) \<and> trims (g, s) (retire_loop n (g, s))"
proof (induction n arbitrary: g s)
  case (Suc n)
  obtain s1 b where l: "dynamic_try_lock s = (s1, b)" by (cases "dynamic_try_lock s")
  note lk = lock_unchanged [OF l]
  show ?case
  proof (cases "b \<and> front_is (\<lambda>e. consumed g (dt_state s1) (en_sequence e)) (dy_entries (dt_state s1))")
    case False
    obtain g2 s2 where dg: "drop_guard True False (g, s1) = (g2, s2)" by (cases "drop_guard True False (g, s1)")
    have "retire_loop (Suc n) (g, s) = (if b then (g2, s2) else (g, s1))"
      using False l dg by (cases b) simp_all
    then show ?thesis using Suc.prems lk guard_unchanged(1,2) [OF dg] by simp
  next
    case True
    then obtain e es where e: "dy_entries (dt_state s1) = e # es" "consumed g (dt_state s1) (en_sequence e)"
      by (auto simp: front_is_iff)
    let ?st = "dt_state s1\<lparr>dy_entries := es\<rparr>"
    obtain g2 s2 where dg: "drop_guard True True (g, s1\<lparr>dt_state := ?st\<rparr>) = (g2, s2)"
      by (cases "drop_guard True True (g, s1\<lparr>dt_state := ?st\<rparr>)")
    have ok: "scene_ok gs M xs (g, s1)" using Suc.prems lk by simp
    have st: "dy_entries ?st = es" "dy_tail ?st = dy_tail (dt_state s1)" "dy_closed ?st = dy_closed (dt_state s1)"
      "dy_subscribers ?st = dy_subscribers (dt_state s1)" "dy_next_cursor ?st = dy_next_cursor (dt_state s1)"
      "dy_retired ?st = dy_retired (dt_state s1)" by simp_all
    note fd = front_dropped [OF ok e(1) consumed_free [OF e(2)] st dg]
    have "trims (g, s) (g, s1)" using lk(2) by simp
    then have "trims (g, s) (drop_lease (en_lease e) g2, s2)"
      using fd(2) by (rule trims_trans)
    moreover have "retire_loop (Suc n) (g, s) = retire_loop n (drop_lease (en_lease e) g2, s2)"
      using True l e dg by simp
    ultimately show ?thesis
      using Suc.IH [OF fd(1)] trims_trans [of "(g, s)" "(drop_lease (en_lease e) g2, s2)"] by simp
  qed
qed simp

lemma retire_consumed_ok:
  "scene_ok gs M xs (g, s) \<Longrightarrow>
     scene_ok gs M xs (retire_consumed (g, s)) \<and> trims (g, s) (retire_consumed (g, s))"
  by (simp add: retire_loop_ok)

lemma maintain_retired_ok:
  assumes "scene_ok gs M xs (g, s)"
  shows "scene_ok gs M xs (maintain_retired (g, s)) \<and> trims (g, s) (maintain_retired (g, s))"
proof -
  obtain s1 b where l: "dynamic_try_lock s = (s1, b)" by (cases "dynamic_try_lock s")
  note lk = lock_unchanged [OF l]
  have ok: "scene_ok gs M xs (g, s1)" using assms lk by simp
  let ?s = "with_state (dy_retired_update (\<lambda>_. None)) s1"
  let ?r = "dy_retired (dt_state s1)"
  obtain g2 s2 where dg: "drop_guard True (?r \<noteq> None) (g, ?s) = (g2, s2)"
    by (cases "drop_guard True (?r \<noteq> None) (g, ?s)")
  have good: "stream_good g ?s xs"
    using ok by (simp add: scene_ok_def stream_good_def window_def cursor_fits_def)
  have "trims (g, s) (g, ?s)" using lk(3,4) by (intro trimsI [of _ _ _ _ 0]) (simp_all add: fixed_part_def)
  then have t: "trims (g, s) (g2, s2)" using guard_unchanged(2) [OF dg] by simp
  have "scene_ok gs M xs (drop_entry ?r g2, s2) \<and> trims (g, s) (drop_entry ?r g2, s2)"
  proof (cases ?r)
    case None
    then have "?s = s1" by (cases s1) simp
    then have "scene_ok gs M xs (g, ?s)" using ok by simp
    then show ?thesis using None guard_unchanged(1) [OF dg] t by simp
  next
    case (Some e)
    have "mset (stream_leases s1) = add_mset (en_lease e) (mset (stream_leases ?s))"
      using Some by (simp add: stream_leases_def)
    then have "scene_ok gs (add_mset (en_lease e) M) xs (g, ?s)"
      using ok good by (simp add: scene_ok_def)
    then show ?thesis using Some t guard_unchanged(1) [OF dg]
      by (simp add: scene_ok_release trims_drop_lease)
  qed
  then show ?thesis using l dg assms lk by (auto split: bool.splits)
qed

lemma maintain_room_ok:
  assumes "scene_ok gs M xs (g, s)"
  shows "scene_ok gs M xs (maintain_room (g, s)) \<and> trims (g, s) (maintain_room (g, s))"
proof -
  obtain s1 b where l: "dynamic_try_lock s = (s1, b)" by (cases "dynamic_try_lock s")
  note lk = lock_unchanged [OF l]
  have ok: "scene_ok gs M xs (g, s1)" using assms lk by simp
  let ?st = "dt_state s1"
  let ?pop = "dy_needs_room ?st \<and> length (dy_entries ?st) = cf_capacity (dt_config s1)
    \<and> front_is (\<lambda>e. \<not> required_needs g ?st (en_sequence e)) (dy_entries ?st)"
  show ?thesis
  proof (cases "b \<and> ?pop")
    case True
    then obtain e es where e: "dy_entries ?st = e # es" "\<not> required_needs g ?st (en_sequence e)"
      by (auto simp: front_is_iff)
    let ?st' = "?st\<lparr>dy_needs_room := False, dy_entries := es\<rparr>"
    obtain g2 s2 where dg: "drop_guard True True (g, s1\<lparr>dt_state := ?st'\<rparr>) = (g2, s2)"
      by (cases "drop_guard True True (g, s1\<lparr>dt_state := ?st'\<rparr>)")
    have st: "dy_entries ?st' = es" "dy_tail ?st' = dy_tail ?st" "dy_closed ?st' = dy_closed ?st"
      "dy_subscribers ?st' = dy_subscribers ?st" "dy_next_cursor ?st' = dy_next_cursor ?st"
      "dy_retired ?st' = dy_retired ?st" by simp_all
    note fd = front_dropped [OF ok e st dg]
    have "trims (g, s) (g, s1)" using lk(2) by simp
    then have "trims (g, s) (drop_lease (en_lease e) g2, s2)"
      using fd(2) by (rule trims_trans)
    then show ?thesis using True e l dg fd(1) by (auto simp: Let_def)
  next
    case False
    let ?s = "s1\<lparr>dt_state := ?st\<lparr>dy_needs_room := False\<rparr>\<rparr>"
    obtain g2 s2 where dg: "drop_guard True False (g, ?s) = (g2, s2)"
      by (cases "drop_guard True False (g, ?s)")
    have "scene_ok gs M xs (g, ?s)"
      using ok by (simp add: scene_ok_def stream_good_def window_def cursor_fits_def stream_leases_def)
    moreover have "trims (g, s) (g, ?s)"
      using lk(3,4) by (intro trimsI [of _ _ _ _ 0]) (simp_all add: fixed_part_def)
    ultimately have "scene_ok gs M xs (g2, s2) \<and> trims (g, s) (g2, s2)"
      using guard_unchanged(1,2) [OF dg] by simp
    then show ?thesis using False l dg assms lk by (auto simp: Let_def split: bool.splits)
  qed
qed

declare retire_loop.simps [simp del] retire_consumed.simps [simp del] maintain_retired.simps [simp del]
  maintain_room.simps [simp del] maintain_wakeups.simps [simp del]

lemma maintain_wakeups_eq:
  "maintain_wakeups (g, s) =
     (emit (if dt_deferred s then [Stream_changed (dt_changed s)] else []) g, s\<lparr>dt_deferred := False\<rparr>)"
  by (simp add: maintain_wakeups.simps)

lemma dynamic_maintain_ok:
  assumes "scene_ok gs M xs gs0"
  shows "scene_ok gs M xs (dynamic_maintain gs0) \<and> trims gs0 (dynamic_maintain gs0)"
proof -
  obtain g s where 0: "gs0 = (g, s)" by (cases gs0)
  obtain g1 s1 where 1: "maintain_retired gs0 = (g1, s1)" by (cases "maintain_retired gs0")
  obtain g2 s2 where 2: "retire_consumed (g1, s1) = (g2, s2)" by (cases "retire_consumed (g1, s1)")
  obtain g3 s3 where 3: "maintain_room (g2, s2) = (g3, s3)" by (cases "maintain_room (g2, s2)")
  have ok1: "scene_ok gs M xs (g1, s1)" "trims gs0 (g1, s1)" using maintain_retired_ok assms 0 1 by metis+
  have ok2: "scene_ok gs M xs (g2, s2)" "trims (g1, s1) (g2, s2)" using retire_consumed_ok ok1 2 by metis+
  have ok3: "scene_ok gs M xs (g3, s3)" "trims (g2, s2) (g3, s3)" using maintain_room_ok ok2 3 by metis+
  have "trims gs0 (g3, s3)" using ok1 ok2 ok3 trims_trans by blast
  then show ?thesis using ok3 1 2 3 by (simp add: dynamic_maintain_def maintain_wakeups_eq)
qed

subsection \<open>Publication keeps the invariant\<close>

lemma trims_framed: "trims (g, s) (g', s') \<Longrightarrow> framed g g' \<and> fixed_part s' = fixed_part s"
  by (simp add: trims.simps)

lemma trims_handle: "trims (g, s) (g', s') \<Longrightarrow> handle g i \<Longrightarrow> handle g' i"
  using framed_handle [of g g' i] trims_framed [of g s g' s'] by simp

lemma scene_sound: "scene_ok gs M xs (g, s) \<Longrightarrow> sound gs g (mset (stream_leases s) + M)"
  by (simp add: scene_ok_def)

definition reserved :: "operation_guard list \<Rightarrow> lease multiset \<Rightarrow> 't list \<Rightarrow> nat \<Rightarrow> 't \<Rightarrow> 't scene \<Rightarrow> 't scene
    \<Rightarrow> ('t \<times> lease, 't try_send_error) result \<Rightarrow> bool" where
  "reserved gs M xs i v a b r \<longleftrightarrow> trims a b
     \<and> (case r of
          Ok (v', lease) \<Rightarrow> v' = v \<and> ls_node lease = i
            \<and> ls_usage lease = as_limits (stream_limits_ZERO\<lparr>sl_retained_items := 1\<rparr>)
            \<and> scene_ok gs (add_mset lease M) xs b
        | Err e \<Rightarrow> try_send_into_inner e = v \<and> scene_ok gs M xs b)"

lemma reserve_refusal_into: "reserve_refusal g s v = Some e \<Longrightarrow> try_send_into_inner e = v"
  by (auto simp: reserve_refusal_def Let_def split: if_splits)

lemma find_nth: "find P xs = Some x \<Longrightarrow> \<exists>i < length xs. xs ! i = x \<and> P x"
  by (metis find_Some_mem in_set_conv_nth)

lemma required_needs_mono: "m \<le> n \<Longrightarrow> required_needs g st m \<Longrightarrow> required_needs g st n"
  by (fastforce simp: required_needs_def list_ex_iff split: option.splits)

lemma reclaim_own_ok:
  assumes ok: "scene_ok gs M xs (g, s)" and run: "reclaim_own i v (g, s) = ((g', s'), r)"
  shows "case r of Err e \<Rightarrow> try_send_into_inner e = v \<and> scene_ok gs M xs (g', s') \<and> trims (g, s) (g', s')
    | Ok retired \<Rightarrow> scene_ok gs M xs (drop_entry retired g', s') \<and> trims (g, s) (drop_entry retired g', s')"
proof -
  obtain s1 b where l: "dynamic_try_lock s = (s1, b)" by (cases "dynamic_try_lock s")
  note lk = lock_unchanged [OF l]
  have ok1: "scene_ok gs M xs (g, s1)" and t1: "trims (g, s) (g, s1)" using ok lk by simp_all
  let ?st = "dt_state s1"
  let ?own = "find (\<lambda>e. ls_node (en_lease e) = i) (dy_entries ?st)"
  let ?keep = "dy_closed ?st \<or> (case ?own of None \<Rightarrow> True | Some e \<Rightarrow> required_needs g ?st (en_sequence e))"
  show ?thesis
  proof (cases "b \<and> \<not> ?keep")
    case False
    obtain g2 s2 where dg: "drop_guard True False (g, s1) = (g2, s2)" by (cases "drop_guard True False (g, s1)")
    have "\<exists>e. r = Err e \<and> try_send_into_inner e = v \<and> ((g', s') = (g, s1) \<or> (g', s') = (g2, s2))"
      using False run l dg by (auto simp: reclaim_own_def Let_def split: bool.splits if_splits)
    then show ?thesis using ok1 t1 guard_unchanged(1,2) [OF dg] by auto
  next
    case True
    then obtain own where own: "?own = Some own" "\<not> required_needs g ?st (en_sequence own)"
      by (auto split: option.splits)
    then obtain k where k: "k < length (dy_entries ?st)" "dy_entries ?st ! k = own" using find_nth by metis
    then obtain e es where e: "dy_entries ?st = e # es" by (cases "dy_entries ?st") auto
    have w: "window (cf_capacity (dt_config s1)) ?st xs" using ok1 by (simp add: scene_ok_def stream_good_def)
    have "en_sequence e \<le> en_sequence own"
      using window_nth [OF w k(1)] window_nth [OF w, of 0] k(2) e by simp
    then have free: "\<not> required_needs g ?st (en_sequence e)" using own(2) required_needs_mono by blast
    let ?st' = "?st\<lparr>dy_entries := es\<rparr>"
    obtain g2 s2 where dg: "drop_guard True True (g, s1\<lparr>dt_state := ?st'\<rparr>) = (g2, s2)"
      by (cases "drop_guard True True (g, s1\<lparr>dt_state := ?st'\<rparr>)")
    have st: "dy_entries ?st' = es" "dy_tail ?st' = dy_tail ?st" "dy_closed ?st' = dy_closed ?st"
      "dy_subscribers ?st' = dy_subscribers ?st" "dy_next_cursor ?st' = dy_next_cursor ?st"
      "dy_retired ?st' = dy_retired ?st" by simp_all
    note fd = front_dropped [OF ok1 e free st dg]
    have "r = Ok (Some e)" "(g', s') = (g2, s2)"
      using True run l dg e own by (auto simp: reclaim_own_def Let_def)
    then show ?thesis using fd(1) trims_trans [OF t1 fd(2)] by simp
  qed
qed

lemma reserve_loop_ok:
  "scene_ok gs M xs (g, s) \<Longrightarrow> handle g i \<Longrightarrow> reserve_loop n i event v (g, s) = (gs', r) \<Longrightarrow>
     reserved gs M xs i v (g, s) gs' r"
proof (induction n arbitrary: g s)
  case 0
  then show ?case by (auto simp: reserved_def)
next
  case (Suc n)
  obtain s1 b where l: "dynamic_try_lock s = (s1, b)" by (cases "dynamic_try_lock s")
  note lk = lock_unchanged [OF l]
  obtain g2 s2 where dg: "drop_guard True False (g, s1) = (g2, s2)" by (cases "drop_guard True False (g, s1)")
  have t1: "trims (g, s) (g, s1)" and ok1: "scene_ok gs M xs (g, s1)" using Suc.prems(1) lk by simp_all
  have t2: "trims (g, s) (g2, s2)" and ok2: "scene_ok gs M xs (g2, s2)"
    using t1 ok1 guard_unchanged(1,2) [OF dg] by simp_all
  have h2: "handle g2 i" by (rule trims_handle [OF t2 Suc.prems(2)])
  obtain g3 c where ch: "try_charge_stream i event (stream_limits_ZERO\<lparr>sl_retained_items := 1\<rparr>) g2 = (g3, c)"
    by (cases "try_charge_stream i event (stream_limits_ZERO\<lparr>sl_retained_items := 1\<rparr>) g2")
  show ?case
  proof (cases "is_revoked g i \<or> \<not> b \<or> reserve_refusal g s1 v \<noteq> None")
    case True
    then have "\<exists>e. r = Err e \<and> try_send_into_inner e = v \<and> (gs' = (g, s) \<or> gs' = (g, s1) \<or> gs' = (g2, s2))"
      using Suc.prems(3) l dg reserve_refusal_into [of g s1 v]
      by (auto split: if_splits bool.splits option.splits)
    then show ?thesis using Suc.prems(1) ok1 ok2 t1 t2 by (auto simp: reserved_def)
  next
    case False
    then have run: "(case c of Ok lease \<Rightarrow> ((g3, s2), Ok (v, lease))
       | Err e \<Rightarrow> if e = TopicError_Revoked then ((g3, s2), Err (TrySend_Revoked v))
           else if dt_delivery s2 = Latest then ((g3, s2), Err (TrySend_Full v))
           else (case reclaim_own i v (g3, s2) of (gs, Err e) \<Rightarrow> (gs, Err e)
                 | ((g, s), Ok retired) \<Rightarrow> reserve_loop n i event v (drop_entry retired g, s))) = (gs', r)"
      using Suc.prems(3) l dg ch by (simp split: result.splits)
    from scene_sound [OF ok2] h2 ch show ?thesis
    proof (cases rule: try_charge_stream_sound)
      case (charged lease)
      have "scene_ok gs (add_mset lease M) xs (g3, s2)"
        using charged(4) ok2 by (simp add: scene_ok_def stream_good_framed [OF charged(5)])
      moreover have "trims (g2, s2) (g3, s2)" using charged(5) by (simp add: trimsI [of _ _ _ _ 0])
      then have "trims (g, s) (g3, s2)" by (rule trims_trans [OF t2])
      ultimately show ?thesis using run charged by (auto simp: reserved_def)
    next
      case (refused e ns)
      have ok3: "scene_ok gs M xs (g3, s2)" and t3: "trims (g, s) (g3, s2)" using ok2 t2 refused(2) by simp_all
      show ?thesis
      proof (cases "e = TopicError_Revoked \<or> dt_delivery s2 = Latest")
        case True
        then show ?thesis using run refused(1) ok3 t3 by (auto simp: reserved_def split: if_splits)
      next
        case False
        obtain g4 s4 q where rc: "reclaim_own i v (g3, s2) = ((g4, s4), q)" by (metis prod.collapse)
        note ro = reclaim_own_ok [OF ok3 rc]
        show ?thesis
        proof (cases q)
          case (Err e')
          then show ?thesis using run refused(1) False rc ro trims_trans [OF t3] by (auto simp: reserved_def)
        next
          case (Ok retired)
          have ro': "scene_ok gs M xs (drop_entry retired g4, s4)" "trims (g, s) (drop_entry retired g4, s4)"
            using ro Ok trims_trans [OF t3] by auto
          have "handle (drop_entry retired g4) i"
            by (rule trims_handle [OF ro'(2) Suc.prems(2)])
          moreover have "reserve_loop n i event v (drop_entry retired g4, s4) = (gs', r)"
            using run refused(1) False rc Ok by simp
          ultimately show ?thesis
            using Suc.IH [OF ro'(1)] trims_trans [OF ro'(2)] by (auto simp: reserved_def split: result.splits)
        qed
      qed
    qed
  qed
qed

declare reserve_loop.simps [simp del]

lemma send_refusal_into [simp]: "try_send_into_inner (send_refusal e v) = v"
  by (cases e) simp_all

lemma dynamic_reserve_ok:
  assumes ok: "scene_ok gs M xs (g, s)" and h: "handle g i" and run: "dynamic_reserve i event v (g, s) = (gs', r)"
  shows "reserved gs M xs i v (g, s) gs' r"
proof -
  obtain g1 q where en: "enter_mode i event Rights_PUBLISH True g = (g1, q)"
    by (cases "enter_mode i event Rights_PUBLISH True g")
  from scene_sound [OF ok] h en show ?thesis
  proof (cases rule: enter_mode_sound)
    case (entered op)
    obtain ms where ms: "drop_operation op g1 = emit ms g" using entered(2) [of "[]"] by auto
    let ?a = "(emit ms g, s)"
    let ?b = "if dt_delivery s = Latest then dynamic_maintain ?a else ?a"
    have "scene_ok gs M xs ?b \<and> trims (g, s) ?b"
      using dynamic_maintain_ok [of gs M xs ?a] ok trims_trans [of "(g, s)" ?a] by simp
    moreover obtain g2 s2 where b: "?b = (g2, s2)" by (cases ?b)
    ultimately have ok2: "scene_ok gs M xs (g2, s2)" and t2: "trims (g, s) (g2, s2)" by simp_all
    have "handle g2 i" by (rule trims_handle [OF t2 h])
    moreover have "reserve_loop (cf_capacity (dt_config s) + 1) i event v (g2, s2) = (gs', r)"
      using run en entered(1) b by (simp add: Let_def ms cong: if_cong)
    ultimately have "reserved gs M xs i v (g2, s2) gs' r" by (rule reserve_loop_ok [OF ok2])
    then show ?thesis using trims_trans [OF t2] by (simp add: reserved_def)
  next
    case (refused e)
    then show ?thesis using run en ok by (auto simp: reserved_def)
  qed
qed

declare dynamic_reserve.simps [simp del]

text \<open>Admission.\<close>

definition pushed :: "'t \<Rightarrow> lease \<Rightarrow> 't dynamic_state \<Rightarrow> 't dynamic_state" where
  "pushed v lease st = st\<lparr>dy_entries := dy_entries st
     @ [\<lparr>en_sequence = dy_tail st, en_value = v, en_lease = lease\<rparr>], dy_tail := dy_tail st + 1\<rparr>"

lemma stream_good_push:
  assumes good: "stream_good g (s\<lparr>dt_state := st\<rparr>) xs" and room: "length (dy_entries st) < cf_capacity (dt_config s)"
    and "dy_tail st < u64_max" and "\<not> dy_closed st"
  shows "stream_good g (s\<lparr>dt_state := pushed v lease st\<rparr>) (xs @ [v])"
proof -
  have w: "window (cf_capacity (dt_config s)) st xs" using good by (simp add: stream_good_def)
  have len: "length xs = dy_tail st" "length (dy_entries st) \<le> dy_tail st" using w by (simp_all add: window_def)
  have "window (cf_capacity (dt_config s)) (pushed v lease st) (xs @ [v])"
    using w room assms(3,4) len by (auto simp: window_def pushed_def nth_append less_Suc_eq)
  moreover have "cursor_fits g (dt_delivery s) (pushed v lease st) c"
    if "cursor_fits g (dt_delivery s) st c" for c
    using that by (auto simp: cursor_fits_def pushed_def)
  ultimately show ?thesis using good by (auto simp: stream_good_def pushed_def)
qed

lemma commit_state_cases:
  assumes good: "stream_good g s xs"
    and run: "commit_state g (dt_config s) (dt_delivery s) deferred v lease (dt_state s) = (st', dirty, r)"
  obtains (refused) e b where "r = Err e" "try_send_into_inner e = (v, lease)" "\<not> dirty"
      "st' = dt_state s\<lparr>dy_needs_room := b\<rparr>"
    | (room) "r = Ok None" "dirty" "length (dy_entries (dt_state s)) < cf_capacity (dt_config s)"
      "st' = pushed v lease (dt_state s)" "\<not> dy_closed (dt_state s)" "dy_tail (dt_state s) < u64_max"
    | (replaced) e es where "dirty" "dy_entries (dt_state s) = e # es" "\<not> dy_closed (dt_state s)"
      "length (dy_entries (dt_state s)) = cf_capacity (dt_config s)" "dy_tail (dt_state s) < u64_max"
      "\<not> required_needs g (dt_state s) (en_sequence e)"
      "r = Ok (if deferred then None else Some e)" "deferred \<Longrightarrow> dt_delivery s = Latest \<and> dy_retired (dt_state s) = None"
      "st' = pushed v lease (dt_state s\<lparr>dy_entries := es,
          dy_retired := (if deferred then Some e else dy_retired (dt_state s))\<rparr>)"
proof -
  let ?st = "dt_state s"
  have same: "?st\<lparr>dy_needs_room := dy_needs_room ?st\<rparr> = ?st" by simp
  have cap: "0 < cf_capacity (dt_config s)" "length (dy_entries ?st) \<le> cf_capacity (dt_config s)"
    using good by (auto simp: stream_good_def window_def)
  show thesis
  proof (cases "dy_closed ?st \<or> u64_max < dy_tail ?st + 1")
    case True
    then show thesis using run refused [of _ "dy_needs_room ?st"] same
      by (cases "dy_closed ?st") (auto simp: commit_state_def checked_add_def Let_def)
  next
    case False
    then have open_s: "\<not> dy_closed ?st" "dy_tail ?st + 1 \<le> u64_max" by auto
    show thesis
    proof (cases "length (dy_entries ?st) = cf_capacity (dt_config s)")
      case False
      then show thesis using run room cap open_s
        by (auto simp: commit_state_def checked_add_def Let_def pushed_def)
    next
      case True
      then obtain e es where e: "dy_entries ?st = e # es" using cap by (cases "dy_entries ?st") auto
      show thesis
      proof (cases "required_needs g ?st (en_sequence e)
          \<or> deferred \<and> (dt_delivery s = Latest \<longrightarrow> dy_retired ?st \<noteq> None)")
        case refuse: True
        then have "\<exists>e'. r = Err e' \<and> try_send_into_inner e' = (v, lease) \<and> \<not> dirty
            \<and> (st' = ?st \<or> st' = ?st\<lparr>dy_needs_room := True\<rparr>)"
          using run True open_s e by (auto simp: commit_state_def checked_add_def Let_def split: if_splits)
        then show thesis using refused same by metis
      next
        case admit: False
        show thesis
        proof (cases deferred)
          case True
          then show thesis using replaced [of e es] run admit e open_s \<open>length (dy_entries ?st) = _\<close>
            by (auto simp: commit_state_def checked_add_def Let_def pushed_def)
        next
          case False
          then show thesis using replaced [of e es] run admit e open_s \<open>length (dy_entries ?st) = _\<close>
            by (auto simp: commit_state_def checked_add_def Let_def pushed_def)
        qed
      qed
    qed
  qed
qed

definition static_part :: "'t dynamic_stream \<Rightarrow> _" where
  "static_part s = (dt_config s, dt_wire_major s, dt_delivery s, dt_payload s, dt_changed s, dt_allocation s)"

lemma static_part_simps [simp]:
  "static_part (s\<lparr>dt_contended := c\<rparr>) = static_part s"
  "static_part (s\<lparr>dt_deferred := c\<rparr>) = static_part s"
  "static_part (s\<lparr>dt_busy := bs\<rparr>) = static_part s"
  "static_part (s\<lparr>dt_waiters := w\<rparr>) = static_part s"
  "static_part (s\<lparr>dt_state := st\<rparr>) = static_part s"
  by (simp_all add: static_part_def)

lemma fixed_static: "fixed_part s' = fixed_part s \<Longrightarrow> static_part s' = static_part s"
  by (simp add: fixed_part_def static_part_def)

lemma fixedD:
  assumes "fixed_part s' = fixed_part s"
  shows "dy_subscribers (dt_state s') = dy_subscribers (dt_state s)" "dy_tail (dt_state s') = dy_tail (dt_state s)"
    "dy_next_cursor (dt_state s') = dy_next_cursor (dt_state s)" "dy_closed (dt_state s') = dy_closed (dt_state s)"
  using assms by (simp_all add: fixed_part_def)

text \<open>What one publication leaves: the log grows by the value or the payload comes back.\<close>

definition committed :: "operation_guard list \<Rightarrow> lease multiset \<Rightarrow> 't list \<Rightarrow> 't \<Rightarrow> lease \<Rightarrow> 't scene \<Rightarrow> 't scene
    \<Rightarrow> (unit, ('t \<times> lease) try_send_error) result \<Rightarrow> bool" where
  "committed gs M xs v lease a b r \<longleftrightarrow> framed (fst a) (fst b) \<and> static_part (snd b) = static_part (snd a)
     \<and> dy_subscribers (dt_state (snd b)) = dy_subscribers (dt_state (snd a))
     \<and> dy_next_cursor (dt_state (snd b)) = dy_next_cursor (dt_state (snd a))
     \<and> dy_closed (dt_state (snd b)) = dy_closed (dt_state (snd a))
     \<and> (case r of
          Ok _ \<Rightarrow> scene_ok gs M (xs @ [v]) b \<and> \<not> dy_closed (dt_state (snd b))
        | Err e \<Rightarrow> try_send_into_inner e = (v, lease) \<and> scene_ok gs (add_mset lease M) xs b)"

lemma stream_good_needs_room:
  "stream_good g (s\<lparr>dt_state := dt_state s\<lparr>dy_needs_room := b\<rparr>\<rparr>) xs = stream_good g s xs"
  by (simp add: stream_good_def window_def cursor_fits_def)

lemma required_needs_cong:
  assumes "\<And>j. is_revoked g' j = is_revoked g j"
  shows "required_needs g' = required_needs g"
  by (intro ext) (simp add: required_needs_def assms cong: option.case_cong)

lemma commit_state_cong:
  assumes "\<And>j. is_revoked g' j = is_revoked g j"
  shows "commit_state g' = commit_state g"
  by (intro ext) (simp only: commit_state_def required_needs_cong [OF assms])

lemma dynamic_commit_ok:
  assumes ok: "scene_ok gs (add_mset lease M) xs (g, s)" and h: "handle g i"
    and run: "dynamic_commit i event v lease deferred (g, s) = (gs', r)"
  shows "committed gs M xs v lease (g, s) gs' r"
proof -
  obtain g1 q where en: "enter_mode i event Rights_PUBLISH (\<not> deferred) g = (g1, q)"
    by (cases "enter_mode i event Rights_PUBLISH (\<not> deferred) g")
  from scene_sound [OF ok] h en show ?thesis
  proof (cases rule: enter_mode_sound)
    case (refused e)
    then show ?thesis using run en ok by (auto simp: committed_def)
  next
    case (entered op)
    obtain s1 b where l: "dynamic_try_lock s = (s1, b)" by (cases "dynamic_try_lock s")
    note lk = lock_unchanged [OF l]
    have ok1: "scene_ok gs (add_mset lease M) xs (g, s1)" using ok lk by simp
    then have good: "stream_good g s1 xs" by (simp add: scene_ok_def)
    show ?thesis
    proof (cases b)
      case False
      obtain ms where "drop_operation op g1 = emit ms g" using entered(2) [of "[]"] by auto
      then have "gs' = (emit ms g, s1)" "r = Err (TrySend_Contended (v, lease))"
        using run en entered(1) l False by simp_all
      then show ?thesis using ok1 lk fixed_static [OF lk(4)] by (simp add: committed_def)
    next
      case True
      obtain st' dirty q' where c: "commit_state g (dt_config s1) (dt_delivery s1) deferred v lease (dt_state s1)
          = (st', dirty, q')"
        by (metis prod_cases3)
      have "\<exists>ns c d. drop_guard (\<not> deferred) dirty (g1, s1\<lparr>dt_state := st'\<rparr>)
          = (emit ns g1, s1\<lparr>dt_state := st'\<rparr>\<lparr>dt_contended := c, dt_deferred := d\<rparr>)"
        by (rule drop_guard_exec)
      then obtain ns c d where dg: "drop_guard (\<not> deferred) dirty (g1, s1\<lparr>dt_state := st'\<rparr>)
          = (emit ns g1, s1\<lparr>dt_state := st'\<rparr>\<lparr>dt_contended := c, dt_deferred := d\<rparr>)" by blast
      obtain ms where ms: "drop_operation op (emit ns g1) = emit ms g" using entered(2) by blast
      let ?s = "s1\<lparr>dt_state := st'\<rparr>\<lparr>dt_contended := c, dt_deferred := d\<rparr>"
      have run': "(gs', r) = (case q' of Err e \<Rightarrow> ((emit ms g, ?s), Err e)
          | Ok retired \<Rightarrow> ((drop_entry retired (emit ms g), ?s), Ok ()))"
        using run en entered(1) l True c dg ms by (auto simp: commit_state_cong [OF entered(4)] Let_def split: result.splits)
      have sp: "static_part s1 = static_part s" using fixed_static [OF lk(4)] .
      from good c show ?thesis
      proof (cases rule: commit_state_cases)
        case (refused e nr)
        have "scene_ok gs (add_mset lease M) xs (g, s1\<lparr>dt_state := st'\<rparr>)"
          using ok1 refused(4) stream_good_needs_room [of g nr s1 xs]
          by (simp add: scene_ok_def stream_leases_def)
        then show ?thesis using run' refused sp lk(3) by (simp add: committed_def)
      next
        case room
        have "stream_good g (s1\<lparr>dt_state := st'\<rparr>) (xs @ [v])"
          unfolding room(4) by (rule stream_good_push) (use good room in simp_all)
        moreover have "mset (stream_leases (s1\<lparr>dt_state := st'\<rparr>)) = add_mset lease (mset (stream_leases s1))"
          using room(4) by (simp add: stream_leases_def pushed_def)
        ultimately have "scene_ok gs M (xs @ [v]) (g, s1\<lparr>dt_state := st'\<rparr>)"
          using ok1 by (simp add: scene_ok_def)
        then show ?thesis using run' room sp lk(3) by (simp add: committed_def pushed_def)
      next
        case (replaced e es)
        let ?st = "dt_state s1\<lparr>dy_entries := es, dy_retired := (if deferred then Some e else dy_retired (dt_state s1))\<rparr>"
        have "stream_good g (s1\<lparr>dt_state := ?st\<rparr>) xs"
          by (rule stream_good_pop [OF good replaced(2,6)]) simp_all
        then have good': "stream_good g (s1\<lparr>dt_state := st'\<rparr>) (xs @ [v])"
          unfolding replaced(9) by (rule stream_good_push) (use replaced in simp_all)
        have leases: "mset (stream_leases (s1\<lparr>dt_state := st'\<rparr>)) + (if deferred then {#} else {#en_lease e#})
            = add_mset lease (mset (stream_leases s1))"
          using replaced by (cases deferred) (simp_all add: stream_leases_def pushed_def)
        have "scene_ok gs M (xs @ [v]) (drop_entry (if deferred then None else Some e) (emit ms g), s1\<lparr>dt_state := st'\<rparr>)"
        proof (cases deferred)
          case True
          then show ?thesis using leases good' ok1 by (simp add: scene_ok_def)
        next
          case False
          have eq: "add_mset (en_lease e) (mset (stream_leases (s1\<lparr>dt_state := st'\<rparr>)) + M)
              = add_mset lease (mset (stream_leases s1) + M)"
            using arg_cong [OF leases, of "\<lambda>N. N + M"] False by simp
          have "sound gs g (add_mset (en_lease e) (mset (stream_leases (s1\<lparr>dt_state := st'\<rparr>)) + M))"
            unfolding eq using ok1 by (simp add: scene_ok_def)
          then have "scene_ok gs (add_mset (en_lease e) M) (xs @ [v]) (emit ms g, s1\<lparr>dt_state := st'\<rparr>)"
            using good' by (simp add: scene_ok_def)
          then show ?thesis using False by (simp add: scene_ok_release)
        qed
        moreover have "framed g (drop_entry q'' (emit ms g))" for q'' :: "'a entry option"
          using framed_trans [OF _ framed_drop_lease, of g "emit ms g"] by (cases q'') simp_all
        ultimately show ?thesis using run' replaced sp lk(3) by (simp add: committed_def pushed_def)
      qed
    qed
  qed
qed

declare dynamic_commit.simps [simp del]

text \<open>\<open>send_now\<close>: the lease of a rejected payload is returned.\<close>

definition sent :: "operation_guard list \<Rightarrow> lease multiset \<Rightarrow> 't list \<Rightarrow> 't \<Rightarrow> 't scene \<Rightarrow> 't scene
    \<Rightarrow> (unit, 't try_send_error) result \<Rightarrow> bool" where
  "sent gs M xs v a b r \<longleftrightarrow> framed (fst a) (fst b) \<and> static_part (snd b) = static_part (snd a)
     \<and> dy_subscribers (dt_state (snd b)) = dy_subscribers (dt_state (snd a))
     \<and> dy_next_cursor (dt_state (snd b)) = dy_next_cursor (dt_state (snd a))
     \<and> dy_closed (dt_state (snd b)) = dy_closed (dt_state (snd a))
     \<and> (case r of Ok _ \<Rightarrow> scene_ok gs M (xs @ [v]) b
        | Err e \<Rightarrow> try_send_into_inner e = v \<and> scene_ok gs M xs b)"

lemma dynamic_send_now_ok:
  assumes ok: "scene_ok gs M xs (g, s)" and h: "handle g i" and run: "dynamic_send_now i event v (g, s) = (gs', r)"
  shows "sent gs M xs v (g, s) gs' r"
proof -
  obtain g1 s1 q where re: "dynamic_reserve i event v (g, s) = ((g1, s1), q)" by (metis prod.collapse)
  note ro = dynamic_reserve_ok [OF ok h re]
  then have t: "trims (g, s) (g1, s1)" by (simp add: reserved_def)
  note tf = trims_framed [OF t]
  show ?thesis
  proof (cases q)
    case (Err e)
    then have "gs' = (g1, s1)" "r = Err e" using run re by (simp_all add: dynamic_send_now_def)
    then show ?thesis
      using Err ro tf fixedD [of s1 s] fixed_static [of s1 s] by (simp add: reserved_def sent_def)
  next
    case (Ok p)
    obtain lease where p: "p = (v, lease)" and ok1: "scene_ok gs (add_mset lease M) xs (g1, s1)"
      using ro Ok by (auto simp: reserved_def)
    obtain g2 s2 q2 where co: "dynamic_commit i event v lease False (g1, s1) = ((g2, s2), q2)" by (metis prod.collapse)
    note cm = dynamic_commit_ok [OF ok1 trims_handle [OF t h] co]
    have fr: "framed g g2" using cm framed_trans [of g g1 g2] tf by (simp add: committed_def)
    show ?thesis
    proof (cases q2)
      case (Ok u)
      then have "gs' = (g2, s2)" "r = Ok ()"
        using run re co \<open>q = Ok p\<close> p by (simp_all add: dynamic_send_now_def)
      then show ?thesis
        using Ok cm fr tf fixedD [of s1 s] fixed_static [of s1 s] by (simp add: committed_def sent_def)
    next
      case (Err e)
      then have "gs' = (drop_lease lease g2, s2)" "r = Err (try_send_map fst e)" "try_send_into_inner e = (v, lease)"
        "scene_ok gs (add_mset lease M) xs (g2, s2)"
        using run re co cm \<open>q = Ok p\<close> p by (simp_all add: dynamic_send_now_def committed_def)
      then show ?thesis
        using Err cm framed_trans [OF fr framed_drop_lease] scene_ok_release tf fixedD [of s1 s] fixed_static [of s1 s]
        by (simp add: committed_def sent_def)
    qed
  qed
qed

subsection \<open>Reception keeps the invariant\<close>

text \<open>The position a cursor reads from: a latest-state cursor jumps to the newest entry.\<close>

definition dynamic_moved :: "delivery \<Rightarrow> 't dynamic_state \<Rightarrow> dyn_cursor \<Rightarrow> nat" where
  "dynamic_moved d st c = (if d = Latest then max (dc_next c) (dy_tail st - 1) else dc_next c)"

definition head_of :: "'t dynamic_state \<Rightarrow> nat" where
  "head_of st = dy_tail st - length (dy_entries st)"

lemma window_head:
  "window cap st xs \<Longrightarrow> (case dy_entries st of [] \<Rightarrow> dy_tail st | e # _ \<Rightarrow> en_sequence e) = head_of st"
  using window_nth [of cap st xs 0] by (cases "dy_entries st") (auto simp: head_of_def)

lemma owned_mem:
  "owned_cursor st key = Some c \<Longrightarrow> ck_index key < length (dy_subscribers st) \<Longrightarrow>
     Some c \<in> set (dy_subscribers st) \<and> dy_subscribers st ! ck_index key = Some c \<and> dc_id c = ck_id key"
  by (auto simp: owned_cursor_def in_set_conv_nth split: option.splits if_splits)

lemma receive_state_cases:
  assumes good: "stream_good g s xs"
    and run: "receive_state (dt_delivery s) key (dt_state s) = (st', dirty, r)"
    and idx: "dy_closed (dt_state s) \<or> ck_index key < length (dy_subscribers (dt_state s))"
  obtains (refused) "r = Err (ReceiveError_Closed CloseReason_Closed)" "\<not> dirty" "st' = dt_state s"
      "dy_closed (dt_state s) \<or> owned_cursor (dt_state s) key = None"
    | (gap) c where "\<not> dy_closed (dt_state s)" "owned_cursor (dt_state s) key = Some c"
      "dynamic_moved (dt_delivery s) (dt_state s) c < head_of (dt_state s)" "dirty"
      "st' = set_next key c (head_of (dt_state s)) (dt_state s)"
      "r = Ok (Some (Gap (dynamic_moved (dt_delivery s) (dt_state s) c) (head_of (dt_state s))))"
    | (data) c where "\<not> dy_closed (dt_state s)" "owned_cursor (dt_state s) key = Some c"
      "head_of (dt_state s) \<le> dynamic_moved (dt_delivery s) (dt_state s) c"
      "dynamic_moved (dt_delivery s) (dt_state s) c < dy_tail (dt_state s)" "dirty"
      "dynamic_moved (dt_delivery s) (dt_state s) c - head_of (dt_state s) < length (dy_entries (dt_state s))"
      "st' = set_next key c (dynamic_moved (dt_delivery s) (dt_state s) c + 1) (dt_state s)"
      "r = Ok (Some (Data (dynamic_moved (dt_delivery s) (dt_state s) c)
                          (xs ! dynamic_moved (dt_delivery s) (dt_state s) c)))"
    | (none) c where "\<not> dy_closed (dt_state s)" "owned_cursor (dt_state s) key = Some c"
      "dc_next c = dy_tail (dt_state s)" "\<not> dirty" "st' = dt_state s" "r = Ok None"
proof (cases "dy_closed (dt_state s) \<or> owned_cursor (dt_state s) key = None")
  case True
  then have "receive_state (dt_delivery s) key (dt_state s)
      = (dt_state s, False, Err (ReceiveError_Closed CloseReason_Closed))"
    by (auto simp: receive_state_def)
  then show thesis using run refused True by simp
next
  case False
  let ?st = "dt_state s"
  obtain c where c: "\<not> dy_closed ?st" "owned_cursor ?st key = Some c" using False by auto
  let ?m = "dynamic_moved (dt_delivery s) ?st c"
  have w: "window (cf_capacity (dt_config s)) ?st xs" using good by (simp add: stream_good_def)
  have "ck_index key < length (dy_subscribers ?st)" using idx c(1) by simp
  then have "cursor_fits g (dt_delivery s) ?st c"
    using good owned_mem [OF c(2)] by (simp add: stream_good_def)
  then have nx: "dc_next c \<le> dy_tail ?st" by (simp add: cursor_fits_def)
  have len: "length (dy_entries ?st) \<le> dy_tail ?st" using w by (simp add: window_def)
  have exec: "receive_state (dt_delivery s) key ?st =
     (if ?m < head_of ?st then (set_next key c (head_of ?st) ?st, True, Ok (Some (Gap ?m (head_of ?st))))
      else if ?m < dy_tail ?st
      then (set_next key c (?m + 1) ?st, True, Ok (Some (Data ?m (en_value (dy_entries ?st ! (?m - head_of ?st))))))
      else (?st, False, Ok None))"
    using c by (simp add: receive_state_def window_head [OF w] Let_def dynamic_moved_def)
  consider "?m < head_of ?st" | "head_of ?st \<le> ?m" "?m < dy_tail ?st" | "head_of ?st \<le> ?m" "dy_tail ?st \<le> ?m"
    by linarith
  then show thesis
  proof cases
    case 1
    then show thesis using gap [OF c] run exec by simp
  next
    case 2
    then have i: "?m - head_of ?st < length (dy_entries ?st)" using len by (simp add: head_of_def)
    have "head_of ?st + (?m - head_of ?st) = ?m" using 2 by simp
    then have "en_value (dy_entries ?st ! (?m - head_of ?st)) = xs ! ?m"
      using window_nth [OF w i] by (simp add: head_of_def)
    then show thesis using data [OF c] run exec 2 i by simp
  next
    case 3
    then have "dc_next c = dy_tail ?st"
      using nx by (cases "dy_tail ?st") (auto simp: dynamic_moved_def max_def split: if_splits)
    then show thesis using none [OF c] run exec 3 by simp
  qed
qed

lemma stream_good_set_next:
  assumes good: "stream_good g s xs" and c: "owned_cursor (dt_state s) key = Some c"
    and idx: "ck_index key < length (dy_subscribers (dt_state s))"
    and n: "dc_next c \<le> n" "n \<le> dy_tail (dt_state s)"
  shows "stream_good g (s\<lparr>dt_state := set_next key c n (dt_state s)\<rparr>) xs"
proof -
  have fits: "cursor_fits g (dt_delivery s) (dt_state s) c"
    using good owned_mem [OF c idx] by (simp add: stream_good_def)
  have "window (cf_capacity (dt_config s)) (set_next key c n (dt_state s)) xs"
    using good idx by (auto simp: stream_good_def window_def set_next_def)
  moreover have "cursor_fits g (dt_delivery s) (set_next key c n (dt_state s)) d"
    if "Some d \<in> set (dy_subscribers (set_next key c n (dt_state s)))" for d
  proof -
    have "d = c\<lparr>dc_next := n\<rparr> \<or> Some d \<in> set (dy_subscribers (dt_state s))"
      using that set_update_subset_insert [of "dy_subscribers (dt_state s)"] by (auto simp: set_next_def)
    then show ?thesis using good fits n by (auto simp: stream_good_def cursor_fits_def set_next_def)
  qed
  ultimately show ?thesis using good by (simp add: stream_good_def)
qed

text \<open>What one reception leaves, for the receiver that owns the key.\<close>

definition received :: "operation_guard list \<Rightarrow> lease multiset \<Rightarrow> 't list \<Rightarrow> nat \<Rightarrow> cursor_key \<Rightarrow> 't scene \<Rightarrow> 't scene
    \<Rightarrow> ('t stream_item option, receive_error) result \<Rightarrow> bool" where
  "received gs M xs i key a b r \<longleftrightarrow> framed (fst a) (fst b) \<and> static_part (snd b) = static_part (snd a)
     \<and> dy_next_cursor (dt_state (snd b)) = dy_next_cursor (dt_state (snd a))
     \<and> dy_closed (dt_state (snd b)) = dy_closed (dt_state (snd a))
     \<and> scene_ok gs M xs b
     \<and> (case r of
          Ok (Some it) \<Rightarrow> \<exists>c. \<not> dy_closed (dt_state (snd a)) \<and> owned_cursor (dt_state (snd a)) key = Some c
             \<and> dy_subscribers (dt_state (snd b)) =
                 (dy_subscribers (dt_state (snd a)))[ck_index key := Some (c\<lparr>dc_next := item_end it\<rparr>)]
             \<and> dc_next c \<le> item_start it \<and> item_start it < item_end it \<and> item_end it \<le> length xs
             \<and> (dt_delivery (snd a) = Ordered \<longrightarrow> item_start it = dc_next c)
             \<and> (case it of Data m v \<Rightarrow> v = xs ! m | Gap _ _ \<Rightarrow> dc_role c = Required \<longrightarrow> is_revoked (fst a) (dc_grant c))
             \<and> \<not> is_revoked (fst a) i
        | _ \<Rightarrow> dy_subscribers (dt_state (snd b)) = dy_subscribers (dt_state (snd a)))"

lemma dynamic_try_recv_ok:
  assumes ok: "scene_ok gs M xs (g, s)" and h: "handle g i"
    and idx: "dy_closed (dt_state s) \<or> ck_index key < length (dy_subscribers (dt_state s))"
    and run: "dynamic_try_recv i event key (g, s) = (gs', r)"
  shows "received gs M xs i key (g, s) gs' r"
proof -
  obtain g1 q where en: "enter_mode i event Rights_OBSERVE False g = (g1, q)"
    by (cases "enter_mode i event Rights_OBSERVE False g")
  from scene_sound [OF ok] h en show ?thesis
  proof (cases rule: enter_mode_sound)
    case (refused e)
    then show ?thesis using run en ok by (auto simp: received_def)
  next
    case (entered op)
    obtain s1 b where l: "dynamic_try_lock s = (s1, b)" by (cases "dynamic_try_lock s")
    note lk = lock_unchanged [OF l]
    have ok1: "scene_ok gs M xs (g, s1)" using ok lk by simp
    then have good: "stream_good g s1 xs" by (simp add: scene_ok_def)
    have sp: "static_part s1 = static_part s" using fixed_static [OF lk(4)] .
    show ?thesis
    proof (cases b)
      case False
      obtain ms where "drop_operation op g1 = emit ms g" using entered(2) [of "[]"] by auto
      then have "gs' = (emit ms g, s1)" "r = Err ReceiveError_Contended"
        using run en entered(1) l False by simp_all
      then show ?thesis using ok1 lk sp by (simp add: received_def)
    next
      case True
      obtain st' dirty q' where c: "receive_state (dt_delivery s1) key (dt_state s1) = (st', dirty, q')"
        by (metis prod_cases3)
      have "\<exists>ns c d. drop_guard False dirty (g1, s1\<lparr>dt_state := st'\<rparr>)
          = (emit ns g1, s1\<lparr>dt_state := st'\<rparr>\<lparr>dt_contended := c, dt_deferred := d\<rparr>)"
        by (rule drop_guard_exec)
      then obtain ns co de where dg: "drop_guard False dirty (g1, s1\<lparr>dt_state := st'\<rparr>)
          = (emit ns g1, s1\<lparr>dt_state := st'\<rparr>\<lparr>dt_contended := co, dt_deferred := de\<rparr>)" by blast
      obtain ms where ms: "drop_operation op (emit ns g1) = emit ms g" using entered(2) by blast
      have run': "gs' = (emit ms g, s1\<lparr>dt_state := st'\<rparr>\<lparr>dt_contended := co, dt_deferred := de\<rparr>)" "r = q'"
        using run en entered(1) l True c dg ms by (auto simp: Let_def)
      have idx1: "dy_closed (dt_state s1) \<or> ck_index key < length (dy_subscribers (dt_state s1))"
        using idx lk(3) by simp
      have len: "length xs = dy_tail (dt_state s1)" using good by (simp add: stream_good_def window_def)
      have same: "s1\<lparr>dt_state := dt_state s\<rparr> = s1" using lk(3) by (cases s1) simp
      from good c idx1 show ?thesis
      proof (cases rule: receive_state_cases)
        case refused
        with run' ok1 sp lk(3) same show ?thesis by (simp add: received_def)
      next
        case none
        with run' ok1 sp lk(3) same show ?thesis by (simp add: received_def)
      next
        case (gap cu)
        let ?m = "dynamic_moved (dt_delivery s1) (dt_state s1) cu"
        have i: "ck_index key < length (dy_subscribers (dt_state s1))" using idx1 gap(1) by simp
        have fits: "cursor_fits g (dt_delivery s1) (dt_state s1) cu"
          using good owned_mem [OF gap(2) i] by (simp add: stream_good_def)
        have m: "dc_next cu \<le> ?m" "dt_delivery s1 = Ordered \<Longrightarrow> ?m = dc_next cu" by (auto simp: dynamic_moved_def)
        have ht: "head_of (dt_state s1) \<le> dy_tail (dt_state s1)" by (simp add: head_of_def)
        have "stream_good g (s1\<lparr>dt_state := st'\<rparr>) xs"
          unfolding gap(5) using m gap(3) ht
          by (intro stream_good_set_next [OF good gap(2) i]) simp_all
        moreover have "stream_leases (s1\<lparr>dt_state := st'\<rparr>) = stream_leases s1"
          by (simp add: gap(5) stream_leases_def set_next_def)
        ultimately have "scene_ok gs M xs (g, s1\<lparr>dt_state := st'\<rparr>)" using ok1 by (simp add: scene_ok_def)
        moreover have "dc_role cu = Required \<longrightarrow> is_revoked g (dc_grant cu)"
          using fits gap(3) m by (auto simp: cursor_fits_def head_of_def)
        ultimately show ?thesis
          using run' gap sp lk(3,5) len ht m entered(3) by (simp add: received_def set_next_def)
      next
        case (data cu)
        let ?m = "dynamic_moved (dt_delivery s1) (dt_state s1) cu"
        have i: "ck_index key < length (dy_subscribers (dt_state s1))" using idx1 data(1) by simp
        have m: "dc_next cu \<le> ?m" "dt_delivery s1 = Ordered \<Longrightarrow> ?m = dc_next cu" by (auto simp: dynamic_moved_def)
        have "stream_good g (s1\<lparr>dt_state := st'\<rparr>) xs"
          unfolding data(7) using m data(4)
          by (intro stream_good_set_next [OF good data(2) i]) simp_all
        moreover have "stream_leases (s1\<lparr>dt_state := st'\<rparr>) = stream_leases s1"
          by (simp add: data(7) stream_leases_def set_next_def)
        ultimately have "scene_ok gs M xs (g, s1\<lparr>dt_state := st'\<rparr>)" using ok1 by (simp add: scene_ok_def)
        then show ?thesis
          using run' data sp lk(3,5) len m entered(3) by (simp add: received_def set_next_def)
      qed
    qed
  qed
qed


declare dynamic_try_recv.simps [simp del]

lemma maintain_operations_emit: "\<exists>ns. maintain_operations i g = emit ns g"
  unfolding maintain_operations_def by (metis emit_Nil)

lemma trimsD:
  assumes "trims a b"
  shows "framed (fst a) (fst b)" "static_part (snd b) = static_part (snd a)"
    "dy_subscribers (dt_state (snd b)) = dy_subscribers (dt_state (snd a))"
    "dy_next_cursor (dt_state (snd b)) = dy_next_cursor (dt_state (snd a))"
    "dy_closed (dt_state (snd b)) = dy_closed (dt_state (snd a))"
    "dy_tail (dt_state (snd b)) = dy_tail (dt_state (snd a))"
proof -
  have t: "framed (fst a) (fst b)" "fixed_part (snd b) = fixed_part (snd a)"
    using assms by (cases a; cases b; simp add: trims.simps)+
  show "framed (fst a) (fst b)" "static_part (snd b) = static_part (snd a)"
    "dy_subscribers (dt_state (snd b)) = dy_subscribers (dt_state (snd a))"
    "dy_next_cursor (dt_state (snd b)) = dy_next_cursor (dt_state (snd a))"
    "dy_closed (dt_state (snd b)) = dy_closed (dt_state (snd a))"
    "dy_tail (dt_state (snd b)) = dy_tail (dt_state (snd a))"
    using t fixed_static fixedD by simp_all
qed

lemma dynamic_recv_now_ok:
  assumes ok: "scene_ok gs M xs (g, s)" and h: "handle g i"
    and idx: "dy_closed (dt_state s) \<or> ck_index key < length (dy_subscribers (dt_state s))"
    and run: "dynamic_recv_now i event key (g, s) = (gs', r)"
  shows "received gs M xs i key (g, s) gs' r"
proof -
  obtain b q where re: "dynamic_try_recv i event key (g, s) = (b, q)" by (cases "dynamic_try_recv i event key (g, s)")
  note rc = dynamic_try_recv_ok [OF ok h idx re]
  then have okb: "scene_ok gs M xs b" by (simp add: received_def)
  obtain g2 s2 where mt: "dynamic_maintain b = (g2, s2)" by (cases "dynamic_maintain b")
  have ok2: "scene_ok gs M xs (g2, s2)" and t: "trims b (g2, s2)"
    using dynamic_maintain_ok [OF okb] mt by simp_all
  obtain ns where "maintain_operations i g2 = emit ns g2" using maintain_operations_emit by blast
  then have res: "gs' = (emit ns g2, s2)" "r = q" using run re mt by (simp_all add: dynamic_recv_now_def)
  have "framed g g2" using rc trimsD(1) [OF t] framed_trans by (auto simp: received_def)
  then show ?thesis using rc res ok2 trimsD [OF t]
    by (simp add: received_def cong: result.case_cong option.case_cong)
qed

subsection \<open>Subscriptions, receivers and closing keep the invariant\<close>

text \<open>The operations that change the table of subscribers keep the window.\<close>

lemma scene_ok_subscribers:
  assumes ok: "scene_ok gs M xs (g, s)"
    and st: "dy_entries st = dy_entries (dt_state s)" "dy_tail st = dy_tail (dt_state s)"
      "dy_closed st = dy_closed (dt_state s)" "dy_retired st = dy_retired (dt_state s)"
      "dy_next_cursor (dt_state s) \<le> dy_next_cursor st" "dy_closed st \<Longrightarrow> dy_subscribers st = []"
    and new: "\<And>c. Some c \<in> set (dy_subscribers st) \<Longrightarrow>
        Some c \<in> set (dy_subscribers (dt_state s)) \<or> cursor_fits g (dt_delivery s) st c"
  shows "scene_ok gs M xs (g, s\<lparr>dt_state := st\<rparr>)"
proof -
  have old: "cursor_fits g (dt_delivery s) st c" if "cursor_fits g (dt_delivery s) (dt_state s) c" for c
    using that st by (auto simp: cursor_fits_def)
  have "window (cf_capacity (dt_config s)) st xs"
    using ok st by (auto simp: scene_ok_def stream_good_def window_def)
  then have "stream_good g (s\<lparr>dt_state := st\<rparr>) xs"
    using ok old new by (auto simp: scene_ok_def stream_good_def)
  moreover have "stream_leases (s\<lparr>dt_state := st\<rparr>) = stream_leases s" using st by (simp add: stream_leases_def)
  ultimately show ?thesis using ok by (simp add: scene_ok_def)
qed

lemma subscribe_state_cases:
  assumes "subscribe_state d role i st = (st', dirty, r)"
  obtains (joined) k where "\<not> dy_closed st" "dirty" "k < length (dy_subscribers st)" "dy_subscribers st ! k = None"
      "dy_next_cursor st < u64_max" "r = Ok \<lparr>ck_index = k, ck_id = dy_next_cursor st\<rparr>"
      "st' = st\<lparr>dy_next_cursor := dy_next_cursor st + 1, dy_subscribers := (dy_subscribers st)[k := Some
         \<lparr>dc_id = dy_next_cursor st, dc_next = (if d = Latest then dy_tail st - 1 else dy_tail st),
          dc_role = role, dc_grant = i\<rparr>]\<rparr>"
    | (refused) e where "r = Err e" "st' = st" "\<not> dirty"
proof (cases "dy_closed st \<or> position_none (dy_subscribers st) = None \<or> u64_max < dy_next_cursor st + 1")
  case True
  then have "\<exists>e. subscribe_state d role i st = (st, False, Err e)"
    by (cases "position_none (dy_subscribers st)") (auto simp: subscribe_state_def checked_add_def Let_def)
  then show thesis using refused assms by auto
next
  case False
  then obtain k where k: "position_none (dy_subscribers st) = Some k" by auto
  then show thesis using joined [of k] position_none_Some [OF k] False assms
    by (auto simp: subscribe_state_def checked_add_def Let_def)
qed

definition subscribed :: "operation_guard list \<Rightarrow> lease multiset \<Rightarrow> 't list \<Rightarrow> nat \<Rightarrow> subscription_role \<Rightarrow> 't scene \<Rightarrow> 't scene
    \<Rightarrow> (cursor_key \<times> lease, topic_error) result \<Rightarrow> bool" where
  "subscribed gs M xs i role a b r \<longleftrightarrow> framed (fst a) (fst b) \<and> static_part (snd b) = static_part (snd a)
     \<and> dy_closed (dt_state (snd b)) = dy_closed (dt_state (snd a))
     \<and> (case r of
          Ok (key, lease) \<Rightarrow> ls_node lease = i \<and> scene_ok gs (add_mset lease M) xs b
            \<and> \<not> dy_closed (dt_state (snd a)) \<and> ck_index key < length (dy_subscribers (dt_state (snd a)))
            \<and> dy_subscribers (dt_state (snd a)) ! ck_index key = None
            \<and> dy_subscribers (dt_state (snd b)) = (dy_subscribers (dt_state (snd a)))[ck_index key := Some
                \<lparr>dc_id = ck_id key,
                 dc_next = (if dt_delivery (snd a) = Latest then length xs - 1 else length xs),
                 dc_role = role, dc_grant = i\<rparr>]
        | Err e \<Rightarrow> scene_ok gs M xs b \<and> dy_subscribers (dt_state (snd b)) = dy_subscribers (dt_state (snd a)))"

lemma dynamic_subscribe_ok:
  assumes ok: "scene_ok gs M xs (g, s)" and h: "handle g i"
    and role: "dt_delivery s = Latest \<Longrightarrow> role = Observer"
    and run: "dynamic_subscribe i event role (g, s) = (gs', r)"
  shows "subscribed gs M xs i role (g, s) gs' r"
proof -
  obtain g1 q where ch: "try_charge_stream i event (stream_limits_ZERO\<lparr>sl_subscriptions := 1\<rparr>) g = (g1, q)"
    by (cases "try_charge_stream i event (stream_limits_ZERO\<lparr>sl_subscriptions := 1\<rparr>) g")
  from scene_sound [OF ok] h ch show ?thesis
  proof (cases rule: try_charge_stream_sound)
    case (refused e ns)
    then show ?thesis using run ch ok by (auto simp: subscribed_def)
  next
    case (charged lease)
    have ok1: "scene_ok gs (add_mset lease M) xs (g1, s)"
      using charged(4) ok by (simp add: scene_ok_def stream_good_framed [OF charged(5)])
    have h1: "handle g1 i" using h framed_handle [OF charged(5)] by simp
    have back_off: "framed g (drop_lease lease (emit ns g1))" for ns
      using framed_trans [OF charged(5)] framed_trans [OF _ framed_drop_lease, of g1 "emit ns g1"] by simp
    obtain g2 p where en: "enter_mode i event (role_rights role) True g1 = (g2, p)"
      by (cases "enter_mode i event (role_rights role) True g1")
    from scene_sound [OF ok1] h1 en show ?thesis
    proof (cases rule: enter_mode_sound)
      case (refused e)
      then have "gs' = (drop_lease lease g1, s)" "r = Err e" using run ch charged(1) en by simp_all
      then show ?thesis using scene_ok_release [OF ok1] back_off [of "[]"] by (simp add: subscribed_def)
    next
      case (entered op)
      obtain st' dirty r' where ss: "subscribe_state (dt_delivery s) role i (dt_state s) = (st', dirty, r')"
        by (metis prod_cases3)
      obtain ns c d where dg: "drop_guard True dirty (g2, s\<lparr>dt_state := st'\<rparr>)
          = (emit ns g2, s\<lparr>dt_state := st'\<rparr>\<lparr>dt_contended := c, dt_deferred := d\<rparr>)"
        using drop_guard_exec by blast
      obtain ms where ms: "drop_operation op (emit ns g2) = emit ms g1" using entered(2) by blast
      let ?s = "s\<lparr>dt_state := st'\<rparr>\<lparr>dt_contended := c, dt_deferred := d\<rparr>"
      have run': "(gs', r) = (case r' of Err e \<Rightarrow> ((drop_lease lease (emit ms g1), ?s), Err e)
          | Ok key \<Rightarrow> ((emit ms g1, ?s), Ok (key, lease)))"
        using run ch charged(1) en entered(1) ss dg ms by (auto simp: Let_def split: result.splits)
      have len: "length xs = dy_tail (dt_state s)" using ok by (simp add: scene_ok_def stream_good_def window_def)
      from ss show ?thesis
      proof (cases rule: subscribe_state_cases)
        case (refused e)
        have "scene_ok gs (add_mset lease M) xs (emit ms g1, ?s)" using ok1 refused(2) by simp
        then show ?thesis using run' refused back_off [of ms]
          by (simp add: subscribed_def scene_ok_release)
      next
        case (joined k)
        have "scene_ok gs (add_mset lease M) xs (g1, s\<lparr>dt_state := st'\<rparr>)"
        proof (rule scene_ok_subscribers [OF ok1])
          let ?new = "\<lparr>dc_id = dy_next_cursor (dt_state s),
               dc_next = (if dt_delivery s = Latest then dy_tail (dt_state s) - 1 else dy_tail (dt_state s)),
               dc_role = role, dc_grant = i\<rparr>"
          fix cu assume "Some cu \<in> set (dy_subscribers st')"
          then have "Some cu \<in> set ((dy_subscribers (dt_state s))[k := Some ?new])" using joined(7) by simp
          then have "cu = ?new \<or> Some cu \<in> set (dy_subscribers (dt_state s))"
            using subsetD [OF set_update_subset_insert, of "Some cu"] by fastforce
          moreover have "cursor_fits g1 (dt_delivery s) st' ?new"
            using joined(7) role handle_range [OF h1] by (cases "dt_delivery s") (auto simp: cursor_fits_def)
          ultimately show "Some cu \<in> set (dy_subscribers (dt_state s)) \<or> cursor_fits g1 (dt_delivery s) st' cu"
            by blast
        qed (use joined in simp_all)
        then show ?thesis using run' joined charged(2,5) len by (simp add: subscribed_def)
      qed
    qed
  qed
qed

lemma drop_receiver_ok:
  assumes ok: "scene_ok gs (add_mset lease M) xs (g, s)" and run: "drop_receiver key lease (g, s) = gs'"
  shows "scene_ok gs M xs gs' \<and> framed g (fst gs') \<and> static_part (snd gs') = static_part s
    \<and> dy_closed (dt_state (snd gs')) = dy_closed (dt_state s)
    \<and> dy_subscribers (dt_state (snd gs')) = (dy_subscribers (dt_state s))[ck_index key := None]"
proof -
  let ?st = "if ck_index key < length (dy_subscribers (dt_state s))
    then dt_state s\<lparr>dy_subscribers := (dy_subscribers (dt_state s))[ck_index key := None]\<rparr> else dt_state s"
  have subs: "dy_subscribers ?st = (dy_subscribers (dt_state s))[ck_index key := None]"
    by (simp add: list_update_beyond)
  obtain g1 s1 where dg: "drop_guard True True (g, s\<lparr>dt_state := ?st\<rparr>) = (g1, s1)"
    by (cases "drop_guard True True (g, s\<lparr>dt_state := ?st\<rparr>)")
  have "scene_ok gs (add_mset lease M) xs (g, s\<lparr>dt_state := ?st\<rparr>)"
  proof (rule scene_ok_subscribers [OF ok])
    fix c assume "Some c \<in> set (dy_subscribers ?st)"
    then show "Some c \<in> set (dy_subscribers (dt_state s)) \<or> cursor_fits g (dt_delivery s) ?st c"
      unfolding subs using set_update_subset_insert [of "dy_subscribers (dt_state s)" "ck_index key" None] by auto
  qed (use ok in \<open>auto simp: scene_ok_def stream_good_def window_def split: if_splits\<close>)
  then have ok1: "scene_ok gs (add_mset lease M) xs (g1, s1)" using guard_unchanged(1) [OF dg] by simp
  obtain g2 s2 where rt: "retire_consumed (g1, s1) = (g2, s2)" by (cases "retire_consumed (g1, s1)")
  have ok2: "scene_ok gs (add_mset lease M) xs (g2, s2)" and t: "trims (g1, s1) (g2, s2)"
    using retire_consumed_ok [OF ok1] rt by simp_all
  have res: "gs' = (drop_lease lease g2, s2)" using run dg rt by (auto simp: Let_def split: if_splits)
  obtain ns where "g1 = emit ns g" using guard_unchanged(4) [OF dg] by blast
  then have "framed g (drop_lease lease g2)"
    using trimsD(1) [OF t] framed_trans [of g g1 g2] framed_trans [OF _ framed_drop_lease, of g g2] by simp
  moreover have "dt_state s1 = ?st" using guard_unchanged(3) [OF dg] by simp
  moreover have "static_part s1 = static_part s"
    using dg by (auto simp: drop_guard_eq)
  ultimately show ?thesis using res scene_ok_release [OF ok2] trimsD [OF t] subs by simp
qed

declare dynamic_subscribe.simps [simp del] drop_receiver.simps [simp del]

lemma dynamic_close_ok:
  assumes ok: "scene_ok gs M xs (g, s)" and run: "dynamic_close (g, s) = gs'"
  shows "scene_ok gs M xs gs' \<and> framed g (fst gs') \<and> static_part (snd gs') = static_part s
    \<and> dy_closed (dt_state (snd gs')) \<and> stream_leases (snd gs') = [dt_allocation s]"
proof -
  let ?st = "dt_state s\<lparr>dy_closed := True, dy_entries := [], dy_subscribers := [], dy_retired := None\<rparr>"
  let ?es = "map en_lease (dy_entries (dt_state s))"
  obtain g1 s1 where dg: "drop_guard True True (g, s\<lparr>dt_state := ?st\<rparr>) = (g1, s1)"
    by (cases "drop_guard True True (g, s\<lparr>dt_state := ?st\<rparr>)")
  have res: "gs' = (drop_entry (dy_retired (dt_state s)) (drop_leases ?es g1), s1)"
    using run dg by (simp add: Let_def)
  obtain ns where ns: "g1 = emit ns g" using guard_unchanged(4) [OF dg] by blast
  let ?rest = "case dy_retired (dt_state s) of None \<Rightarrow> [] | Some e \<Rightarrow> [en_lease e]"
  have ends: "drop_entry (dy_retired (dt_state s)) (drop_leases ?es g1) = drop_leases (?es @ ?rest) g1"
    by (cases "dy_retired (dt_state s)") (simp_all add: drop_leases_def)
  have "sound gs g1 (mset (?es @ ?rest) + add_mset (dt_allocation s) M)"
    using ok ns by (simp add: scene_ok_def stream_leases_def ac_simps)
  then have snd': "sound gs (drop_leases (?es @ ?rest) g1) (add_mset (dt_allocation s) M)"
    by (rule sound_drop_leases)
  have s1: "dt_state s1 = ?st" "static_part s1 = static_part s" "dt_allocation s1 = dt_allocation s"
    "dt_config s1 = dt_config s" "dt_delivery s1 = dt_delivery s"
    using dg by (auto simp: drop_guard_eq)
  have "stream_good h s1 xs" for h
    using ok s1 by (auto simp: scene_ok_def stream_good_def window_def)
  moreover have "stream_leases s1 = [dt_allocation s]" using s1 by (simp add: stream_leases_def)
  moreover have "framed g (drop_leases (?es @ ?rest) g1)"
    using framed_trans [OF _ framed_drop_leases, of g g1] ns by simp
  ultimately show ?thesis using res ends snd' s1 by (simp add: scene_ok_def)
qed

declare dynamic_close.simps [simp del]

end
