(* ===== verification/Hiway_Dynamic_Fabric.thy ===== *)
theory Hiway_Dynamic_Fabric
  imports Hiway_Dynamic_Invariant
begin

text \<open>
  \<open>DynamicFabric\<close> and the endpoints of \<open>hiway/src/alloc_local.rs\<close>: declaring and closing
  streams, deriving component grants, resolving endpoints, and the system as its clients drive
  it. A machine state holds the scope (the grant store and the declared streams) together with
  the handles clients own, and two ghosts: everything each stream admitted, and each receiver's
  position. The registry is a list in declaration order; a stream's place in it names its
  \<open>Notify\<close>. Allocation of a stream's storage is an input of \<open>create_stream\<close>.
\<close>

subsection \<open>The scope\<close>

record 't fabric =
  fb_store :: grants
  fb_streams :: "(event_id \<times> 't dynamic_stream) list"

fun event_position :: "event_id \<Rightarrow> (event_id \<times> 'x) list \<Rightarrow> nat option" where
  "event_position e [] = None"
| "event_position e (p # ps) = (if fst p = e then Some 0 else map_option Suc (event_position e ps))"

definition scene :: "nat \<Rightarrow> 't fabric \<Rightarrow> 't scene" where
  "scene k f = (fb_store f, snd (fb_streams f ! k))"

definition put_scene :: "nat \<Rightarrow> 't scene \<Rightarrow> 't fabric \<Rightarrow> 't fabric" where
  "put_scene k gs f = f\<lparr>fb_store := fst gs, fb_streams := (fb_streams f)[k := (fst (fb_streams f ! k), snd gs)]\<rparr>"

definition fabric_new :: "limits \<Rightarrow> ('t fabric, topic_error) result" where
  "fabric_new l =
     (case limits_validate l of
        Err e \<Rightarrow> Err e
      | Ok _ \<Rightarrow> Ok \<lparr>fb_store = gm_store (machine_new l), fb_streams = []\<rparr>)"

text \<open>The closure \<open>check_existing\<close> of \<open>create_stream\<close>; its lock is a temporary guard.\<close>

definition check_existing :: "dynamic_spec \<Rightarrow> stream_config \<Rightarrow> nat \<Rightarrow> 't fabric \<Rightarrow> 't fabric \<times> (unit, topic_error) result" where
  "check_existing spec config k f =
     (let s = snd (fb_streams f ! k) in
      if dt_payload s \<noteq> PAYLOAD spec then (f, Err (TopicError_TypeMismatch (ID spec)))
      else if dt_config s = config \<and> dt_wire_major s = WIRE_MAJOR spec \<and> dt_delivery s = DELIVERY spec
      then (let closed = dy_closed (dt_state s);
                f = put_scene k (drop_guard True False (scene k f)) f
            in (f, if \<not> closed then Ok () else Err TopicError_InvalidConfig))
      else (f, Err TopicError_InvalidConfig))"

definition stream_new :: "dynamic_spec \<Rightarrow> stream_config \<Rightarrow> nat \<Rightarrow> lease \<Rightarrow> 't dynamic_stream" where
  "stream_new spec config changed allocation =
     \<lparr>dt_config = config, dt_wire_major = WIRE_MAJOR spec, dt_delivery = DELIVERY spec,
      dt_payload = PAYLOAD spec,
      dt_state = \<lparr>dy_entries = [], dy_subscribers = replicate (cf_subscribers config) None, dy_tail = 0,
        dy_next_cursor = 0, dy_closed = False, dy_needs_room = False, dy_retired = None\<rparr>,
      dt_changed = changed, dt_contended = False, dt_deferred = False, dt_waiters = 0,
      dt_allocation = allocation, dt_busy = []\<rparr>"

text \<open>\<open>create_stream\<close>; \<open>memory\<close> says whether the allocator serves its reservations.\<close>

definition create_stream :: "bool \<Rightarrow> dynamic_spec \<Rightarrow> stream_config \<Rightarrow> 't fabric \<Rightarrow> 't fabric \<times> (unit, topic_error) result" where
  "create_stream memory spec config f =
     (let allowance = limits_ZERO\<lparr>li_streams := 1, li_retained_items := cf_capacity config,
            li_subscriptions := cf_subscribers config, li_waiters := cf_waiters config\<rparr>
      in case limits_validate allowance of
           Err e \<Rightarrow> (f, Err e)
         | Ok _ \<Rightarrow>
            if cf_capacity config = 0 \<or> (DELIVERY spec = Latest \<and> cf_capacity config \<noteq> 1)
            then (f, Err TopicError_InvalidConfig)
            else
             (case event_position (ID spec) (fb_streams f) of
                Some k \<Rightarrow> check_existing spec config k f
              | None \<Rightarrow>
                 (case try_charge 0 allowance (fb_store f) of
                    (g, Err e) \<Rightarrow> (f\<lparr>fb_store := g\<rparr>, Err e)
                  | (g, Ok allocation) \<Rightarrow>
                     if \<not> memory then (f\<lparr>fb_store := drop_lease allocation g\<rparr>, Err TopicError_Capacity)
                     else
                      (let changed = length (fb_streams f)
                       in (f\<lparr>fb_store := g\<lparr>gr_alive := gr_alive g @ [changed]\<rparr>,
                             fb_streams := fb_streams f @ [(ID spec, stream_new spec config changed allocation)]\<rparr>,
                           Ok ())))))"

text \<open>\<open>Grant::stream\<close>: authority, registry, payload type, declaration, notification slot.\<close>

definition grant_stream :: "nat \<Rightarrow> dynamic_spec \<Rightarrow> rights \<Rightarrow> 't fabric \<Rightarrow> 't fabric \<times> (nat, topic_error) result" where
  "grant_stream i spec right f =
     (case grant_check (fb_store f) i (ID spec) right of
        Err e \<Rightarrow> (f, Err e)
      | Ok _ \<Rightarrow>
        (case event_position (ID spec) (fb_streams f) of
           None \<Rightarrow> (f, Err TopicError_Denied)
         | Some k \<Rightarrow>
            (let s = snd (fb_streams f ! k) in
             if dt_payload s \<noteq> PAYLOAD spec then (f, Err (TopicError_TypeMismatch (ID spec)))
             else if dt_wire_major s \<noteq> WIRE_MAJOR spec \<or> dt_delivery s \<noteq> DELIVERY spec
             then (f, Err TopicError_InvalidConfig)
             else (case register_stream i (ID spec) (dt_changed s) (fb_store f) of
                     (g, Err e) \<Rightarrow> (f\<lparr>fb_store := g\<rparr>, Err e)
                   | (g, Ok _) \<Rightarrow> (f\<lparr>fb_store := g\<rparr>, Ok k)))))"

definition close_stream :: "dynamic_spec \<Rightarrow> 't fabric \<Rightarrow> 't fabric \<times> (unit, topic_error) result" where
  "close_stream spec f =
     (case grant_stream 0 spec Rights_PUBLISH f of
        (f, Err e) \<Rightarrow> (f, Err e)
      | (f, Ok k) \<Rightarrow> (put_scene k (dynamic_close (scene k f)) f, Ok ()))"

definition fabric_grant :: "permission list \<Rightarrow> limits \<Rightarrow> 't fabric \<Rightarrow> 't fabric \<times> (nat, topic_error) result" where
  "fabric_grant permissions l f =
     (if list_ex (\<lambda>p. event_position (pm_event p) (fb_streams f) = None) permissions
      then (f, Err TopicError_Denied)
      else (case grant_restrict 0 permissions l (fb_store f) of (g, r) \<Rightarrow> (f\<lparr>fb_store := g\<rparr>, r)))"

definition fabric_usage :: "'t fabric \<Rightarrow> limits" where
  "fabric_usage f = grant_usage (fb_store f) 0"

text \<open>\<open>maintain_tree\<close> notifies the live descendants in breadth-first order, walking a list that grows
  while it is walked; the number of nodes is enough fuel (\<open>maintain_tree_complete\<close>).\<close>

fun maintain_walk :: "nat \<Rightarrow> grants \<Rightarrow> nat list \<Rightarrow> nat \<Rightarrow> grants" where
  "maintain_walk 0 s nodes index = s"
| "maintain_walk (Suc fuel) s nodes index =
     (if index < length nodes
      then (let i = nodes ! index; s = emit [Changed i] s
            in maintain_walk fuel s (nodes @ filter (\<lambda>c. \<not> gn_dropped (node s c)) (gn_children (node s i)))
                 (index + 1))
      else s)"

definition maintain_tree :: "nat \<Rightarrow> grants \<Rightarrow> grants" where
  "maintain_tree i s = maintain_walk (length (gr_nodes s)) s [i] 0"

lemma emit_twice: "emit ms (emit ns s) = emit (ns @ ms) s"
  by (simp add: emit_def)

lemma maintain_walk_emits: "\<exists>ns. maintain_walk fuel s nodes index = emit ns s"
proof (induction fuel arbitrary: s nodes index)
  case 0
  show ?case by (rule exI [of _ "[]"]) (simp add: emit_def)
next
  case (Suc fuel)
  show ?case
  proof (cases "index < length nodes")
    case True
    then show ?thesis
      using Suc.IH [of "emit [Changed (nodes ! index)] s"] by (fastforce simp: Let_def emit_twice)
  next
    case False
    then show ?thesis by (intro exI [of _ "[]"]) (simp add: emit_def)
  qed
qed

lemma maintain_tree_emits: "\<exists>ns. maintain_tree i s = emit ns s"
  unfolding maintain_tree_def by (rule maintain_walk_emits)

fun maintain_streams :: "nat list \<Rightarrow> 't fabric \<Rightarrow> 't fabric" where
  "maintain_streams [] f = f"
| "maintain_streams (k # ks) f = maintain_streams ks (put_scene k (dynamic_maintain (scene k f)) f)"

definition fabric_maintain :: "'t fabric \<Rightarrow> 't fabric" where
  "fabric_maintain f =
     (let f = maintain_streams [0..<length (fb_streams f)] f
      in f\<lparr>fb_store := maintain_tree 0 (fb_store f)\<rparr>)"

subsection \<open>Endpoints\<close>

record dynamic_sender =
  sd_stream :: nat
  sd_grant :: nat

record receiver_inner =
  rc_stream :: nat
  rc_grant :: nat
  rc_key :: cursor_key
  rc_lease :: lease

record 't prepared =
  pp_sender :: dynamic_sender
  pp_value :: 't
  pp_lease :: lease

abbreviation stream_event :: "'t fabric \<Rightarrow> nat \<Rightarrow> event_id" where
  "stream_event f k \<equiv> fst (fb_streams f ! k)"

definition grant_sender :: "nat \<Rightarrow> dynamic_spec \<Rightarrow> 't fabric \<Rightarrow> 't fabric \<times> (dynamic_sender, topic_error) result" where
  "grant_sender i spec f =
     (case grant_stream i spec Rights_PUBLISH f of
        (f, Err e) \<Rightarrow> (f, Err e)
      | (f, Ok k) \<Rightarrow>
          (let required = (if DELIVERY spec = Latest then 2 else 1) in
           case grant_stream_limits (fb_store f) i (ID spec) of
             Err e \<Rightarrow> (f, Err e)
           | Ok l \<Rightarrow>
               if sl_retained_items l < required then (f, Err TopicError_Capacity)
               else (f, Ok \<lparr>sd_stream = k, sd_grant = i\<rparr>)))"

definition grant_subscribe :: "nat \<Rightarrow> dynamic_spec \<Rightarrow> subscription_role \<Rightarrow> 't fabric
    \<Rightarrow> 't fabric \<times> (receiver_inner, topic_error) result" where
  "grant_subscribe i spec role f =
     (if DELIVERY spec = Latest \<and> role = Required then (f, Err TopicError_InvalidConfig)
      else
       (case grant_stream i spec (role_rights role) f of
          (f, Err e) \<Rightarrow> (f, Err e)
        | (f, Ok k) \<Rightarrow>
           (case dynamic_subscribe i (ID spec) role (scene k f) of
              (gs, Err e) \<Rightarrow> (put_scene k gs f, Err e)
            | (gs, Ok (key, lease)) \<Rightarrow>
                (put_scene k gs f, Ok \<lparr>rc_stream = k, rc_grant = i, rc_key = key, rc_lease = lease\<rparr>))))"

definition sender_send_now :: "dynamic_sender \<Rightarrow> 't \<Rightarrow> 't fabric \<Rightarrow> 't fabric \<times> (unit, 't try_send_error) result" where
  "sender_send_now sd v f =
     (let k = sd_stream sd in
      case dynamic_send_now (sd_grant sd) (stream_event f k) v (scene k f) of
        (gs, r) \<Rightarrow> (put_scene k gs f, r))"

definition sender_prepare :: "dynamic_sender \<Rightarrow> 't \<Rightarrow> 't fabric \<Rightarrow> 't fabric \<times> ('t prepared, 't try_send_error) result" where
  "sender_prepare sd v f =
     (let k = sd_stream sd in
      case dynamic_reserve (sd_grant sd) (stream_event f k) v (scene k f) of
        (gs, Err e) \<Rightarrow> (put_scene k gs f, Err e)
      | (gs, Ok (v, lease)) \<Rightarrow>
          (put_scene k gs f, Ok \<lparr>pp_sender = sd, pp_value = v, pp_lease = lease\<rparr>))"

definition prepared_try_send :: "'t prepared \<Rightarrow> 't fabric \<Rightarrow> 't fabric \<times> (unit, 't prepared try_send_error) result" where
  "prepared_try_send p f =
     (let sd = pp_sender p; k = sd_stream sd in
      case dynamic_commit (sd_grant sd) (stream_event f k) (pp_value p) (pp_lease p) True (scene k f) of
        (gs, Ok _) \<Rightarrow> (put_scene k gs f, Ok ())
      | (gs, Err e) \<Rightarrow>
          (put_scene k gs f,
           Err (try_send_map (\<lambda>(v, lease). \<lparr>pp_sender = sd, pp_value = v, pp_lease = lease\<rparr>) e)))"

definition prepared_into_inner :: "'t prepared \<Rightarrow> 't fabric \<Rightarrow> 't fabric \<times> 't" where
  "prepared_into_inner p f = (f\<lparr>fb_store := drop_lease (pp_lease p) (fb_store f)\<rparr>, pp_value p)"

definition receiver_try_recv :: "receiver_inner \<Rightarrow> 't fabric \<Rightarrow> 't fabric \<times> ('t stream_item option, receive_error) result" where
  "receiver_try_recv rc f =
     (let k = rc_stream rc in
      case dynamic_try_recv (rc_grant rc) (stream_event f k) (rc_key rc) (scene k f) of
        (gs, r) \<Rightarrow> (put_scene k gs f, r))"

definition receiver_recv_now :: "receiver_inner \<Rightarrow> 't fabric \<Rightarrow> 't fabric \<times> ('t stream_item option, receive_error) result" where
  "receiver_recv_now rc f =
     (let k = rc_stream rc in
      case dynamic_recv_now (rc_grant rc) (stream_event f k) (rc_key rc) (scene k f) of
        (gs, r) \<Rightarrow> (put_scene k gs f, r))"

definition receiver_drop :: "receiver_inner \<Rightarrow> 't fabric \<Rightarrow> 't fabric" where
  "receiver_drop rc f =
     put_scene (rc_stream rc) (drop_receiver (rc_key rc) (rc_lease rc) (scene (rc_stream rc) f)) f"

subsection \<open>The system and its clients\<close>

record 't dynamic_machine =
  dm_fabric :: "'t fabric"
  dm_held :: "lease list"
  dm_guards :: "operation_guard list"
  dm_senders :: "dynamic_sender list"
  dm_receivers :: "receiver_inner option list"
  dm_prepared :: "'t prepared list"
  dm_logs :: "'t list list"
  dm_positions :: "(nat \<times> subscription_role) list"

datatype 't dynamic_call =
    Create bool dynamic_spec stream_config
  | Close_stream dynamic_spec
  | Fabric_grant "permission list" limits
  | Fabric_maintain
  | Open_sender nat dynamic_spec
  | Open_receiver nat dynamic_spec subscription_role
  | Send_now dynamic_sender 't
  | Prepare dynamic_sender 't
  | Try_send "'t prepared"
  | Into_inner "'t prepared"
  | Try_recv nat
  | Recv_now nat
  | Drop_receiver nat
  | Contend nat "bool list"
  | Grants grant_call

datatype 't dynamic_out =
    Ran "(unit, topic_error) result"
  | Granted "(nat, topic_error) result"
  | Opened_sender "(dynamic_sender, topic_error) result"
  | Opened_receiver "(receiver_inner, topic_error) result"
  | Sent_now "(unit, 't try_send_error) result"
  | Prepared "('t prepared, 't try_send_error) result"
  | Sent_prepared "(unit, 't prepared try_send_error) result"
  | Item "('t stream_item option, receive_error) result"
  | Payload 't
  | Grant_out grant_out
  | Quiet

text \<open>Every lease the scope and its endpoints hold.\<close>

definition fabric_leases :: "'t dynamic_machine \<Rightarrow> lease list" where
  "fabric_leases m = concat (map (stream_leases \<circ> snd) (fb_streams (dm_fabric m)))
     @ concat (map (\<lambda>r. case r of None \<Rightarrow> [] | Some rc \<Rightarrow> [rc_lease rc]) (dm_receivers m))
     @ map pp_lease (dm_prepared m)"

text \<open>The same system as a grant machine: all leases first the scope's, then the ones held
  elsewhere.\<close>

definition grant_view :: "'t dynamic_machine \<Rightarrow> grant_machine" where
  "grant_view m = \<lparr>gm_store = fb_store (dm_fabric m), gm_leases = fabric_leases m @ dm_held m,
     gm_guards = dm_guards m\<rparr>"

definition with_fabric :: "'t fabric \<Rightarrow> 't dynamic_machine \<Rightarrow> 't dynamic_machine" where
  "with_fabric f m = m\<lparr>dm_fabric := f\<rparr>"

text \<open>Calls on the grant tree by holders of grants, leases and guards outside the scope. An endpoint
  keeps its grant alive.\<close>

fun grant_allowed :: "'t dynamic_machine \<Rightarrow> grant_call \<Rightarrow> bool" where
  "grant_allowed m (Drop_handle i) =
     (i \<noteq> 0 \<and> list_all (\<lambda>sd. sd_grant sd \<noteq> i) (dm_senders m @ map pp_sender (dm_prepared m))
      \<and> list_all (\<lambda>r. case r of None \<Rightarrow> True | Some rc \<Rightarrow> rc_grant rc \<noteq> i) (dm_receivers m))"
| "grant_allowed m _ = True"

fun shift_call :: "nat \<Rightarrow> grant_call \<Rightarrow> grant_call" where
  "shift_call n (Release k) = Release (n + k)"
| "shift_call n c = c"

definition grants_step :: "'t dynamic_machine \<Rightarrow> grant_call \<Rightarrow> 't dynamic_machine \<times> 't dynamic_out" where
  "grants_step m c =
     (if grant_allowed m c
      then (let n = length (fabric_leases m) in
            case grant_step (grant_view m) (shift_call n c) of
              (v, out) \<Rightarrow>
                (m\<lparr>dm_fabric := (dm_fabric m)\<lparr>fb_store := gm_store v\<rparr>, dm_held := drop n (gm_leases v),
                   dm_guards := gm_guards v\<rparr>, Grant_out out))
      else (m, Quiet))"

definition log_value :: "nat \<Rightarrow> 't \<Rightarrow> 't dynamic_machine \<Rightarrow> 't dynamic_machine" where
  "log_value k v m = m\<lparr>dm_logs := (dm_logs m)[k := dm_logs m ! k @ [v]]\<rparr>"

definition live_receiver :: "'t dynamic_machine \<Rightarrow> nat \<Rightarrow> receiver_inner option" where
  "live_receiver m n = (if n < length (dm_receivers m) then dm_receivers m ! n else None)"

definition note_item :: "nat \<Rightarrow> ('t stream_item option, receive_error) result \<Rightarrow> 't dynamic_machine \<Rightarrow> 't dynamic_machine" where
  "note_item n r m =
     (case r of
        Ok (Some it) \<Rightarrow> m\<lparr>dm_positions := (dm_positions m)[n := (item_end it, snd (dm_positions m ! n))]\<rparr>
      | _ \<Rightarrow> m)"

fun dynamic_step :: "'t dynamic_machine \<Rightarrow> 't dynamic_call \<Rightarrow> 't dynamic_machine \<times> 't dynamic_out" where
  "dynamic_step m (Create memory spec config) =
     (case create_stream memory spec config (dm_fabric m) of
        (f, r) \<Rightarrow> ((with_fabric f m)\<lparr>dm_logs := dm_logs m
            @ replicate (length (fb_streams f) - length (fb_streams (dm_fabric m))) []\<rparr>, Ran r))"
| "dynamic_step m (Close_stream spec) =
     (case close_stream spec (dm_fabric m) of (f, r) \<Rightarrow> (with_fabric f m, Ran r))"
| "dynamic_step m (Fabric_grant permissions l) =
     (case fabric_grant permissions l (dm_fabric m) of (f, r) \<Rightarrow> (with_fabric f m, Granted r))"
| "dynamic_step m Fabric_maintain = (with_fabric (fabric_maintain (dm_fabric m)) m, Quiet)"
| "dynamic_step m (Open_sender i spec) =
     (if handle (fb_store (dm_fabric m)) i
      then (case grant_sender i spec (dm_fabric m) of
              (f, r) \<Rightarrow>
                ((with_fabric f m)\<lparr>dm_senders := dm_senders m @ (case r of Ok sd \<Rightarrow> [sd] | Err _ \<Rightarrow> [])\<rparr>,
                 Opened_sender r))
      else (m, Quiet))"
| "dynamic_step m (Open_receiver i spec role) =
     (if handle (fb_store (dm_fabric m)) i
      then (case grant_subscribe i spec role (dm_fabric m) of
              (f, Ok rc) \<Rightarrow>
                ((with_fabric f m)\<lparr>dm_receivers := dm_receivers m @ [Some rc],
                   dm_positions := dm_positions m @ [(let n = length (dm_logs m ! rc_stream rc)
                      in if DELIVERY spec = Latest then n - 1 else n, role)]\<rparr>, Opened_receiver (Ok rc))
            | (f, Err e) \<Rightarrow> (with_fabric f m, Opened_receiver (Err e)))
      else (m, Quiet))"
| "dynamic_step m (Send_now sd v) =
     (if sd \<in> set (dm_senders m)
      then (case sender_send_now sd v (dm_fabric m) of
              (f, r) \<Rightarrow> (if is_ok r then log_value (sd_stream sd) v (with_fabric f m) else with_fabric f m, Sent_now r))
      else (m, Quiet))"
| "dynamic_step m (Prepare sd v) =
     (if sd \<in> set (dm_senders m)
      then (case sender_prepare sd v (dm_fabric m) of
              (f, r) \<Rightarrow>
                ((with_fabric f m)\<lparr>dm_prepared := dm_prepared m @ (case r of Ok p \<Rightarrow> [p] | Err _ \<Rightarrow> [])\<rparr>,
                 Prepared r))
      else (m, Quiet))"
| "dynamic_step m (Try_send p) =
     (if p \<in> set (dm_prepared m)
      then (case prepared_try_send p (dm_fabric m) of
              (f, r) \<Rightarrow>
                (if is_ok r
                 then log_value (sd_stream (pp_sender p)) (pp_value p)
                        ((with_fabric f m)\<lparr>dm_prepared := remove1 p (dm_prepared m)\<rparr>)
                 else with_fabric f m, Sent_prepared r))
      else (m, Quiet))"
| "dynamic_step m (Into_inner p) =
     (if p \<in> set (dm_prepared m)
      then (case prepared_into_inner p (dm_fabric m) of
              (f, v) \<Rightarrow> ((with_fabric f m)\<lparr>dm_prepared := remove1 p (dm_prepared m)\<rparr>, Payload v))
      else (m, Quiet))"
| "dynamic_step m (Try_recv n) =
     (case live_receiver m n of
        None \<Rightarrow> (m, Quiet)
      | Some rc \<Rightarrow>
         (case receiver_try_recv rc (dm_fabric m) of (f, r) \<Rightarrow> (note_item n r (with_fabric f m), Item r)))"
| "dynamic_step m (Recv_now n) =
     (case live_receiver m n of
        None \<Rightarrow> (m, Quiet)
      | Some rc \<Rightarrow>
         (case receiver_recv_now rc (dm_fabric m) of (f, r) \<Rightarrow> (note_item n r (with_fabric f m), Item r)))"
| "dynamic_step m (Drop_receiver n) =
     (case live_receiver m n of
        None \<Rightarrow> (m, Quiet)
      | Some rc \<Rightarrow>
         ((with_fabric (receiver_drop rc (dm_fabric m)) m)\<lparr>dm_receivers := (dm_receivers m)[n := None]\<rparr>, Quiet))"
| "dynamic_step m (Contend k bs) =
     (if k < length (fb_streams (dm_fabric m))
      then (with_fabric (put_scene k (fb_store (dm_fabric m),
               (snd (scene k (dm_fabric m)))\<lparr>dt_busy := bs\<rparr>) (dm_fabric m)) m, Quiet)
      else (m, Quiet))"
| "dynamic_step m (Grants c) = grants_step m c"

definition dynamic_machine_new :: "'t fabric \<Rightarrow> 't dynamic_machine" where
  "dynamic_machine_new f = \<lparr>dm_fabric = f, dm_held = [], dm_guards = [], dm_senders = [], dm_receivers = [],
     dm_prepared = [], dm_logs = [], dm_positions = []\<rparr>"

end
