(* ===== verification/Hiway_Dynamic_Machine.thy ===== *)
theory Hiway_Dynamic_Machine
  imports Hiway_Dynamic_Fabric
begin

text \<open>
  The invariant of the whole dynamic fabric and its preservation by every call: the grant tree
  accounts for every lease held by streams, receivers, preparations and outside holders; every
  stream is a window of its log; every live receiver's cursor is the one in the stream's table.
  The theory ends with the interpretation of \<open>event_stream\<close>, one per declared stream.
\<close>

subsection \<open>Steps of the grant tree that keep authority\<close>

definition alike :: "grants \<Rightarrow> grants \<Rightarrow> bool" where
  "alike g g' \<longleftrightarrow> length (gr_nodes g') = length (gr_nodes g)
     \<and> (\<forall>i. is_revoked g' i = is_revoked g i) \<and> (\<forall>i. handle g' i = handle g i)"

lemma alike_refl [simp]: "alike g g"
  by (simp add: alike_def)

lemma alike_trans: "alike a b \<Longrightarrow> alike b c \<Longrightarrow> alike a c"
  by (simp add: alike_def)

lemma framed_alike: "framed g g' \<Longrightarrow> alike g g'"
  by (simp add: alike_def framedD(1) framed_is_revoked framed_handle)

lemma stream_good_alike: "alike g g' \<Longrightarrow> stream_good g' s xs = stream_good g s xs"
  by (simp add: stream_good_def cursor_fits_def alike_def)

text \<open>Authority that only shrinks keeps a stream good.\<close>

lemma stream_good_shrink:
  assumes "stream_good g s xs" and "length (gr_nodes g) \<le> length (gr_nodes g')"
    and "\<And>i. i < length (gr_nodes g) \<Longrightarrow> is_revoked g i \<Longrightarrow> is_revoked g' i"
  shows "stream_good g' s xs"
  using assms by (fastforce simp: stream_good_def cursor_fits_def)

lemma update_streams_revoked: "is_revoked (update_node i (\<lambda>n. n\<lparr>gn_streams := w\<rparr>) g) j = is_revoked g j"
  by (rule is_revoked_update) simp_all

lemma update_streams_handle: "handle (update_node i (\<lambda>n. n\<lparr>gn_streams := w\<rparr>) g) j = handle g j"
  by (rule handle_update) simp

lemma register_stream_keeps:
  assumes "register_stream i event notify g = (g', r)"
  shows "alike g g'" and "sound gs g' M = sound gs g M"
proof -
  from register_stream_exec [OF assms] show "alike g g'" "sound gs g' M = sound gs g M"
    by (elim disjE exE; simp add: alike_def update_streams_revoked update_streams_handle sound_def update_streams_frame)+
qed

lemma alive_keeps [simp]:
  "is_revoked (g\<lparr>gr_alive := a\<rparr>) i = is_revoked g i" "handle (g\<lparr>gr_alive := a\<rparr>) i = handle g i"
  "sound gs (g\<lparr>gr_alive := a\<rparr>) M = sound gs g M"
proof -
  have "revoked_walk n (g\<lparr>gr_alive := a\<rparr>) i = revoked_walk n g i" for n
    by (rule revoked_walk_cong) simp_all
  then show "is_revoked (g\<lparr>gr_alive := a\<rparr>) i = is_revoked g i" by (simp add: is_revoked_def)
  show "handle (g\<lparr>gr_alive := a\<rparr>) i = handle g i" by (simp add: handle_def)
  have "grants_ok (g\<lparr>gr_alive := a\<rparr>) N = grants_ok g N" for N
    by (simp add: grants_ok_def essences_def lease_ok_def accounts_def)
  then show "sound gs (g\<lparr>gr_alive := a\<rparr>) M = sound gs g M"
    by (simp add: sound_def live_leases_def guards_ok_def handle_def)
qed

lemma alive_alike [simp]: "alike g (g\<lparr>gr_alive := a\<rparr>)"
  by (simp add: alike_def)

lemma try_charge_sound:
  assumes "sound gs g M" and "handle g i" and run: "try_charge i usage g = (g', r)"
  obtains (charged) l where "r = Ok l" "sound gs g' (add_mset l M)" "framed g g'"
    | (refused) e ns where "r = Err e" "g' = emit ns g"
proof -
  have g: "grants_ok g (M + mset (live_leases g))" and gu: "guards_ok g gs" using assms(1) by (auto simp: sound_def)
  note h = handle_range [OF assms(2)]
  have v: "valid_pool (node g i) None" by simp
  from g conjunct1 [OF h] conjunct2 [OF h] v run [unfolded try_charge_def] show thesis
  proof (cases rule: grant_charge_cases)
    case (charged l)
    have "sound gs g' (add_mset l M)"
      using charged(3) gu by (simp add: sound_def framed_live_leases [OF charged(4)] framed_guards_ok [OF charged(4)])
    then show thesis using that(1) charged by simp
  next
    case revoked
    then show thesis using that(2) emit_Nil by metis
  next
    case (refused k ns)
    then show thesis using that(2) by blast
  qed
qed

text \<open>A call of a grant holder keeps every handle but the one it drops, and the leases before its
  own.\<close>

lemma grant_step_leases:
  assumes "\<And>k. c = Release k \<Longrightarrow> n \<le> k" and "n \<le> length (gm_leases v)"
  shows "take n (gm_leases (fst (grant_step v c))) = take n (gm_leases v)"
proof (cases c)
  case (Charge i usage)
  then show ?thesis using assms(2)
    by (cases "try_charge i usage (gm_store v)"; cases "snd (try_charge i usage (gm_store v))") auto
next
  case (Charge_stream i event usage)
  then show ?thesis using assms(2)
    by (cases "try_charge_stream i event usage (gm_store v)";
        cases "snd (try_charge_stream i event usage (gm_store v))") auto
next
  case (Enter i event right notify)
  then show ?thesis
    by (cases "enter_mode i event right notify (gm_store v)";
        cases "snd (enter_mode i event right notify (gm_store v))") auto
next
  case (Release k)
  then show ?thesis using assms by (simp add: remove_at_def)
qed (auto split: prod.splits)

lemma grant_step_handle:
  assumes ok: "machine_ok v" and h: "handle (gm_store v) j" and c: "c \<noteq> Drop_handle j"
  shows "handle (gm_store (fst (grant_step v c))) j"
proof -
  let ?s = "gm_store v"
  have g: "grants_ok ?s (all_leases v)" and gu: "guards_ok ?s (gm_guards v)"
    using ok by (auto simp: machine_ok_def)
  have sd: "sound (gm_guards v) ?s (mset (gm_leases v))" using ok by (simp add: machine_ok_sound)
  show ?thesis
  proof (cases c)
    case (Charge i usage)
    show ?thesis
    proof (cases "handle ?s i")
      case True
      obtain t r where run: "try_charge i usage ?s = (t, r)" by (cases "try_charge i usage ?s")
      from sd True run show ?thesis
        by (cases rule: try_charge_sound) (use Charge True run h in \<open>simp_all add: framed_handle\<close>)
    qed (use Charge h in simp)
  next
    case (Charge_stream i event usage)
    show ?thesis
    proof (cases "handle ?s i")
      case True
      obtain t r where run: "try_charge_stream i event usage ?s = (t, r)" by (cases "try_charge_stream i event usage ?s")
      from sd True run show ?thesis
        by (cases rule: try_charge_stream_sound) (use Charge_stream True run h in \<open>simp_all add: framed_handle\<close>)
    qed (use Charge_stream h in simp)
  next
    case (Release k)
    then show ?thesis using h framed_handle [OF framed_drop_lease] by simp
  next
    case (Restrict i ps l)
    show ?thesis
    proof (cases "handle ?s i")
      case True
      obtain t r where run: "grant_restrict i ps l ?s = (t, r)" by (cases "grant_restrict i ps l ?s")
      note hr = handle_range [OF True]
      from g conjunct1 [OF hr] conjunct2 [OF hr] run show ?thesis
      proof (cases rule: grant_restrict_cases)
        case (derived lease events generic s1 cs)
        have h1: "handle s1 j" using h framed_handle [OF derived(2)] by simp
        have "handle (add_node (child_of l generic ps lease events) s1) j"
          using h1 by (auto simp: handle_def node_add_node)
        then have "handle t j" unfolding derived(3) by (simp add: handle_update)
        then show ?thesis using Restrict True run by simp
      next
        case (refused e)
        then show ?thesis using Restrict True run h framed_handle by simp
      qed
    qed (use Restrict h in simp)
  next
    case (Enter i event right notify)
    show ?thesis
    proof (cases "handle ?s i")
      case True
      obtain t r where run: "enter_mode i event right notify ?s = (t, r)" by (cases "enter_mode i event right notify ?s")
      from gu True run show ?thesis
        by (cases rule: enter_mode_cases) (use Enter True run h in \<open>simp_all add: update_state_frame\<close>)
    qed (use Enter h in simp)
  next
    case (Leave k)
    then show ?thesis using h drop_operation_exec [of "gm_guards v ! k" ?s] by (auto simp: update_state_frame)
  next
    case (Register_stream i event notify)
    obtain t r where run: "register_stream i event notify ?s = (t, r)" by (cases "register_stream i event notify ?s")
    then show ?thesis using Register_stream h register_stream_keeps(1) [OF run] by (simp add: alike_def)
  next
    case (Maintain i)
    then show ?thesis using h by (simp add: maintain_operations_def)
  next
    case (Mark i)
    then show ?thesis using h revoke_mark_exec [of i ?s] by (auto simp: update_state_frame)
  next
    case (Drop_handle i)
    then have "i \<noteq> j" using c by simp
    then have "handle (update_node i (\<lambda>n. n\<lparr>gn_dropped := True\<rparr>) ?s) j"
      using h by (auto simp: handle_def node_update_node)
    then show ?thesis using Drop_handle h framed_handle [OF framed_drop_leases] by (simp add: drop_node_def)
  qed
qed

subsection \<open>The invariant of the system\<close>

definition cursor_at :: "'t dynamic_state \<Rightarrow> nat \<Rightarrow> dyn_cursor option" where
  "cursor_at st k = (if k < length (dy_subscribers st) then dy_subscribers st ! k else None)"

abbreviation state_of :: "'t dynamic_machine \<Rightarrow> nat \<Rightarrow> 't dynamic_state" where
  "state_of m k \<equiv> dt_state (snd (fb_streams (dm_fabric m) ! k))"

abbreviation stream_count :: "'t dynamic_machine \<Rightarrow> nat" where
  "stream_count m \<equiv> length (fb_streams (dm_fabric m))"

abbreviation store_of :: "'t dynamic_machine \<Rightarrow> grants" where
  "store_of m \<equiv> fb_store (dm_fabric m)"

definition receiver_fits :: "'t dynamic_machine \<Rightarrow> receiver_inner \<Rightarrow> nat \<times> subscription_role \<Rightarrow> bool" where
  "receiver_fits m rc p \<longleftrightarrow>
     rc_stream rc < stream_count m \<and> handle (store_of m) (rc_grant rc)
     \<and> fst p \<le> length (dm_logs m ! rc_stream rc)
     \<and> (dy_closed (state_of m (rc_stream rc))
        \<or> cursor_at (state_of m (rc_stream rc)) (ck_index (rc_key rc)) =
            Some \<lparr>dc_id = ck_id (rc_key rc), dc_next = fst p, dc_role = snd p, dc_grant = rc_grant rc\<rparr>)"

definition streams_ok :: "'t dynamic_machine \<Rightarrow> bool" where
  "streams_ok m \<longleftrightarrow> handle (store_of m) 0 \<and> length (dm_logs m) = stream_count m
     \<and> (\<forall>k < stream_count m. stream_good (store_of m) (snd (fb_streams (dm_fabric m) ! k)) (dm_logs m ! k))"

definition sender_fits :: "'t dynamic_machine \<Rightarrow> dynamic_sender \<Rightarrow> bool" where
  "sender_fits m sd \<longleftrightarrow> sd_stream sd < stream_count m \<and> handle (store_of m) (sd_grant sd)"

definition clients_ok :: "'t dynamic_machine \<Rightarrow> bool" where
  "clients_ok m \<longleftrightarrow>
     (\<forall>sd \<in> set (dm_senders m) \<union> pp_sender ` set (dm_prepared m). sender_fits m sd)
     \<and> length (dm_positions m) = length (dm_receivers m)
     \<and> (\<forall>n rc. live_receiver m n = Some rc \<longrightarrow> receiver_fits m rc (dm_positions m ! n))
     \<and> (\<forall>n n' rc rc'. live_receiver m n = Some rc \<and> live_receiver m n' = Some rc' \<and> n \<noteq> n'
          \<and> rc_stream rc = rc_stream rc' \<and> \<not> dy_closed (state_of m (rc_stream rc))
          \<longrightarrow> ck_index (rc_key rc) \<noteq> ck_index (rc_key rc'))"

definition dynamic_ok :: "'t dynamic_machine \<Rightarrow> bool" where
  "dynamic_ok m \<longleftrightarrow> machine_ok (grant_view m) \<and> streams_ok m \<and> clients_ok m"

text \<open>Handles and tables that survive a step.\<close>

lemma clients_keep:
  assumes ok: "clients_ok m"
    and clients: "set (dm_senders m') \<union> pp_sender ` set (dm_prepared m')
        \<subseteq> set (dm_senders m) \<union> pp_sender ` set (dm_prepared m)"
      "dm_receivers m' = dm_receivers m" "dm_positions m' = dm_positions m"
    and more: "stream_count m \<le> stream_count m'"
    and handles: "\<And>i. i \<in> sd_grant ` (set (dm_senders m) \<union> pp_sender ` set (dm_prepared m))
          \<union> {rc_grant rc | rc. Some rc \<in> set (dm_receivers m)} \<Longrightarrow>
        handle (store_of m) i \<Longrightarrow> handle (store_of m') i"
    and logs: "\<And>k. k < stream_count m \<Longrightarrow> length (dm_logs m ! k) \<le> length (dm_logs m' ! k)"
    and tables: "\<And>k. k < stream_count m \<Longrightarrow> dy_closed (state_of m' k)
        \<or> dy_closed (state_of m' k) = dy_closed (state_of m k)
          \<and> dy_subscribers (state_of m' k) = dy_subscribers (state_of m k)"
  shows "clients_ok m'"
proof -
  have live: "live_receiver m' n = live_receiver m n" for n using clients by (simp add: live_receiver_def)
  have mem: "Some rc \<in> set (dm_receivers m)" if "live_receiver m n = Some rc" for n rc
    using that by (auto simp: live_receiver_def in_set_conv_nth split: if_splits)
  have "receiver_fits m' rc p" if "receiver_fits m rc p" "live_receiver m n = Some rc" for rc p n
  proof -
    have k: "rc_stream rc < stream_count m" and h: "handle (store_of m) (rc_grant rc)"
      and f: "fst p \<le> length (dm_logs m ! rc_stream rc)" using that(1) by (simp_all add: receiver_fits_def)
    have "rc_grant rc \<in> {rc_grant rc | rc. Some rc \<in> set (dm_receivers m)}" using mem [OF that(2)] by blast
    then have "handle (store_of m') (rc_grant rc)" using handles h by blast
    then show ?thesis using that(1) tables [OF k] more k logs [OF k] f
      by (auto simp: receiver_fits_def cursor_at_def)
  qed
  moreover have "sender_fits m' sd" if "sd \<in> set (dm_senders m') \<union> pp_sender ` set (dm_prepared m')" for sd
  proof -
    have sd: "sd \<in> set (dm_senders m) \<union> pp_sender ` set (dm_prepared m)" using that clients(1) by blast
    then have "sender_fits m sd" using ok by (simp add: clients_ok_def)
    moreover have "handle (store_of m') (sd_grant sd)"
      using handles [of "sd_grant sd"] sd \<open>sender_fits m sd\<close> by (auto simp: sender_fits_def)
    ultimately show ?thesis using more by (simp add: sender_fits_def)
  qed
  moreover have "\<not> dy_closed (state_of m (rc_stream rc))"
    if "live_receiver m n = Some rc" "\<not> dy_closed (state_of m' (rc_stream rc))" for n rc
  proof -
    have "rc_stream rc < stream_count m" using ok that(1) by (auto simp: clients_ok_def receiver_fits_def)
    then show ?thesis using tables that(2) by metis
  qed
  moreover have "live_receiver m n = Some rc \<Longrightarrow> receiver_fits m rc (dm_positions m ! n)" for n rc
    using ok by (simp add: clients_ok_def)
  moreover have "live_receiver m n = Some rc \<and> live_receiver m n' = Some rc' \<and> n \<noteq> n'
      \<and> rc_stream rc = rc_stream rc' \<and> \<not> dy_closed (state_of m (rc_stream rc))
      \<Longrightarrow> ck_index (rc_key rc) \<noteq> ck_index (rc_key rc')" for n n' rc rc'
    using ok unfolding clients_ok_def by blast
  moreover have "length (dm_positions m) = length (dm_receivers m)" using ok by (simp add: clients_ok_def)
  ultimately show ?thesis unfolding clients_ok_def live clients(2,3) by (intro conjI allI impI ballI) metis+
qed

subsection \<open>One stream at a time\<close>

text \<open>The leases of clients, and all leases but those of stream \<open>k\<close>.\<close>

definition client_leases :: "'t dynamic_machine \<Rightarrow> lease list" where
  "client_leases m = concat (map (\<lambda>r. case r of None \<Rightarrow> [] | Some rc \<Rightarrow> [rc_lease rc]) (dm_receivers m))
     @ map pp_lease (dm_prepared m) @ dm_held m"

definition other_leases :: "'t dynamic_machine \<Rightarrow> nat \<Rightarrow> lease multiset" where
  "other_leases m k = mset (concat (map (stream_leases \<circ> snd) (remove_at k (fb_streams (dm_fabric m)))))
     + mset (client_leases m)"

lemma concat_split:
  "k < length xs \<Longrightarrow> mset (concat (map f xs)) = mset (f (xs ! k)) + mset (concat (map f (remove_at k xs)))"
  unfolding remove_at_def by (subst (1) id_take_nth_drop [of k]) simp_all

lemma remove_at_update [simp]: "remove_at k (xs[k := x]) = remove_at k xs"
  by (simp add: remove_at_def)

lemma leases_split:
  assumes "k < stream_count m"
  shows "mset (fabric_leases m @ dm_held m) = mset (stream_leases (snd (fb_streams (dm_fabric m) ! k))) + other_leases m k"
  using concat_split [OF assms, of "stream_leases \<circ> snd"]
  by (simp add: fabric_leases_def other_leases_def client_leases_def ac_simps)

lemma dynamic_scene_ok:
  assumes ok: "dynamic_ok m" and k: "k < stream_count m"
  shows "scene_ok (dm_guards m) (other_leases m k) (dm_logs m ! k) (scene k (dm_fabric m))"
proof -
  have "sound (dm_guards m) (store_of m) (mset (fabric_leases m @ dm_held m))"
    using ok by (simp add: dynamic_ok_def machine_ok_sound grant_view_def)
  then show ?thesis using ok k unfolding leases_split [OF k]
    by (simp add: scene_ok_def scene_def dynamic_ok_def streams_ok_def)
qed

lemma put_scene_simps [simp]:
  "fb_store (put_scene k gs f) = fst gs"
  "length (fb_streams (put_scene k gs f)) = length (fb_streams f)"
  "k < length (fb_streams f) \<Longrightarrow> fb_streams (put_scene k gs f) ! j =
     (if j = k then (fst (fb_streams f ! k), snd gs) else fb_streams f ! j)"
  "remove_at k (fb_streams (put_scene k gs f)) = remove_at k (fb_streams f)"
  by (simp_all add: put_scene_def nth_list_update)

text \<open>Putting a scene back: the grant tree and the streams stay good.\<close>

lemma put_scene_ok:
  assumes ok: "dynamic_ok m" and k: "k < stream_count m"
    and fabric: "dm_fabric m' = put_scene k b (dm_fabric m)" and guards: "dm_guards m' = dm_guards m"
    and logs: "dm_logs m' = (dm_logs m)[k := xs]" and like: "alike (store_of m) (fst b)"
    and scene: "scene_ok (dm_guards m) M xs b"
    and leases: "other_leases m' k = M"
  shows "machine_ok (grant_view m') \<and> streams_ok m'"
proof -
  obtain g s where b: "b = (g, s)" by (cases b)
  have k': "k < stream_count m'" using k fabric by simp
  have st: "snd (fb_streams (dm_fabric m') ! k) = s" using k fabric b by simp
  have "sound (dm_guards m) g (mset (fabric_leases m' @ dm_held m'))"
    using scene leases b unfolding leases_split [OF k'] st by (simp add: scene_ok_def)
  then have "machine_ok (grant_view m')" using fabric guards b by (simp add: machine_ok_sound grant_view_def)
  moreover have "stream_good g (snd (fb_streams (dm_fabric m') ! j)) (dm_logs m' ! j)" if "j < stream_count m" for j
  proof (cases "j = k")
    case True
    then show ?thesis using scene b st logs k ok by (simp add: scene_ok_def dynamic_ok_def streams_ok_def)
  next
    case False
    have "stream_good (store_of m) (snd (fb_streams (dm_fabric m) ! j)) (dm_logs m ! j)"
      using ok that by (simp add: dynamic_ok_def streams_ok_def)
    then show ?thesis using False fabric k logs stream_good_alike [OF like [unfolded b fst_conv], of "snd (fb_streams (dm_fabric m) ! j)"] by simp
  qed
  moreover have "handle g 0" using ok like b by (simp add: dynamic_ok_def streams_ok_def alike_def)
  ultimately show ?thesis using ok fabric logs b by (simp add: streams_ok_def dynamic_ok_def)
qed

subsection \<open>Every call keeps the invariant\<close>

lemma scene_step_ok:
  assumes ok: "dynamic_ok m" and k: "k < stream_count m"
    and fabric: "dm_fabric m' = put_scene k b (dm_fabric m)" and guards: "dm_guards m' = dm_guards m"
    and logs: "dm_logs m' = (dm_logs m)[k := xs]" "length (dm_logs m ! k) \<le> length xs"
    and clients: "dm_receivers m' = dm_receivers m" "dm_positions m' = dm_positions m"
      "set (dm_senders m') \<union> pp_sender ` set (dm_prepared m')
        \<subseteq> set (dm_senders m) \<union> pp_sender ` set (dm_prepared m)"
    and framed: "framed (store_of m) (fst b)" and scene: "scene_ok (dm_guards m) M xs b"
    and leases: "other_leases m' k = M"
    and tables: "dy_closed (dt_state (snd b)) \<or> dy_closed (dt_state (snd b)) = dy_closed (state_of m k)
        \<and> dy_subscribers (dt_state (snd b)) = dy_subscribers (state_of m k)"
  shows "dynamic_ok m'"
proof -
  have "length (dm_logs m) = stream_count m" using ok by (simp add: dynamic_ok_def streams_ok_def)
  then have "length (dm_logs m ! j) \<le> length (dm_logs m' ! j)" if "j < stream_count m" for j
    using logs k that by (cases "j = k") (simp_all add: nth_list_update)
  moreover have "dy_closed (state_of m' j) \<or> dy_closed (state_of m' j) = dy_closed (state_of m j)
      \<and> dy_subscribers (state_of m' j) = dy_subscribers (state_of m j)" for j
    using tables fabric k by simp
  moreover have "handle (store_of m') i" if "handle (store_of m) i" for i
    using that framed_handle [OF framed] fabric by simp
  moreover have "clients_ok m" using ok by (simp add: dynamic_ok_def)
  moreover have "stream_count m \<le> stream_count m'" using fabric by simp
  ultimately have "clients_ok m'" using clients clients_keep [of m m'] by blast
  moreover have "machine_ok (grant_view m') \<and> streams_ok m'"
    by (rule put_scene_ok [OF ok k fabric guards logs(1) framed_alike [OF framed] scene leases])
  ultimately show ?thesis by (simp add: dynamic_ok_def)
qed

lemma sender_fitsD:
  assumes "dynamic_ok m" and "sd \<in> set (dm_senders m) \<or> (\<exists>p \<in> set (dm_prepared m). sd = pp_sender p)"
  shows "sd_stream sd < stream_count m" and "handle (store_of m) (sd_grant sd)"
  using assms by (auto simp: dynamic_ok_def clients_ok_def sender_fits_def)

lemma other_leases_eq:
  "remove_at k (fb_streams (dm_fabric m')) = remove_at k (fb_streams (dm_fabric m)) \<Longrightarrow>
     client_leases m' = client_leases m \<Longrightarrow> other_leases m' k = other_leases m k"
  by (simp add: other_leases_def)

lemma with_fabric_simps [simp]:
  "dm_fabric (with_fabric f m) = f" "dm_held (with_fabric f m) = dm_held m" "dm_guards (with_fabric f m) = dm_guards m"
  "dm_senders (with_fabric f m) = dm_senders m" "dm_receivers (with_fabric f m) = dm_receivers m"
  "dm_prepared (with_fabric f m) = dm_prepared m" "dm_logs (with_fabric f m) = dm_logs m"
  "dm_positions (with_fabric f m) = dm_positions m" "client_leases (with_fabric f m) = client_leases m"
  "live_receiver (with_fabric f m) = live_receiver m"
  by (simp_all add: with_fabric_def client_leases_def live_receiver_def fun_eq_iff)

lemma with_fabric_twice [simp]: "with_fabric f (with_fabric f' m) = with_fabric f m"
  by (simp add: with_fabric_def)

lemma with_fabric_same [simp]: "with_fabric (dm_fabric m) m = m"
  by (simp add: with_fabric_def)

lemma log_value_simps [simp]:
  "dm_fabric (log_value k v m) = dm_fabric m" "dm_held (log_value k v m) = dm_held m" "dm_guards (log_value k v m) = dm_guards m"
  "dm_senders (log_value k v m) = dm_senders m" "dm_receivers (log_value k v m) = dm_receivers m"
  "dm_prepared (log_value k v m) = dm_prepared m" "dm_logs (log_value k v m) = (dm_logs m)[k := dm_logs m ! k @ [v]]"
  "dm_positions (log_value k v m) = dm_positions m" "client_leases (log_value k v m) = client_leases m"
  "live_receiver (log_value k v m) = live_receiver m"
  by (simp_all add: log_value_def client_leases_def live_receiver_def fun_eq_iff)

lemma scene_parts: "scene k f = (fb_store f, snd (fb_streams f ! k))"
  by (simp add: scene_def)

lemma send_now_ok:
  assumes ok: "dynamic_ok m" and sd: "sd \<in> set (dm_senders m)"
    and run: "sender_send_now sd v (dm_fabric m) = (f, r)"
  shows "f = put_scene (sd_stream sd) (scene (sd_stream sd) f) (dm_fabric m)"
    and "dynamic_ok (if is_ok r then log_value (sd_stream sd) v (with_fabric f m) else with_fabric f m)"
    and "sent (dm_guards m) (other_leases m (sd_stream sd)) (dm_logs m ! sd_stream sd) v
      (scene (sd_stream sd) (dm_fabric m)) (scene (sd_stream sd) f) r"
proof -
  let ?k = "sd_stream sd"
  have k: "?k < stream_count m" and h: "handle (store_of m) (sd_grant sd)" using sender_fitsD [OF ok] sd by auto
  obtain b where b: "dynamic_send_now (sd_grant sd) (stream_event (dm_fabric m) ?k) v (scene ?k (dm_fabric m)) = (b, r)"
    and f: "f = put_scene ?k b (dm_fabric m)"
    using run by (auto simp: sender_send_now_def Let_def split: prod.splits)
  note sent = dynamic_send_now_ok [OF dynamic_scene_ok [OF ok k, unfolded scene_parts] h b [unfolded scene_parts]]
  have sc: "scene ?k f = b" using k by (simp add: f scene_def)
  show "f = put_scene ?k (scene ?k f) (dm_fabric m)" unfolding sc by (rule f)
  show "sent (dm_guards m) (other_leases m ?k) (dm_logs m ! ?k) v (scene ?k (dm_fabric m)) (scene ?k f) r"
    using sent unfolding sc by (simp add: scene_parts)
  let ?m = "if is_ok r then log_value ?k v (with_fabric f m) else with_fabric f m"
  show "dynamic_ok ?m"
  proof (rule scene_step_ok [OF ok k])
    show "dm_fabric ?m = put_scene ?k b (dm_fabric m)" by (simp add: f)
    show "dm_logs ?m = (dm_logs m)[?k := dm_logs m ! ?k @ (if is_ok r then [v] else [])]" by simp
    show "scene_ok (dm_guards m) (other_leases m ?k) (dm_logs m ! ?k @ (if is_ok r then [v] else [])) b"
      using sent by (cases r) (simp_all add: sent_def)
    show "other_leases ?m ?k = other_leases m ?k" by (rule other_leases_eq) (simp_all add: f)
    show "framed (store_of m) (fst b)" using sent by (simp add: sent_def)
    show "dy_closed (dt_state (snd b)) \<or> dy_closed (dt_state (snd b)) = dy_closed (state_of m ?k)
        \<and> dy_subscribers (dt_state (snd b)) = dy_subscribers (state_of m ?k)"
      using sent by (simp add: sent_def)
  qed simp_all
qed

lemma prepare_ok:
  assumes ok: "dynamic_ok m" and sd: "sd \<in> set (dm_senders m)"
    and run: "sender_prepare sd v (dm_fabric m) = (f, r)"
  shows "dynamic_ok ((with_fabric f m)\<lparr>dm_prepared := dm_prepared m @ (case r of Ok p \<Rightarrow> [p] | Err _ \<Rightarrow> [])\<rparr>)"
    and "f = put_scene (sd_stream sd) (scene (sd_stream sd) f) (dm_fabric m)"
    and "trims (scene (sd_stream sd) (dm_fabric m)) (scene (sd_stream sd) f)"
    and "case r of Ok p \<Rightarrow> pp_sender p = sd \<and> pp_value p = v | Err e \<Rightarrow> try_send_into_inner e = v"
proof -
  let ?k = "sd_stream sd"
  have k: "?k < stream_count m" and h: "handle (store_of m) (sd_grant sd)" using sender_fitsD [OF ok] sd by auto
  obtain b q where b: "dynamic_reserve (sd_grant sd) (stream_event (dm_fabric m) ?k) v (scene ?k (dm_fabric m)) = (b, q)"
    by (cases "dynamic_reserve (sd_grant sd) (stream_event (dm_fabric m) ?k) v (scene ?k (dm_fabric m))")
  note re = dynamic_reserve_ok [OF dynamic_scene_ok [OF ok k, unfolded scene_parts] h b [unfolded scene_parts]]
  have f: "f = put_scene ?k b (dm_fabric m)"
    and r: "r = (case q of Err e \<Rightarrow> Err e | Ok (v, lease) \<Rightarrow> Ok \<lparr>pp_sender = sd, pp_value = v, pp_lease = lease\<rparr>)"
    using run b by (auto simp: sender_prepare_def Let_def split: result.splits prod.splits)
  have sc: "scene ?k f = b" using k by (simp add: f scene_def)
  show "f = put_scene ?k (scene ?k f) (dm_fabric m)" unfolding sc by (rule f)
  show t: "trims (scene ?k (dm_fabric m)) (scene ?k f)" using re unfolding sc by (simp add: scene_parts reserved_def)
  show "case r of Ok p \<Rightarrow> pp_sender p = sd \<and> pp_value p = v | Err e \<Rightarrow> try_send_into_inner e = v"
    using re r by (cases q) (auto simp: reserved_def)
  let ?new = "case r of Ok p \<Rightarrow> [p] | Err _ \<Rightarrow> []"
  let ?m = "(with_fabric f m)\<lparr>dm_prepared := dm_prepared m @ ?new\<rparr>"
  note td = trimsD [OF t, unfolded sc]
  show "dynamic_ok ?m"
  proof (rule scene_step_ok [OF ok k])
    show "dm_fabric ?m = put_scene ?k b (dm_fabric m)" by (simp add: f)
    show "dm_logs ?m = (dm_logs m)[?k := dm_logs m ! ?k]" by simp
    show "scene_ok (dm_guards m) (mset (map pp_lease ?new) + other_leases m ?k) (dm_logs m ! ?k) b"
      using re r by (cases q) (auto simp: reserved_def)
    show "other_leases ?m ?k = mset (map pp_lease ?new) + other_leases m ?k"
      using k by (simp add: other_leases_def client_leases_def f)
    show "framed (store_of m) (fst b)" using td(1) by (simp add: scene_def)
    show "set (dm_senders ?m) \<union> pp_sender ` set (dm_prepared ?m) \<subseteq> set (dm_senders m) \<union> pp_sender ` set (dm_prepared m)"
      using sd r by (cases q) auto
    show "dy_closed (dt_state (snd b)) \<or> dy_closed (dt_state (snd b)) = dy_closed (state_of m ?k)
        \<and> dy_subscribers (dt_state (snd b)) = dy_subscribers (state_of m ?k)"
      using td by (simp add: scene_def)
  qed simp_all
qed

lemma pp_lease_remove1:
  "p \<in> set ps \<Longrightarrow> mset (map pp_lease ps) = add_mset (pp_lease p) (mset (map pp_lease (remove1 p ps)))"
  by (induction ps) auto

lemma other_leases_prepared:
  assumes "p \<in> set (dm_prepared m)" and "remove_at k (fb_streams f) = remove_at k (fb_streams (dm_fabric m))"
  shows "other_leases m k = add_mset (pp_lease p)
    (other_leases ((with_fabric f m)\<lparr>dm_prepared := remove1 p (dm_prepared m)\<rparr>) k)"
  using assms pp_lease_remove1 [OF assms(1)] by (simp add: other_leases_def client_leases_def)

lemma try_send_ok:
  assumes ok: "dynamic_ok m" and p: "p \<in> set (dm_prepared m)"
    and run: "prepared_try_send p (dm_fabric m) = (f, r)"
  shows "f = put_scene (sd_stream (pp_sender p)) (scene (sd_stream (pp_sender p)) f) (dm_fabric m)"
    and "dynamic_ok (if is_ok r then log_value (sd_stream (pp_sender p)) (pp_value p)
        ((with_fabric f m)\<lparr>dm_prepared := remove1 p (dm_prepared m)\<rparr>) else with_fabric f m)"
    and "\<forall>e. r = Err e \<longrightarrow> try_send_into_inner e = p"
    and "static_part (snd (scene (sd_stream (pp_sender p)) f))
        = static_part (snd (scene (sd_stream (pp_sender p)) (dm_fabric m)))"
proof -
  let ?sd = "pp_sender p"
  let ?k = "sd_stream ?sd"
  have k: "?k < stream_count m" and h: "handle (store_of m) (sd_grant ?sd)" using sender_fitsD [OF ok] p by auto
  obtain b q where b: "dynamic_commit (sd_grant ?sd) (stream_event (dm_fabric m) ?k) (pp_value p) (pp_lease p) True
      (scene ?k (dm_fabric m)) = (b, q)"
    by (metis prod.exhaust)
  have f: "f = put_scene ?k b (dm_fabric m)"
    and r: "r = map_err (try_send_map (\<lambda>(v, lease). \<lparr>pp_sender = ?sd, pp_value = v, pp_lease = lease\<rparr>)) q"
    using run b by (auto simp: prepared_try_send_def Let_def split: result.splits)
  let ?m1 = "(with_fabric f m)\<lparr>dm_prepared := remove1 p (dm_prepared m)\<rparr>"
  have split: "other_leases m ?k = add_mset (pp_lease p) (other_leases ?m1 ?k)"
    by (rule other_leases_prepared [OF p]) (simp add: f)
  have "scene_ok (dm_guards m) (add_mset (pp_lease p) (other_leases ?m1 ?k)) (dm_logs m ! ?k) (store_of m, snd (fb_streams (dm_fabric m) ! ?k))"
    using dynamic_scene_ok [OF ok k] unfolding split scene_parts .
  note cm = dynamic_commit_ok [OF this h b [unfolded scene_parts]]
  have sc: "scene ?k f = b" using k by (simp add: f scene_def)
  show "f = put_scene ?k (scene ?k f) (dm_fabric m)" unfolding sc by (rule f)
  show "static_part (snd (scene ?k f)) = static_part (snd (scene ?k (dm_fabric m)))"
    using cm unfolding sc by (simp add: scene_parts committed_def)
  show "\<forall>e. r = Err e \<longrightarrow> try_send_into_inner e = p"
    using cm r by (cases q) (auto simp: committed_def)
  let ?m = "if is_ok r then log_value ?k (pp_value p) ?m1 else with_fabric f m"
  have okr: "is_ok r \<longleftrightarrow> is_ok q" using r by (cases q) simp_all
  show "dynamic_ok ?m"
  proof (rule scene_step_ok [OF ok k])
    show "dm_fabric ?m = put_scene ?k b (dm_fabric m)" by (simp add: f)
    show "dm_logs ?m = (dm_logs m)[?k := dm_logs m ! ?k @ (if is_ok r then [pp_value p] else [])]" by simp
    show "scene_ok (dm_guards m) (if is_ok r then other_leases ?m1 ?k else other_leases m ?k)
        (dm_logs m ! ?k @ (if is_ok r then [pp_value p] else [])) b"
      using cm okr split by (cases q) (simp_all add: committed_def)
    show "other_leases ?m ?k = (if is_ok r then other_leases ?m1 ?k else other_leases m ?k)"
      by (simp add: other_leases_def client_leases_def f)
    show "framed (store_of m) (fst b)" using cm by (simp add: committed_def)
    show "set (dm_senders ?m) \<union> pp_sender ` set (dm_prepared ?m) \<subseteq> set (dm_senders m) \<union> pp_sender ` set (dm_prepared m)"
      using set_remove1_subset [of p "dm_prepared m"] by auto
    show "dy_closed (dt_state (snd b)) \<or> dy_closed (dt_state (snd b)) = dy_closed (state_of m ?k)
        \<and> dy_subscribers (dt_state (snd b)) = dy_subscribers (state_of m ?k)"
      using cm by (simp add: committed_def)
  qed simp_all
qed

text \<open>A change of the store alone.\<close>

lemma store_step_ok:
  assumes ok: "dynamic_ok m" and like: "alike (store_of m) g"
    and sd: "sound (dm_guards m) g (mset (fabric_leases m' @ dm_held m'))"
    and m': "dm_fabric m' = (dm_fabric m)\<lparr>fb_store := g\<rparr>" "dm_guards m' = dm_guards m" "dm_logs m' = dm_logs m"
      "dm_receivers m' = dm_receivers m" "dm_positions m' = dm_positions m"
      "set (dm_senders m') \<union> pp_sender ` set (dm_prepared m') \<subseteq> set (dm_senders m) \<union> pp_sender ` set (dm_prepared m)"
  shows "dynamic_ok m'"
proof -
  have "clients_ok m" using ok by (simp add: dynamic_ok_def)
  then have "clients_ok m'"
    by (rule clients_keep) (use m' like in \<open>simp_all add: alike_def\<close>)
  moreover have "machine_ok (grant_view m')" using sd m' by (simp add: machine_ok_sound grant_view_def)
  moreover have "streams_ok m'"
    using ok m' like unfolding dynamic_ok_def streams_ok_def
    by (auto simp: stream_good_alike [OF like] alike_def)
  ultimately show ?thesis by (simp add: dynamic_ok_def)
qed

lemma dynamic_sound: "dynamic_ok m \<Longrightarrow> sound (dm_guards m) (store_of m) (mset (fabric_leases m @ dm_held m))"
  by (simp add: dynamic_ok_def machine_ok_sound grant_view_def)

lemma into_inner_ok:
  assumes ok: "dynamic_ok m" and p: "p \<in> set (dm_prepared m)"
  shows "dynamic_ok ((with_fabric (fst (prepared_into_inner p (dm_fabric m))) m)\<lparr>dm_prepared := remove1 p (dm_prepared m)\<rparr>)"
    (is "dynamic_ok ?m")
proof (rule store_step_ok [OF ok framed_alike [OF framed_drop_lease]])
  have "mset (fabric_leases m @ dm_held m) = add_mset (pp_lease p) (mset (fabric_leases ?m @ dm_held ?m))"
    using pp_lease_remove1 [OF p] by (simp add: fabric_leases_def prepared_into_inner_def)
  then show "sound (dm_guards m) (drop_lease (pp_lease p) (store_of m)) (mset (fabric_leases ?m @ dm_held ?m))"
    using dynamic_sound [OF ok] by (simp add: sound_drop_lease)
  show "set (dm_senders ?m) \<union> pp_sender ` set (dm_prepared ?m) \<subseteq> set (dm_senders m) \<union> pp_sender ` set (dm_prepared m)"
    using set_remove1_subset [of p "dm_prepared m"] by auto
qed (simp_all add: prepared_into_inner_def)

text \<open>Receivers.\<close>

lemma live_receiver_fits:
  assumes "dynamic_ok m" and "live_receiver m n = Some rc"
  shows "receiver_fits m rc (dm_positions m ! n)" and "n < length (dm_receivers m)"
    and "n < length (dm_positions m)" and "rc_stream rc < stream_count m" and "handle (store_of m) (rc_grant rc)"
    and "dy_closed (state_of m (rc_stream rc))
      \<or> ck_index (rc_key rc) < length (dy_subscribers (state_of m (rc_stream rc)))"
proof -
  show fit: "receiver_fits m rc (dm_positions m ! n)" using assms by (simp add: dynamic_ok_def clients_ok_def)
  show n: "n < length (dm_receivers m)" using assms(2) by (simp add: live_receiver_def split: if_splits)
  show "n < length (dm_positions m)" using n assms(1) by (simp add: dynamic_ok_def clients_ok_def)
  show "rc_stream rc < stream_count m" "handle (store_of m) (rc_grant rc)"
    "dy_closed (state_of m (rc_stream rc)) \<or> ck_index (rc_key rc) < length (dy_subscribers (state_of m (rc_stream rc)))"
    using fit by (auto simp: receiver_fits_def cursor_at_def split: if_splits)
qed

lemma receiver_cursor:
  assumes "receiver_fits m rc p" and "\<not> dy_closed (state_of m (rc_stream rc))"
  shows "owned_cursor (state_of m (rc_stream rc)) (rc_key rc) =
    Some \<lparr>dc_id = ck_id (rc_key rc), dc_next = fst p, dc_role = snd p, dc_grant = rc_grant rc\<rparr>"
  using assms by (auto simp: receiver_fits_def owned_cursor_def cursor_at_def split: if_splits)

lemma receivers_apart:
  assumes "dynamic_ok m" and "live_receiver m n = Some rc" and "live_receiver m n' = Some rc'" and "n \<noteq> n'"
    and "rc_stream rc = rc_stream rc'" and "\<not> dy_closed (state_of m (rc_stream rc))"
  shows "ck_index (rc_key rc) \<noteq> ck_index (rc_key rc')"
  using assms unfolding dynamic_ok_def clients_ok_def by blast

lemma live_receiver_positions [simp]: "live_receiver (m\<lparr>dm_positions := p\<rparr>) = live_receiver m"
  by (simp add: live_receiver_def fun_eq_iff)

lemma note_item_simps [simp]:
  "dm_fabric (note_item n r m) = dm_fabric m" "dm_held (note_item n r m) = dm_held m" "dm_guards (note_item n r m) = dm_guards m"
  "dm_senders (note_item n r m) = dm_senders m" "dm_receivers (note_item n r m) = dm_receivers m"
  "dm_prepared (note_item n r m) = dm_prepared m" "dm_logs (note_item n r m) = dm_logs m"
  "client_leases (note_item n r m) = client_leases m" "live_receiver (note_item n r m) = live_receiver m"
  "length (dm_positions (note_item n r m)) = length (dm_positions m)"
  by (auto simp: note_item_def client_leases_def live_receiver_def fun_eq_iff split: result.split option.split)

lemma receiver_update_ok:
  assumes ok: "dynamic_ok m" and n: "live_receiver m n = Some rc"
    and fabric: "dm_fabric m' = put_scene (rc_stream rc) b (dm_fabric m)"
    and framed: "framed (store_of m) (fst b)" and closed: "dy_closed (dt_state (snd b)) = dy_closed (state_of m (rc_stream rc))"
    and subs: "dy_subscribers (dt_state (snd b)) = (dy_subscribers (state_of m (rc_stream rc)))[ck_index (rc_key rc) := c]"
    and logs: "dm_logs m' = dm_logs m" and clients: "dm_senders m' = dm_senders m" "dm_prepared m' = dm_prepared m"
      "length (dm_receivers m') = length (dm_receivers m)" "length (dm_positions m') = length (dm_positions m)"
    and others: "\<And>n'. n' \<noteq> n \<Longrightarrow> live_receiver m' n' = live_receiver m n' \<and> dm_positions m' ! n' = dm_positions m ! n'"
    and this_one: "live_receiver m' n = None \<or> live_receiver m' n = Some rc
      \<and> fst (dm_positions m' ! n) \<le> length (dm_logs m ! rc_stream rc)
      \<and> (\<not> dy_closed (state_of m (rc_stream rc)) \<longrightarrow> c = Some \<lparr>dc_id = ck_id (rc_key rc),
           dc_next = fst (dm_positions m' ! n), dc_role = snd (dm_positions m' ! n), dc_grant = rc_grant rc\<rparr>)"
  shows "clients_ok m'"
proof -
  let ?k = "rc_stream rc"
  have k: "?k < stream_count m" by (rule live_receiver_fits(4) [OF ok n])
  have h: "handle (store_of m') i = handle (store_of m) i" for i using framed_handle [OF framed] fabric by simp
  have cl: "dy_closed (state_of m' j) = dy_closed (state_of m j)" for j using fabric k closed by simp
  have sc: "stream_count m' = stream_count m" using fabric by simp
  have at: "cursor_at (state_of m' j) i = (if j = ?k \<and> i = ck_index (rc_key rc) \<and> i < length (dy_subscribers (state_of m ?k))
      then c else cursor_at (state_of m j) i)" for i j
    using fabric k subs by (auto simp: cursor_at_def nth_list_update)
  have fits: "receiver_fits m' rc' (dm_positions m' ! n')" if n': "live_receiver m' n' = Some rc'" for n' rc'
  proof (cases "n' = n")
    case True
    then show ?thesis using this_one n' k live_receiver_fits(5,6) [OF ok n] logs
      by (auto simp: receiver_fits_def h cl at sc)
  next
    case False
    then have old: "live_receiver m n' = Some rc'" "dm_positions m' ! n' = dm_positions m ! n'" using others n' by auto
    have "rc_stream rc = rc_stream rc' \<longrightarrow> dy_closed (state_of m ?k) \<or> ck_index (rc_key rc) \<noteq> ck_index (rc_key rc')"
      using receivers_apart [OF ok n old(1) False [symmetric]] by blast
    then show ?thesis using live_receiver_fits(1) [OF ok old(1)] old(2) logs
      by (auto simp: receiver_fits_def h cl at sc)
  qed
  have old: "live_receiver m n' = Some rc'" if "live_receiver m' n' = Some rc'" for n' rc'
    using that others [of n'] this_one n by (cases "n' = n") auto
  have "\<forall>sd \<in> set (dm_senders m') \<union> pp_sender ` set (dm_prepared m'). sender_fits m' sd"
    using ok clients sc h unfolding dynamic_ok_def clients_ok_def sender_fits_def by simp
  moreover have "length (dm_positions m') = length (dm_receivers m')"
    using ok clients by (simp add: dynamic_ok_def clients_ok_def)
  moreover have "ck_index (rc_key r1) \<noteq> ck_index (rc_key r2)"
    if "live_receiver m' a = Some r1 \<and> live_receiver m' a' = Some r2 \<and> a \<noteq> a'
      \<and> rc_stream r1 = rc_stream r2 \<and> \<not> dy_closed (state_of m' (rc_stream r1))" for a a' r1 r2
    using receivers_apart [OF ok old old, of a r1 a' r2] that unfolding cl by blast
  ultimately show ?thesis using fits unfolding clients_ok_def by blast
qed

lemma received_step_ok:
  assumes ok: "dynamic_ok m" and n: "live_receiver m n = Some rc"
    and rec: "received (dm_guards m) (other_leases m (rc_stream rc)) (dm_logs m ! rc_stream rc) (rc_grant rc) (rc_key rc)
      (scene (rc_stream rc) (dm_fabric m)) b r"
  shows "dynamic_ok (note_item n r (with_fabric (put_scene (rc_stream rc) b (dm_fabric m)) m))" (is "dynamic_ok ?m")
proof -
  let ?k = "rc_stream rc" and ?p = "dm_positions m ! n"
  note lf = live_receiver_fits [OF ok n]
  have parts: "framed (store_of m) (fst b)" "dy_closed (dt_state (snd b)) = dy_closed (state_of m ?k)"
    "scene_ok (dm_guards m) (other_leases m ?k) (dm_logs m ! ?k) b"
    using rec by (simp_all add: received_def scene_def)
  have a: "machine_ok (grant_view ?m) \<and> streams_ok ?m"
  proof (rule put_scene_ok [OF ok lf(4)])
    show "dm_logs ?m = (dm_logs m)[?k := dm_logs m ! ?k]" by simp
    show "other_leases ?m ?k = other_leases m ?k" by (rule other_leases_eq) simp_all
    show "alike (store_of m) (fst b)" by (rule framed_alike [OF parts(1)])
  qed (use parts(3) in simp_all)
  have "clients_ok ?m"
  proof (cases "\<exists>it. r = Ok (Some it)")
    case True
    then obtain it where it: "r = Ok (Some it)" by blast
    then obtain c where c: "\<not> dy_closed (state_of m ?k)" "owned_cursor (state_of m ?k) (rc_key rc) = Some c"
      "dy_subscribers (dt_state (snd b)) = (dy_subscribers (state_of m ?k))[ck_index (rc_key rc) := Some (c\<lparr>dc_next := item_end it\<rparr>)]"
      "item_end it \<le> length (dm_logs m ! ?k)"
      using rec by (auto simp: received_def scene_def)
    have cc: "c = \<lparr>dc_id = ck_id (rc_key rc), dc_next = fst ?p, dc_role = snd ?p, dc_grant = rc_grant rc\<rparr>"
      using receiver_cursor [OF lf(1) c(1)] c(2) by simp
    show ?thesis
      by (rule receiver_update_ok [OF ok n _ parts(1,2) c(3)])
        (use it c(4) cc lf(3) n in \<open>simp_all add: note_item_def\<close>)
  next
    case False
    then have subs: "dy_subscribers (dt_state (snd b)) = dy_subscribers (state_of m ?k)"
      using rec by (auto simp: received_def scene_def split: result.splits option.splits)
    have pos: "dm_positions ?m = dm_positions m"
      using False by (auto simp: note_item_def split: result.splits option.splits)
    have "clients_ok m" using ok by (simp add: dynamic_ok_def)
    then show ?thesis
      by (rule clients_keep) (use subs parts(2) lf(4) framed_handle [OF parts(1)] in \<open>simp_all add: pos\<close>)
  qed
  with a show ?thesis by (simp add: dynamic_ok_def)
qed

lemma receive_ok:
  assumes ok: "dynamic_ok m" and n: "live_receiver m n = Some rc"
  shows "receiver_try_recv rc (dm_fabric m) = (f, r) \<Longrightarrow>
      f = put_scene (rc_stream rc) (scene (rc_stream rc) f) (dm_fabric m)
      \<and> received (dm_guards m) (other_leases m (rc_stream rc)) (dm_logs m ! rc_stream rc) (rc_grant rc) (rc_key rc)
          (scene (rc_stream rc) (dm_fabric m)) (scene (rc_stream rc) f) r"
    and "receiver_recv_now rc (dm_fabric m) = (f, r) \<Longrightarrow>
      f = put_scene (rc_stream rc) (scene (rc_stream rc) f) (dm_fabric m)
      \<and> received (dm_guards m) (other_leases m (rc_stream rc)) (dm_logs m ! rc_stream rc) (rc_grant rc) (rc_key rc)
          (scene (rc_stream rc) (dm_fabric m)) (scene (rc_stream rc) f) r"
proof -
  let ?k = "rc_stream rc"
  note lf = live_receiver_fits [OF ok n]
  note sc = dynamic_scene_ok [OF ok lf(4), unfolded scene_parts]
  have again: "scene ?k (put_scene ?k b (dm_fabric m)) = b" for b using lf(4) by (simp add: scene_def)
  show "f = put_scene ?k (scene ?k f) (dm_fabric m)
      \<and> received (dm_guards m) (other_leases m ?k) (dm_logs m ! ?k) (rc_grant rc) (rc_key rc)
          (scene ?k (dm_fabric m)) (scene ?k f) r" if "receiver_try_recv rc (dm_fabric m) = (f, r)"
  proof -
    obtain b q where bq: "dynamic_try_recv (rc_grant rc) (stream_event (dm_fabric m) ?k) (rc_key rc) (scene ?k (dm_fabric m)) = (b, q)"
      by (metis prod.exhaust)
    then have f: "f = put_scene ?k b (dm_fabric m)" and b: "dynamic_try_recv (rc_grant rc) (stream_event (dm_fabric m) ?k)
        (rc_key rc) (scene ?k (dm_fabric m)) = (b, r)"
      using that by (auto simp: receiver_try_recv_def Let_def)
    show ?thesis using dynamic_try_recv_ok [OF sc lf(5,6) b [unfolded scene_parts]]
      unfolding f again by (simp add: scene_parts)
  qed
  show "f = put_scene ?k (scene ?k f) (dm_fabric m)
      \<and> received (dm_guards m) (other_leases m ?k) (dm_logs m ! ?k) (rc_grant rc) (rc_key rc)
          (scene ?k (dm_fabric m)) (scene ?k f) r" if "receiver_recv_now rc (dm_fabric m) = (f, r)"
  proof -
    obtain b q where bq: "dynamic_recv_now (rc_grant rc) (stream_event (dm_fabric m) ?k) (rc_key rc) (scene ?k (dm_fabric m)) = (b, q)"
      by (metis prod.exhaust)
    then have f: "f = put_scene ?k b (dm_fabric m)" and b: "dynamic_recv_now (rc_grant rc) (stream_event (dm_fabric m) ?k)
        (rc_key rc) (scene ?k (dm_fabric m)) = (b, r)"
      using that by (auto simp: receiver_recv_now_def Let_def)
    show ?thesis using dynamic_recv_now_ok [OF sc lf(5,6) b [unfolded scene_parts]]
      unfolding f again by (simp add: scene_parts)
  qed
qed

text \<open>Resolving a stream, opening endpoints, closing.\<close>

lemma grant_stream_cases:
  assumes run: "grant_stream i spec right f = (f', r)"
  obtains g where "f' = f\<lparr>fb_store := g\<rparr>" "alike (fb_store f) g"
    "\<And>gs M. sound gs g M = sound gs (fb_store f) M"
    "\<And>k. r = Ok k \<Longrightarrow> k < length (fb_streams f) \<and> dt_delivery (snd (fb_streams f ! k)) = DELIVERY spec
        \<and> stream_event f k = ID spec"
proof -
  have same: "f = f\<lparr>fb_store := fb_store f\<rparr>" by simp
  have pos: "event_position e ps = Some k \<Longrightarrow> k < length ps \<and> fst (ps ! k) = e" for e k and ps :: "(event_id \<times> 'a dynamic_stream) list"
    by (induction ps arbitrary: k) (auto split: if_splits)
  show thesis
  proof (cases "\<exists>k u. grant_check (fb_store f) i (ID spec) right = Ok u \<and> event_position (ID spec) (fb_streams f) = Some k
      \<and> dt_payload (snd (fb_streams f ! k)) = PAYLOAD spec \<and> dt_wire_major (snd (fb_streams f ! k)) = WIRE_MAJOR spec
      \<and> dt_delivery (snd (fb_streams f ! k)) = DELIVERY spec")
    case False
    then have "f' = f" "\<exists>e. r = Err e"
      using run by (auto simp: grant_stream_def Let_def split: result.splits option.splits if_splits)
    then show thesis using that [of "fb_store f"] same by auto
  next
    case True
    then obtain k u where k: "grant_check (fb_store f) i (ID spec) right = Ok u"
      "event_position (ID spec) (fb_streams f) = Some k"
      "dt_payload (snd (fb_streams f ! k)) = PAYLOAD spec" "dt_wire_major (snd (fb_streams f ! k)) = WIRE_MAJOR spec"
      "dt_delivery (snd (fb_streams f ! k)) = DELIVERY spec" by blast
    obtain g q where rg: "register_stream i (ID spec) (dt_changed (snd (fb_streams f ! k))) (fb_store f) = (g, q)"
      by (metis prod.exhaust)
    have f': "f' = f\<lparr>fb_store := g\<rparr>" and r: "r = (case q of Err e \<Rightarrow> Err e | Ok _ \<Rightarrow> Ok k)"
      using run k rg by (auto simp: grant_stream_def Let_def split: result.splits)
    show thesis
      using that [OF f' register_stream_keeps(1) [OF rg] register_stream_keeps(2) [OF rg]] pos [OF k(2)] k(5) r
      by (cases q) simp_all
  qed
qed

definition same_streams :: "'t fabric \<Rightarrow> 't fabric \<Rightarrow> bool" where
  "same_streams f f' \<longleftrightarrow> map fst (fb_streams f') = map fst (fb_streams f)
     \<and> map (static_part \<circ> snd) (fb_streams f') = map (static_part \<circ> snd) (fb_streams f)"

lemma same_streams_refl [simp]: "same_streams f f"
  by (simp add: same_streams_def)

lemma same_streams_store [simp]: "same_streams f (f'\<lparr>fb_store := g\<rparr>) = same_streams f f'"
  by (simp add: same_streams_def)

lemma same_streams_trans: "same_streams a b \<Longrightarrow> same_streams b c \<Longrightarrow> same_streams a c"
  by (simp add: same_streams_def)

lemma same_streams_put:
  assumes "k < length (fb_streams f)" and "static_part (snd b) = static_part (snd (fb_streams f ! k))"
  shows "same_streams f (put_scene k b f)"
  using assms unfolding same_streams_def put_scene_def
  by (auto intro!: nth_equalityI simp: nth_list_update)

lemma same_streamsD:
  assumes "same_streams f f'"
  shows "length (fb_streams f') = length (fb_streams f)"
    and "k < length (fb_streams f) \<Longrightarrow> static_part (snd (fb_streams f' ! k)) = static_part (snd (fb_streams f ! k))"
    and "k < length (fb_streams f) \<Longrightarrow> stream_event f' k = stream_event f k"
proof -
  show l: "length (fb_streams f') = length (fb_streams f)"
    using assms map_eq_imp_length_eq unfolding same_streams_def by blast
  have e: "map fst (fb_streams f') = map fst (fb_streams f)"
    "map (static_part \<circ> snd) (fb_streams f') = map (static_part \<circ> snd) (fb_streams f)"
    using assms by (simp_all add: same_streams_def)
  show "k < length (fb_streams f) \<Longrightarrow> static_part (snd (fb_streams f' ! k)) = static_part (snd (fb_streams f ! k))"
    using arg_cong [OF e(2), of "\<lambda>xs. xs ! k"] l by simp
  show "k < length (fb_streams f) \<Longrightarrow> stream_event f' k = stream_event f k"
    using arg_cong [OF e(1), of "\<lambda>xs. xs ! k"] l by simp
qed

lemma drop_receiver_step_ok:
  assumes ok: "dynamic_ok m" and n: "live_receiver m n = Some rc"
  shows "dynamic_ok ((with_fabric (receiver_drop rc (dm_fabric m)) m)\<lparr>dm_receivers := (dm_receivers m)[n := None]\<rparr>)"
    (is "dynamic_ok ?m")
    and "same_streams (dm_fabric m) (receiver_drop rc (dm_fabric m))"
proof -
  let ?k = "rc_stream rc"
  note lf = live_receiver_fits [OF ok n]
  obtain b where b: "drop_receiver (rc_key rc) (rc_lease rc) (scene ?k (dm_fabric m)) = b" by blast
  have f: "dm_fabric ?m = put_scene ?k b (dm_fabric m)" using b by (simp add: receiver_drop_def)
  have rn: "dm_receivers m ! n = Some rc" using n lf(2) by (simp add: live_receiver_def)
  let ?ls = "\<lambda>r. case r of None \<Rightarrow> [] | Some rc \<Rightarrow> [rc_lease rc]"
  have "mset (concat (map ?ls (dm_receivers m))) = add_mset (rc_lease rc) (mset (concat (map ?ls ((dm_receivers m)[n := None]))))"
    using concat_split [OF lf(2), of ?ls] concat_split [of n "(dm_receivers m)[n := None]" ?ls] lf(2) rn by simp
  then have split: "other_leases m ?k = add_mset (rc_lease rc) (other_leases ?m ?k)"
    using f by (simp add: other_leases_def client_leases_def)
  have "scene_ok (dm_guards m) (add_mset (rc_lease rc) (other_leases ?m ?k)) (dm_logs m ! ?k)
      (store_of m, snd (fb_streams (dm_fabric m) ! ?k))"
    using dynamic_scene_ok [OF ok lf(4)] unfolding split scene_parts .
  from drop_receiver_ok [OF this b [unfolded scene_parts]]
  have r: "scene_ok (dm_guards m) (other_leases ?m ?k) (dm_logs m ! ?k) b" "framed (store_of m) (fst b)"
    "dy_closed (dt_state (snd b)) = dy_closed (state_of m ?k)"
    "dy_subscribers (dt_state (snd b)) = (dy_subscribers (state_of m ?k))[ck_index (rc_key rc) := None]"
    "static_part (snd b) = static_part (snd (fb_streams (dm_fabric m) ! ?k))" by auto
  then show "same_streams (dm_fabric m) (receiver_drop rc (dm_fabric m))"
    using same_streams_put [OF lf(4) r(5)] b by (simp add: receiver_drop_def)
  have "machine_ok (grant_view ?m) \<and> streams_ok ?m"
  proof (rule put_scene_ok [OF ok lf(4) f])
    show "dm_logs ?m = (dm_logs m)[?k := dm_logs m ! ?k]" by simp
  qed (use r framed_alike in simp_all)
  moreover have "clients_ok ?m"
    by (rule receiver_update_ok [OF ok n f r(2-4)]) (use lf(2) in \<open>simp_all add: live_receiver_def nth_list_update\<close>)
  ultimately show "dynamic_ok ?m" by (simp add: dynamic_ok_def)
qed

lemma store_alike_ok:
  assumes ok: "dynamic_ok m" and like: "alike (store_of m) g"
    and sd: "\<And>gs M. sound gs g M = sound gs (store_of m) M"
  shows "dynamic_ok (with_fabric ((dm_fabric m)\<lparr>fb_store := g\<rparr>) m)"
  by (rule store_step_ok [OF ok like]) (use dynamic_sound [OF ok] in \<open>simp_all add: sd fabric_leases_def\<close>)

lemma senders_irrelevant:
  "live_receiver (m\<lparr>dm_senders := x\<rparr>) = live_receiver m"
  "receiver_fits (m\<lparr>dm_senders := x\<rparr>) = receiver_fits m"
  "sender_fits (m\<lparr>dm_senders := x\<rparr>) = sender_fits m"
  by (simp_all add: live_receiver_def receiver_fits_def sender_fits_def fun_eq_iff)

lemma open_sender_ok:
  assumes ok: "dynamic_ok m" and h: "handle (store_of m) i" and run: "grant_sender i spec (dm_fabric m) = (f, r)"
  shows "dynamic_ok ((with_fabric f m)\<lparr>dm_senders := dm_senders m @ (case r of Ok sd \<Rightarrow> [sd] | Err _ \<Rightarrow> [])\<rparr>)"
    and "same_streams (dm_fabric m) f"
proof -
  obtain f1 q where st: "grant_stream i spec Rights_PUBLISH (dm_fabric m) = (f1, q)" by (metis prod.exhaust)
  obtain g where g: "f1 = (dm_fabric m)\<lparr>fb_store := g\<rparr>" "alike (store_of m) g"
    "\<And>gs M. sound gs g M = sound gs (store_of m) M" and k: "\<And>k. q = Ok k \<Longrightarrow> k < stream_count m"
    using grant_stream_cases [OF st] by metis
  have f: "f = f1" and r: "\<And>sd. r = Ok sd \<Longrightarrow> sd_grant sd = i \<and> q = Ok (sd_stream sd)"
    using run st by (auto simp: grant_sender_def Let_def split: result.splits if_splits)
  show "same_streams (dm_fabric m) f" unfolding f g(1) by simp
  let ?m0 = "with_fabric f m" and ?new = "case r of Ok sd \<Rightarrow> [sd] | Err _ \<Rightarrow> []"
  have ok0: "dynamic_ok ?m0" using store_alike_ok [OF ok g(2,3)] f g(1) by simp
  have "sender_fits ?m0 sd" if "sd \<in> set ?new" for sd
    using that r k h g f by (cases r) (auto simp: sender_fits_def alike_def)
  then have "clients_ok (?m0\<lparr>dm_senders := dm_senders m @ ?new\<rparr>)"
    using ok0 unfolding dynamic_ok_def clients_ok_def by (auto simp: senders_irrelevant)
  moreover have "grant_view (?m0\<lparr>dm_senders := dm_senders m @ ?new\<rparr>) = grant_view ?m0"
    by (simp add: grant_view_def fabric_leases_def)
  moreover have "streams_ok (?m0\<lparr>dm_senders := dm_senders m @ ?new\<rparr>) = streams_ok ?m0"
    by (simp add: streams_ok_def)
  ultimately show "dynamic_ok (?m0\<lparr>dm_senders := dm_senders m @ ?new\<rparr>)" using ok0 by (simp add: dynamic_ok_def)
qed

lemma clients_add_receiver:
  assumes ok: "clients_ok m" and k: "rc_stream rc < stream_count m" and h: "handle (store_of m) (rc_grant rc)"
    and more: "stream_count m' = stream_count m" and handles: "\<And>i. handle (store_of m') i = handle (store_of m) i"
    and closed: "\<And>j. j < stream_count m \<Longrightarrow> dy_closed (state_of m' j) = dy_closed (state_of m j)"
    and cursors: "\<And>j i. j < stream_count m \<Longrightarrow> cursor_at (state_of m' j) i =
        (if j = rc_stream rc \<and> i = ck_index (rc_key rc)
         then Some \<lparr>dc_id = ck_id (rc_key rc), dc_next = fst p, dc_role = snd p, dc_grant = rc_grant rc\<rparr>
         else cursor_at (state_of m j) i)"
    and free: "cursor_at (state_of m (rc_stream rc)) (ck_index (rc_key rc)) = None"
      "\<not> dy_closed (state_of m (rc_stream rc))"
    and p: "fst p \<le> length (dm_logs m ! rc_stream rc)" and logs: "dm_logs m' = dm_logs m"
    and clients: "dm_senders m' = dm_senders m" "dm_prepared m' = dm_prepared m"
      "dm_receivers m' = dm_receivers m @ [Some rc]" "dm_positions m' = dm_positions m @ [p]"
  shows "clients_ok m'"
proof -
  let ?n = "length (dm_receivers m)"
  have len: "length (dm_positions m) = ?n" using ok by (simp add: clients_ok_def)
  have live: "live_receiver m' n = (if n = ?n then Some rc else live_receiver m n)" for n
    using clients by (auto simp: live_receiver_def nth_append)
  have pos: "dm_positions m' ! n = (if n = ?n then p else dm_positions m ! n)" if "n \<le> ?n" for n
    using clients len that by (auto simp: nth_append)
  have range: "n < ?n" if "live_receiver m n = Some r" for n r using that by (simp add: live_receiver_def split: if_splits)
  have old: "receiver_fits m r (dm_positions m ! n)" if "live_receiver m n = Some r" for n r
    using ok that by (simp add: clients_ok_def)
  have apart: "ck_index (rc_key r) \<noteq> ck_index (rc_key rc)"
    if "live_receiver m n = Some r" "rc_stream r = rc_stream rc" for n r
    using old [OF that(1)] free that(2) by (auto simp: receiver_fits_def)
  have fits: "receiver_fits m' r (dm_positions m' ! n)" if l: "live_receiver m' n = Some r" for n r
  proof (cases "n = ?n")
    case True
    then show ?thesis using l k h p by (simp add: live pos receiver_fits_def more handles cursors logs)
  next
    case False
    then have r: "live_receiver m n = Some r" using l live by simp
    then show ?thesis using old [OF r] range [OF r] apart [OF r] False
      by (auto simp: pos receiver_fits_def more handles cursors closed logs)
  qed
  have "\<forall>sd \<in> set (dm_senders m') \<union> pp_sender ` set (dm_prepared m'). sender_fits m' sd"
    using ok clients more handles by (simp add: clients_ok_def sender_fits_def)
  moreover have "length (dm_positions m') = length (dm_receivers m')" using len clients by simp
  moreover have "ck_index (rc_key r1) \<noteq> ck_index (rc_key r2)"
    if "live_receiver m' a = Some r1 \<and> live_receiver m' b = Some r2 \<and> a \<noteq> b
      \<and> rc_stream r1 = rc_stream r2 \<and> \<not> dy_closed (state_of m' (rc_stream r1))" for a b r1 r2
  proof -
    have "receiver_fits m' r1 (dm_positions m' ! a)" using that fits by blast
    then have "rc_stream r1 < stream_count m" using more by (simp add: receiver_fits_def)
    then have open_s: "\<not> dy_closed (state_of m (rc_stream r1))"
      using that closed [of "rc_stream r1"] by blast
    consider "a = ?n" | "b = ?n" | "a \<noteq> ?n" "b \<noteq> ?n" by blast
    then show ?thesis
    proof cases
      case 1
      then have "live_receiver m b = Some r2" "r1 = rc" using that live by auto
      then show ?thesis using apart [of b r2] that by metis
    next
      case 2
      then have "live_receiver m a = Some r1" "r2 = rc" using that live by auto
      then show ?thesis using apart [of a r1] that by metis
    next
      case 3
      then have "live_receiver m a = Some r1" "live_receiver m b = Some r2" using that live by auto
      then show ?thesis using ok that open_s unfolding clients_ok_def by blast
    qed
  qed
  ultimately show ?thesis using fits unfolding clients_ok_def by blast
qed

lemma open_receiver_ok:
  assumes ok: "dynamic_ok m" and h: "handle (store_of m) i" and run: "grant_subscribe i spec role (dm_fabric m) = (f, r)"
  shows "case r of
      Ok rc \<Rightarrow> dynamic_ok ((with_fabric f m)\<lparr>dm_receivers := dm_receivers m @ [Some rc],
         dm_positions := dm_positions m @ [(let n = length (dm_logs m ! rc_stream rc)
            in if DELIVERY spec = Latest then n - 1 else n, role)]\<rparr>)
    | Err e \<Rightarrow> dynamic_ok (with_fabric f m)"
    and "same_streams (dm_fabric m) f"
proof -
  have both: "(case r of
      Ok rc \<Rightarrow> dynamic_ok ((with_fabric f m)\<lparr>dm_receivers := dm_receivers m @ [Some rc],
         dm_positions := dm_positions m @ [(let n = length (dm_logs m ! rc_stream rc)
            in if DELIVERY spec = Latest then n - 1 else n, role)]\<rparr>)
    | Err e \<Rightarrow> dynamic_ok (with_fabric f m))
    \<and> same_streams (dm_fabric m) f"
  proof (cases "DELIVERY spec = Latest \<and> role = Required")
    case True
    have f: "f = dm_fabric m" using True run by (simp add: grant_subscribe_def)
    have r: "r = Err TopicError_InvalidConfig" using True run by (simp add: grant_subscribe_def)
    show ?thesis unfolding f r result.case with_fabric_same by (rule conjI [OF ok same_streams_refl])
  next
    case False
    obtain f1 q where st: "grant_stream i spec (role_rights role) (dm_fabric m) = (f1, q)" by (metis prod.exhaust)
    obtain g where g: "f1 = (dm_fabric m)\<lparr>fb_store := g\<rparr>" "alike (store_of m) g"
      "\<And>gs M. sound gs g M = sound gs (store_of m) M"
      and qk: "\<And>k. q = Ok k \<Longrightarrow> k < stream_count m \<and> dt_delivery (snd (fb_streams (dm_fabric m) ! k)) = DELIVERY spec"
      using grant_stream_cases [OF st] by metis
    let ?m1 = "with_fabric f1 m"
    have ok1: "dynamic_ok ?m1" using store_alike_ok [OF ok g(2,3)] g(1) by simp
    show ?thesis
    proof (cases q)
      case (Err e)
      then have "f = f1" "r = Err e" using run st False by (simp_all add: grant_subscribe_def)
      then show ?thesis using ok1 g(1) by auto
    next
      case (Ok k)
      note kk = qk [OF Ok]
      obtain b p where b: "dynamic_subscribe i (ID spec) role (scene k (dm_fabric ?m1)) = (b, p)" by (metis prod.exhaust)
      then have b1: "dynamic_subscribe i (ID spec) role (scene k f1) = (b, p)" by simp
      have k1: "k < stream_count ?m1" using kk g(1) by simp
      have h1: "handle (store_of ?m1) i" using h g by (simp add: alike_def)
      have role: "role = Observer" if "dt_delivery (snd (fb_streams (dm_fabric ?m1) ! k)) = Latest"
        using that False kk g(1) by (cases role) auto
      note sub = dynamic_subscribe_ok [OF dynamic_scene_ok [OF ok1 k1, unfolded scene_parts] h1 role
          b [unfolded scene_parts]]
      have f: "f = put_scene k b f1" using run st False Ok b1 by (auto simp: grant_subscribe_def split: result.splits)
      have sc: "snd (fb_streams f1 ! k) = snd (fb_streams (dm_fabric m) ! k)" using g(1) by simp
      have "static_part (snd b) = static_part (snd (fb_streams (dm_fabric m) ! k))"
        using sub sc by (simp add: subscribed_def)
      then have "same_streams (dm_fabric m) (put_scene k b (dm_fabric m))"
        using same_streams_put [OF conjunct1 [OF kk]] by simp
      moreover have "f = put_scene k b (dm_fabric m)" using f g(1) by (simp add: put_scene_def)
      ultimately have shape: "same_streams (dm_fabric m) f" by simp
      show ?thesis
      proof (cases p)
        case (Err e)
        have "dynamic_ok (with_fabric f m)"
        proof (rule scene_step_ok [OF ok1 k1])
          show "dm_fabric (with_fabric f m) = put_scene k b (dm_fabric ?m1)" by (simp add: f)
          show "dm_logs (with_fabric f m) = (dm_logs ?m1)[k := dm_logs ?m1 ! k]" by simp
          show "scene_ok (dm_guards ?m1) (other_leases ?m1 k) (dm_logs ?m1 ! k) b"
            using sub Err by (simp add: subscribed_def)
          show "other_leases (with_fabric f m) k = other_leases ?m1 k" by (rule other_leases_eq) (simp_all add: f)
        qed (use sub Err in \<open>simp_all add: subscribed_def\<close>)
        moreover have "r = Err e" using run st False Ok b1 Err by (simp add: grant_subscribe_def)
        ultimately show ?thesis using shape by simp
      next
        case (Ok p')
        obtain key lease where p': "p' = (key, lease)" by (cases p')
        let ?rc = "\<lparr>rc_stream = k, rc_grant = i, rc_key = key, rc_lease = lease\<rparr>"
        have r: "r = Ok ?rc" using run st False \<open>q = Ok k\<close> b1 Ok p' by (simp add: grant_subscribe_def)
        let ?pos = "(let n = length (dm_logs m ! k) in if DELIVERY spec = Latest then n - 1 else n, role)"
        let ?m = "(with_fabric f m)\<lparr>dm_receivers := dm_receivers m @ [Some ?rc], dm_positions := dm_positions m @ [?pos]\<rparr>"
        have s: "framed (store_of ?m1) (fst b)" "dy_closed (dt_state (snd b)) = dy_closed (state_of ?m1 k)"
          "scene_ok (dm_guards m) (add_mset lease (other_leases ?m1 k)) (dm_logs m ! k) b"
          "\<not> dy_closed (state_of ?m1 k)" "ck_index key < length (dy_subscribers (state_of ?m1 k))"
          "dy_subscribers (state_of ?m1 k) ! ck_index key = None"
          "dy_subscribers (dt_state (snd b)) = (dy_subscribers (state_of ?m1 k))[ck_index key := Some
            \<lparr>dc_id = ck_id key, dc_next = fst ?pos, dc_role = snd ?pos, dc_grant = i\<rparr>]"
          using sub Ok p' kk sc by (simp_all add: subscribed_def Let_def)
        have mf: "dm_fabric ?m = put_scene k b (dm_fabric ?m1)" by (simp add: f)
        have "machine_ok (grant_view ?m) \<and> streams_ok ?m"
        proof (rule put_scene_ok [OF ok1 k1 mf])
          show "dm_logs ?m = (dm_logs ?m1)[k := dm_logs m ! k]" by simp
          show "alike (store_of ?m1) (fst b)" by (rule framed_alike [OF s(1)])
          show "scene_ok (dm_guards ?m1) (add_mset lease (other_leases ?m1 k)) (dm_logs m ! k) b" using s(3) by simp
          show "other_leases ?m k = add_mset lease (other_leases ?m1 k)"
            by (simp add: other_leases_def client_leases_def f)
        qed simp
        moreover have "clients_ok ?m"
        proof (rule clients_add_receiver [of ?m1 ?rc _ ?pos])
          show "clients_ok ?m1" using ok1 by (simp add: dynamic_ok_def)
          show "handle (store_of ?m) j = handle (store_of ?m1) j" for j using framed_handle [OF s(1)] mf by simp
          show "cursor_at (state_of ?m j) n = (if j = rc_stream ?rc \<and> n = ck_index (rc_key ?rc)
              then Some \<lparr>dc_id = ck_id (rc_key ?rc), dc_next = fst ?pos, dc_role = snd ?pos, dc_grant = rc_grant ?rc\<rparr>
              else cursor_at (state_of ?m1 j) n)" if "j < stream_count ?m1" for j n
            using mf k1 s(5,7) by (simp add: cursor_at_def nth_list_update)
          show "dy_closed (state_of ?m j) = dy_closed (state_of ?m1 j)" if "j < stream_count ?m1" for j
            using mf k1 s(2) by simp
          show "cursor_at (state_of ?m1 (rc_stream ?rc)) (ck_index (rc_key ?rc)) = None"
            using s(5,6) by (simp add: cursor_at_def)
        qed (use k1 h1 s(4) mf in \<open>simp_all add: Let_def\<close>)
        ultimately show ?thesis using r shape by (simp add: dynamic_ok_def)
      qed
    qed
  qed
  then show "case r of
      Ok rc \<Rightarrow> dynamic_ok ((with_fabric f m)\<lparr>dm_receivers := dm_receivers m @ [Some rc],
         dm_positions := dm_positions m @ [(let n = length (dm_logs m ! rc_stream rc)
            in if DELIVERY spec = Latest then n - 1 else n, role)]\<rparr>)
    | Err e \<Rightarrow> dynamic_ok (with_fabric f m)" by (rule conjunct1)
  show "same_streams (dm_fabric m) f" using both by (rule conjunct2)
qed

text \<open>Declaring and closing streams, maintenance, contention, and the holders of grants.\<close>

lemma close_stream_ok:
  assumes ok: "dynamic_ok m" and run: "close_stream spec (dm_fabric m) = (f, r)"
  shows "dynamic_ok (with_fabric f m)"
    and "same_streams (dm_fabric m) f"
    and "r = Ok () \<Longrightarrow> \<exists>k. k < stream_count m \<and> stream_event (dm_fabric m) k = ID spec
      \<and> stream_leases (snd (fb_streams f ! k)) = [dt_allocation (snd (fb_streams (dm_fabric m) ! k))]
      \<and> dy_closed (dt_state (snd (fb_streams f ! k)))"
proof -
  obtain f1 q where st: "grant_stream 0 spec Rights_PUBLISH (dm_fabric m) = (f1, q)" by (metis prod.exhaust)
  obtain g where g: "f1 = (dm_fabric m)\<lparr>fb_store := g\<rparr>" "alike (store_of m) g"
    "\<And>gs M. sound gs g M = sound gs (store_of m) M"
    and qk: "\<And>k. q = Ok k \<Longrightarrow> k < stream_count m \<and> stream_event (dm_fabric m) k = ID spec"
    using grant_stream_cases [OF st] by metis
  let ?m1 = "with_fabric f1 m"
  have ok1: "dynamic_ok ?m1" using store_alike_ok [OF ok g(2,3)] g(1) by simp
  have "dynamic_ok (with_fabric f m)
    \<and> same_streams (dm_fabric m) f
    \<and> (r = Ok () \<longrightarrow> (\<exists>k. k < stream_count m \<and> stream_event (dm_fabric m) k = ID spec
      \<and> stream_leases (snd (fb_streams f ! k)) = [dt_allocation (snd (fb_streams (dm_fabric m) ! k))]
      \<and> dy_closed (dt_state (snd (fb_streams f ! k)))))"
  proof (cases q)
    case (Err e)
    then have "f = f1" "r = Err e" using run st by (simp_all add: close_stream_def)
    then show ?thesis using ok1 g(1) by auto
  next
    case (Ok k)
    note kk = qk [OF Ok]
    have k1: "k < stream_count ?m1" using kk g(1) by simp
    obtain b where b: "dynamic_close (scene k (dm_fabric ?m1)) = b" by blast
    have f: "f = put_scene k b f1" and r: "r = Ok ()" using run st Ok b by (simp_all add: close_stream_def)
    note cl = dynamic_close_ok [OF dynamic_scene_ok [OF ok1 k1, unfolded scene_parts] b [unfolded scene_parts]]
    have "dynamic_ok (with_fabric f m)"
    proof (rule scene_step_ok [OF ok1 k1])
      show "dm_fabric (with_fabric f m) = put_scene k b (dm_fabric ?m1)" by (simp add: f)
      show "dm_logs (with_fabric f m) = (dm_logs ?m1)[k := dm_logs ?m1 ! k]" by simp
      show "other_leases (with_fabric f m) k = other_leases ?m1 k" by (rule other_leases_eq) (simp_all add: f)
    qed (use cl in simp_all)
    moreover have "f = put_scene k b (dm_fabric m)" using f g(1) by (simp add: put_scene_def)
    moreover have "static_part (snd b) = static_part (snd (fb_streams (dm_fabric m) ! k))" using cl g(1) by simp
    ultimately have "dynamic_ok (with_fabric f m)" "same_streams (dm_fabric m) f"
      using kk same_streams_put [of k "dm_fabric m" b] by simp_all
    moreover have "stream_leases (snd (fb_streams f ! k)) = [dt_allocation (snd (fb_streams (dm_fabric m) ! k))]"
      "dy_closed (dt_state (snd (fb_streams f ! k)))"
      using cl g(1) f k1 by simp_all
    ultimately show ?thesis using kk by blast
  qed
  then show "dynamic_ok (with_fabric f m)"
    "same_streams (dm_fabric m) f"
    "r = Ok () \<Longrightarrow> \<exists>k. k < stream_count m \<and> stream_event (dm_fabric m) k = ID spec
      \<and> stream_leases (snd (fb_streams f ! k)) = [dt_allocation (snd (fb_streams (dm_fabric m) ! k))]
      \<and> dy_closed (dt_state (snd (fb_streams f ! k)))" by blast+
qed

text \<open>A step on one scene that leaves its log, its table and every other lease alone.\<close>

lemma quiet_scene_ok:
  assumes ok: "dynamic_ok m" and k: "k < stream_count m" and t: "trims (scene k (dm_fabric m)) b"
    and sc: "scene_ok (dm_guards m) (other_leases m k) (dm_logs m ! k) b"
  shows "dynamic_ok (with_fabric (put_scene k b (dm_fabric m)) m)" (is "dynamic_ok ?m")
proof (rule scene_step_ok [OF ok k])
  show "dm_logs ?m = (dm_logs m)[k := dm_logs m ! k]" by simp
  show "other_leases ?m k = other_leases m k" by (rule other_leases_eq) simp_all
  show "framed (store_of m) (fst b)" using trimsD(1) [OF t] by (simp add: scene_def)
  show "dy_closed (dt_state (snd b)) \<or> dy_closed (dt_state (snd b)) = dy_closed (state_of m k)
      \<and> dy_subscribers (dt_state (snd b)) = dy_subscribers (state_of m k)"
    using trimsD [OF t] by (simp add: scene_def)
qed (use sc in simp_all)

lemma maintain_streams_ok:
  assumes "dynamic_ok m" and "\<forall>k \<in> set ks. k < stream_count m"
  shows "dynamic_ok (with_fabric (maintain_streams ks (dm_fabric m)) m)
    \<and> same_streams (dm_fabric m) (maintain_streams ks (dm_fabric m))"
  using assms
proof (induction ks arbitrary: m)
  case (Cons k ks)
  let ?b = "dynamic_maintain (scene k (dm_fabric m))"
  let ?m1 = "with_fabric (put_scene k ?b (dm_fabric m)) m"
  have k: "k < stream_count m" using Cons.prems(2) by simp
  note mt = dynamic_maintain_ok [OF dynamic_scene_ok [OF Cons.prems(1) k]]
  have ok1: "dynamic_ok ?m1" using quiet_scene_ok [OF Cons.prems(1) k] mt by blast
  have "\<forall>k \<in> set ks. k < stream_count ?m1" using Cons.prems(2) by simp
  from Cons.IH [OF ok1 this]
  have ih: "dynamic_ok (with_fabric (maintain_streams (k # ks) (dm_fabric m)) m)"
    "same_streams (dm_fabric ?m1) (maintain_streams (k # ks) (dm_fabric m))" by simp_all
  have "same_streams (dm_fabric m) (dm_fabric ?m1)"
    using same_streams_put [OF k] trimsD(2) [OF conjunct2 [OF mt]] by (simp add: scene_def)
  then show ?case using ih same_streams_trans by blast
qed simp

lemma emit_alike: "alike g (emit ns g)"
  by (simp add: alike_def)

lemma fabric_maintain_ok:
  assumes ok: "dynamic_ok m"
  shows "dynamic_ok (with_fabric (fabric_maintain (dm_fabric m)) m)"
    and "same_streams (dm_fabric m) (fabric_maintain (dm_fabric m))"
proof -
  let ?f = "maintain_streams [0..<stream_count m] (dm_fabric m)"
  have "\<forall>k \<in> set [0..<stream_count m]. k < stream_count m" by simp
  note ms = maintain_streams_ok [OF ok this]
  obtain ns where ns: "maintain_tree 0 (fb_store ?f) = emit ns (fb_store ?f)"
    using maintain_tree_emits by blast
  have eq: "fabric_maintain (dm_fabric m) = ?f\<lparr>fb_store := emit ns (fb_store ?f)\<rparr>"
    by (simp add: fabric_maintain_def Let_def ns)
  have "dynamic_ok (with_fabric ((dm_fabric (with_fabric ?f m))\<lparr>fb_store := emit ns (fb_store ?f)\<rparr>) (with_fabric ?f m))"
    by (rule store_alike_ok) (use ms emit_alike in simp_all)
  then show "dynamic_ok (with_fabric (fabric_maintain (dm_fabric m)) m)" by (simp add: eq)
  show "same_streams (dm_fabric m) (fabric_maintain (dm_fabric m))" using ms by (simp add: eq)
qed

lemma contend_ok:
  assumes ok: "dynamic_ok m" and k: "k < stream_count m"
  shows "dynamic_ok (with_fabric (put_scene k (store_of m, (snd (scene k (dm_fabric m)))\<lparr>dt_busy := bs\<rparr>) (dm_fabric m)) m)"
  by (rule quiet_scene_ok [OF ok k]) (use dynamic_scene_ok [OF ok k] in \<open>simp_all add: scene_parts\<close>)

lemma grants_step_ok:
  assumes ok: "dynamic_ok m"
  shows "dynamic_ok (fst (grants_step m c))"
    and "fb_streams (dm_fabric (fst (grants_step m c))) = fb_streams (dm_fabric m)"
    and "dm_logs (fst (grants_step m c)) = dm_logs m" and "dm_positions (fst (grants_step m c)) = dm_positions m"
    and "dm_receivers (fst (grants_step m c)) = dm_receivers m"
proof -
  let ?n = "length (fabric_leases m)" and ?v = "grant_view m"
  let ?c = "shift_call ?n c"
  obtain v out where run: "grant_step ?v ?c = (v, out)" by (cases "grant_step ?v ?c")
  let ?m = "m\<lparr>dm_fabric := (dm_fabric m)\<lparr>fb_store := gm_store v\<rparr>, dm_held := drop ?n (gm_leases v), dm_guards := gm_guards v\<rparr>"
  have eq: "fst (grants_step m c) = (if grant_allowed m c then ?m else m)"
    using run by (simp add: grants_step_def Let_def)
  then show "fb_streams (dm_fabric (fst (grants_step m c))) = fb_streams (dm_fabric m)"
    "dm_logs (fst (grants_step m c)) = dm_logs m" "dm_positions (fst (grants_step m c)) = dm_positions m"
    "dm_receivers (fst (grants_step m c)) = dm_receivers m" by simp_all
  have "dynamic_ok ?m" if allowed: "grant_allowed m c"
  proof -
    have okv: "machine_ok ?v" using ok by (simp add: dynamic_ok_def)
    then have okv': "machine_ok v" using machine_ok_step [OF okv, of ?c] run by simp
    have "take ?n (gm_leases v) = take ?n (gm_leases ?v)"
      using grant_step_leases [of ?c ?n ?v] run by (cases c) (auto simp: grant_view_def)
    then have "gm_leases v = fabric_leases m @ drop ?n (gm_leases v)"
      using append_take_drop_id [of ?n "gm_leases v"] by (simp add: grant_view_def)
    then have "grant_view ?m = v" by (simp add: grant_view_def fabric_leases_def)
    then have a: "machine_ok (grant_view ?m)" using okv' by simp
    have handles: "handle (gm_store v) i" if "handle (store_of m) i" "\<And>j. c = Drop_handle j \<Longrightarrow> i \<noteq> j" for i
      using grant_step_handle [OF okv, of i ?c] that run by (cases c) (auto simp: grant_view_def)
    have "stable (store_of m) (gm_store v)" using stable_step [OF okv, of ?c] run by (simp add: grant_view_def)
    moreover have "tree_ok (essences (store_of m))" "tree_ok (essences (gm_store v))"
      using machine_trees [OF okv] machine_trees [OF okv'] by (simp_all add: grant_view_def)
    ultimately have rev: "length (gr_nodes (store_of m)) \<le> length (gr_nodes (gm_store v))"
      "\<And>i. i < length (gr_nodes (store_of m)) \<Longrightarrow> is_revoked (store_of m) i \<Longrightarrow> is_revoked (gm_store v) i"
      using stable_revoked by (auto simp: stable_def)
    have "handle (gm_store v) 0"
      using handles [of 0] ok allowed by (cases c) (auto simp: dynamic_ok_def streams_ok_def)
    then have "streams_ok ?m"
      using ok by (auto simp: dynamic_ok_def streams_ok_def intro: stream_good_shrink [OF _ rev])
    moreover have "clients_ok m" using ok by (simp add: dynamic_ok_def)
    then have "clients_ok ?m"
    proof (rule clients_keep)
      fix i
      assume i: "i \<in> sd_grant ` (set (dm_senders m) \<union> pp_sender ` set (dm_prepared m))
          \<union> {rc_grant rc | rc. Some rc \<in> set (dm_receivers m)}" and h: "handle (store_of m) i"
      have "i \<noteq> j" if "c = Drop_handle j" for j
        using allowed i that by (fastforce simp: list_all_iff)
      then show "handle (store_of ?m) i" using handles [OF h] by simp
    qed simp_all
    ultimately show ?thesis using a by (simp add: dynamic_ok_def)
  qed
  then show "dynamic_ok (fst (grants_step m c))" using eq ok by simp
qed

lemma fabric_grant_step:
  assumes "dynamic_ok m"
  shows "with_fabric (fst (fabric_grant ps l (dm_fabric m))) m = m \<or>
    with_fabric (fst (fabric_grant ps l (dm_fabric m))) m = fst (grants_step m (Restrict 0 ps l))"
proof -
  have h: "handle (store_of m) 0" using assms by (simp add: dynamic_ok_def streams_ok_def)
  show ?thesis
  proof (cases "list_ex (\<lambda>p. event_position (pm_event p) (fb_streams (dm_fabric m)) = None) ps")
    case True
    then show ?thesis by (simp add: fabric_grant_def)
  next
    case False
    obtain g r where run: "grant_restrict 0 ps l (store_of m) = (g, r)" by (metis prod.exhaust)
    then show ?thesis using False h
      by (simp add: fabric_grant_def grants_step_def grant_view_def Let_def with_fabric_def)
  qed
qed

lemma stream_new_good:
  assumes "0 < cf_capacity config" and "DELIVERY spec = Latest \<longrightarrow> cf_capacity config = 1"
  shows "stream_good g (stream_new spec config changed allocation) []"
    and "stream_leases (stream_new spec config changed allocation) = [allocation]"
  using assms by (auto simp: stream_new_def stream_good_def window_def stream_leases_def)

lemma check_existing_ok:
  assumes ok: "dynamic_ok m" and k: "k < stream_count m" and run: "check_existing spec config k (dm_fabric m) = (f, r)"
  shows "dynamic_ok (with_fabric f m) \<and> same_streams (dm_fabric m) f"
proof -
  obtain g s where b: "drop_guard True False (scene k (dm_fabric m)) = (g, s)"
    by (cases "drop_guard True False (scene k (dm_fabric m))")
  note gu = guard_unchanged [OF b [unfolded scene_parts]]
  have "dynamic_ok (with_fabric (put_scene k (g, s) (dm_fabric m)) m)"
    by (rule quiet_scene_ok [OF ok k]) (use dynamic_scene_ok [OF ok k] gu(1,2) in \<open>simp_all add: scene_parts\<close>)
  moreover have "same_streams (dm_fabric m) (put_scene k (g, s) (dm_fabric m))"
    by (rule same_streams_put [OF k]) (simp add: fixed_static [OF gu(5)])
  moreover have "f = dm_fabric m \<or> f = put_scene k (g, s) (dm_fabric m)"
    using run b by (auto simp: check_existing_def Let_def split: if_splits)
  ultimately show ?thesis using ok by auto
qed

lemma event_position_range: "event_position e ps = Some k \<Longrightarrow> k < length ps"
  by (induction ps arbitrary: k) (auto split: if_splits)

lemma with_fabric_logs [simp]: "(with_fabric f m)\<lparr>dm_logs := dm_logs m\<rparr> = with_fabric f m"
  by (simp add: with_fabric_def)

lemma create_stream_ok:
  assumes ok: "dynamic_ok m" and run: "create_stream memory spec config (dm_fabric m) = (f, r)"
  shows "dynamic_ok ((with_fabric f m)\<lparr>dm_logs := dm_logs m
      @ replicate (length (fb_streams f) - stream_count m) []\<rparr>)"
    and "same_streams (dm_fabric m) f \<or> (\<exists>p. fb_streams f = fb_streams (dm_fabric m) @ [p])"
proof -
  let ?allowance = "limits_ZERO\<lparr>li_streams := 1, li_retained_items := cf_capacity config,
            li_subscriptions := cf_subscribers config, li_waiters := cf_waiters config\<rparr>"
  have h0: "handle (store_of m) 0" using ok by (simp add: dynamic_ok_def streams_ok_def)
  have done': "dynamic_ok ((with_fabric f m)\<lparr>dm_logs := dm_logs m @ replicate (length (fb_streams f) - stream_count m) []\<rparr>)
      \<and> (same_streams (dm_fabric m) f \<or> (\<exists>p. fb_streams f = fb_streams (dm_fabric m) @ [p]))"
    if a: "dynamic_ok (with_fabric f m)" "same_streams (dm_fabric m) f"
    using a same_streamsD(1) [OF a(2)] by simp
  have "dynamic_ok ((with_fabric f m)\<lparr>dm_logs := dm_logs m @ replicate (length (fb_streams f) - stream_count m) []\<rparr>)
      \<and> (same_streams (dm_fabric m) f \<or> (\<exists>p. fb_streams f = fb_streams (dm_fabric m) @ [p]))"
  proof (cases "limits_validate ?allowance = Ok () \<and> \<not> (cf_capacity config = 0 \<or> DELIVERY spec = Latest \<and> cf_capacity config \<noteq> 1)")
    case False
    then have f: "f = dm_fabric m"
      using run by (auto simp: create_stream_def Let_def split: result.splits if_splits)
    show ?thesis by (rule done') (simp_all add: f ok)
  next
    case True
    have c: "(cf_capacity config = 0 \<or> DELIVERY spec = Latest \<and> cf_capacity config \<noteq> 1) = False"
      and v: "limits_validate ?allowance = Ok ()" using True by blast+
    have cap_ok: "0 < cf_capacity config \<and> (DELIVERY spec = Latest \<longrightarrow> cf_capacity config = 1)" using True by auto
    note run = run [unfolded create_stream_def Let_def c v, simplified]
    show ?thesis
    proof (cases "event_position (ID spec) (fb_streams (dm_fabric m))")
      case (Some k)
      then have "check_existing spec config k (dm_fabric m) = (f, r)" using run by simp
      from check_existing_ok [OF ok event_position_range [OF Some] this] show ?thesis using done' by blast
    next
      case None
      obtain g q where ch: "try_charge 0 ?allowance (store_of m) = (g, q)" by (metis prod.exhaust)
      from dynamic_sound [OF ok] h0 ch show ?thesis
      proof (cases rule: try_charge_sound)
        case (refused e ns)
        then have f: "f = (dm_fabric m)\<lparr>fb_store := emit ns (store_of m)\<rparr>"
          using run None ch by simp
        have "dynamic_ok (with_fabric f m)"
          unfolding f by (rule store_alike_ok [OF ok emit_alike]) simp
        then show ?thesis by (rule done') (simp add: f)
      next
        case (charged l)
        show ?thesis
        proof (cases memory)
          case False
          then have f: "f = (dm_fabric m)\<lparr>fb_store := drop_lease l g\<rparr>"
            using run None ch charged(1) False by simp
          have "dynamic_ok (with_fabric f m)"
          proof (rule store_step_ok [OF ok framed_alike [OF framed_trans [OF charged(3) framed_drop_lease]]])
            show "sound (dm_guards m) (drop_lease l g) (mset (fabric_leases (with_fabric f m) @ dm_held (with_fabric f m)))"
              using sound_drop_lease [OF charged(2)] by (simp add: fabric_leases_def f)
          qed (simp_all add: f)
          then show ?thesis by (rule done') (simp add: f)
        next
          case True
          let ?new = "stream_new spec config (stream_count m) l"
          let ?g = "g\<lparr>gr_alive := gr_alive g @ [stream_count m]\<rparr>"
          have f: "f = (dm_fabric m)\<lparr>fb_store := ?g, fb_streams := fb_streams (dm_fabric m) @ [(ID spec, ?new)]\<rparr>"
            using run True None ch charged(1) by simp
          let ?m = "(with_fabric f m)\<lparr>dm_logs := dm_logs m @ [[]]\<rparr>"
          note new = stream_new_good [of config spec]
          have like: "alike (store_of m) ?g"
            using alike_trans [OF framed_alike [OF charged(3)] alive_alike] .
          have cap: "0 < cf_capacity config" "DELIVERY spec = Latest \<longrightarrow> cf_capacity config = 1"
            using cap_ok by auto
          have "mset (fabric_leases ?m @ dm_held ?m) = add_mset l (mset (fabric_leases m @ dm_held m))"
            using new(2) [OF cap] by (simp add: fabric_leases_def f)
          then have "machine_ok (grant_view ?m)"
            using charged(2) by (simp add: machine_ok_sound grant_view_def f)
          moreover have "streams_ok ?m"
            using ok like new(1) [OF cap] by (auto simp: streams_ok_def dynamic_ok_def f nth_append less_Suc_eq
                stream_good_alike [OF like] alike_def)
          moreover have "clients_ok m" using ok by (simp add: dynamic_ok_def)
          then have "clients_ok ?m"
          proof (rule clients_keep)
            have "length (dm_logs m) = stream_count m" using ok by (simp add: dynamic_ok_def streams_ok_def)
            then show "length (dm_logs m ! k) \<le> length (dm_logs ?m ! k)" if "k < stream_count m" for k
              using that by (simp add: nth_append)
          qed (use like in \<open>simp_all add: f nth_append alike_def\<close>)
          ultimately have "dynamic_ok ?m" by (simp add: dynamic_ok_def)
          then show ?thesis by (simp add: f)
        qed
      qed
    qed
  qed
  then show "dynamic_ok ((with_fabric f m)\<lparr>dm_logs := dm_logs m @ replicate (length (fb_streams f) - stream_count m) []\<rparr>)"
    "same_streams (dm_fabric m) f \<or> (\<exists>p. fb_streams f = fb_streams (dm_fabric m) @ [p])" by blast+
qed

lemma dynamic_ok_step: "dynamic_ok m \<Longrightarrow> dynamic_ok (fst (dynamic_step m c))"
proof (cases c)
  case (Create memory spec config)
  assume ok: "dynamic_ok m"
  obtain f r where run: "create_stream memory spec config (dm_fabric m) = (f, r)" by (metis prod.exhaust)
  show ?thesis using create_stream_ok(1) [OF ok run] Create run by simp
next
  case (Close_stream spec)
  assume ok: "dynamic_ok m"
  obtain f r where run: "close_stream spec (dm_fabric m) = (f, r)" by (metis prod.exhaust)
  show ?thesis using close_stream_ok(1) [OF ok run] Close_stream run by simp
next
  case (Fabric_grant ps l)
  assume ok: "dynamic_ok m"
  have "dynamic_ok (with_fabric (fst (fabric_grant ps l (dm_fabric m))) m)"
    using fabric_grant_step [OF ok, of ps l] grants_step_ok(1) [OF ok] ok by metis
  then show ?thesis using Fabric_grant by (cases "fabric_grant ps l (dm_fabric m)") simp
next
  case Fabric_maintain
  assume ok: "dynamic_ok m"
  show ?thesis using fabric_maintain_ok(1) [OF ok] Fabric_maintain by simp
next
  case (Open_sender i spec)
  assume ok: "dynamic_ok m"
  obtain f r where run: "grant_sender i spec (dm_fabric m) = (f, r)" by (metis prod.exhaust)
  show ?thesis using open_sender_ok(1) [OF ok _ run] Open_sender run ok by simp
next
  case (Open_receiver i spec role)
  assume ok: "dynamic_ok m"
  obtain f r where run: "grant_subscribe i spec role (dm_fabric m) = (f, r)" by (metis prod.exhaust)
  show ?thesis using open_receiver_ok(1) [OF ok _ run] Open_receiver run ok by (cases r) simp_all
next
  case (Send_now sd v)
  assume ok: "dynamic_ok m"
  obtain f r where run: "sender_send_now sd v (dm_fabric m) = (f, r)" by (metis prod.exhaust)
  show ?thesis using send_now_ok(2) [OF ok _ run] Send_now run ok by simp
next
  case (Prepare sd v)
  assume ok: "dynamic_ok m"
  obtain f r where run: "sender_prepare sd v (dm_fabric m) = (f, r)" by (metis prod.exhaust)
  show ?thesis using prepare_ok(1) [OF ok _ run] Prepare run ok by simp
next
  case (Try_send p)
  assume ok: "dynamic_ok m"
  obtain f r where run: "prepared_try_send p (dm_fabric m) = (f, r)" by (metis prod.exhaust)
  show ?thesis using try_send_ok(2) [OF ok _ run] Try_send run ok by simp
next
  case (Into_inner p)
  assume ok: "dynamic_ok m"
  obtain f v where run: "prepared_into_inner p (dm_fabric m) = (f, v)" by (metis prod.exhaust)
  show ?thesis using into_inner_ok [OF ok, of p] Into_inner run ok by simp
next
  case (Try_recv n)
  assume ok: "dynamic_ok m"
  show ?thesis
  proof (cases "live_receiver m n")
    case (Some rc)
    obtain f r where run: "receiver_try_recv rc (dm_fabric m) = (f, r)" by (metis prod.exhaust)
    note rv = receive_ok(1) [OF ok Some run]
    show ?thesis using received_step_ok [OF ok Some conjunct2 [OF rv]] conjunct1 [OF rv] Try_recv Some run by simp
  qed (use Try_recv ok in simp)
next
  case (Recv_now n)
  assume ok: "dynamic_ok m"
  show ?thesis
  proof (cases "live_receiver m n")
    case (Some rc)
    obtain f r where run: "receiver_recv_now rc (dm_fabric m) = (f, r)" by (metis prod.exhaust)
    note rv = receive_ok(2) [OF ok Some run]
    show ?thesis using received_step_ok [OF ok Some conjunct2 [OF rv]] conjunct1 [OF rv] Recv_now Some run by simp
  qed (use Recv_now ok in simp)
next
  case (Drop_receiver n)
  assume ok: "dynamic_ok m"
  show ?thesis using drop_receiver_step_ok [OF ok] Drop_receiver ok by (cases "live_receiver m n") simp_all
next
  case (Contend k bs)
  assume ok: "dynamic_ok m"
  show ?thesis using contend_ok [OF ok] Contend ok by simp
next
  case (Grants c')
  assume ok: "dynamic_ok m"
  show ?thesis using grants_step_ok(1) [OF ok] Grants by simp
qed

lemma dynamic_ok_new:
  assumes "fabric_new l = Ok f"
  shows "dynamic_ok (dynamic_machine_new f)"
proof -
  have f: "f = \<lparr>fb_store = gm_store (machine_new l), fb_streams = []\<rparr>"
    using assms by (auto simp: fabric_new_def split: result.splits)
  have "grant_view (dynamic_machine_new f) = machine_new l"
    by (simp add: grant_view_def dynamic_machine_new_def f fabric_leases_def machine_new_def)
  then have "machine_ok (grant_view (dynamic_machine_new f))" using machine_ok_new by simp
  moreover have "handle (gm_store (machine_new l)) 0"
    by (simp add: handle_def machine_new_def node_root_def node_new_def)
  ultimately show ?thesis
    by (simp add: dynamic_ok_def streams_ok_def clients_ok_def dynamic_machine_new_def f live_receiver_def)
qed

definition dynamic_reachable :: "limits \<Rightarrow> 't dynamic_call list \<Rightarrow> 't dynamic_machine \<Rightarrow> 't dynamic_out list \<Rightarrow> bool" where
  "dynamic_reachable l cs m outs \<longleftrightarrow>
     (\<exists>f. fabric_new l = Ok f \<and> run_calls dynamic_step (dynamic_machine_new f) cs = (m, outs))"

lemma reachable_dynamic_ok: "dynamic_reachable l cs m outs \<Longrightarrow> dynamic_ok m"
  using run_calls_invariant [where good = dynamic_ok and step = dynamic_step, OF dynamic_ok_step dynamic_ok_new, of l _ cs]
  by (auto simp: dynamic_reachable_def)

end
