(* ===== verification/Hiway_Dynamic_Properties.thy ===== *)
theory Hiway_Dynamic_Properties
  imports Hiway_Dynamic_Machine
begin

text \<open>
  What the streams of a \<open>DynamicFabric\<close> promise: each stream of the registry is an event stream
  in the sense of the common interface, whatever its clients, its grants and the other streams
  do; a witness run is at the end.
\<close>

subsection \<open>The registry and the logs across a step\<close>

fun dynamic_admits :: "nat \<Rightarrow> 't dynamic_call \<Rightarrow> 't dynamic_out \<Rightarrow> 't list" where
  "dynamic_admits e (Send_now sd v) out =
     (case out of Sent_now r \<Rightarrow> if is_ok r \<and> sd_stream sd = e then [v] else [] | _ \<Rightarrow> [])"
| "dynamic_admits e (Try_send p) out =
     (case out of Sent_prepared r \<Rightarrow> if is_ok r \<and> sd_stream (pp_sender p) = e then [pp_value p] else [] | _ \<Rightarrow> [])"
| "dynamic_admits e _ out = []"

fun item_of :: "'t dynamic_out \<Rightarrow> 't stream_item list" where
  "item_of (Item r) = (case r of Ok (Some it) \<Rightarrow> [it] | _ \<Rightarrow> [])"
| "item_of _ = []"

fun dynamic_takes :: "'t dynamic_call \<Rightarrow> 't dynamic_out \<Rightarrow> nat \<Rightarrow> 't stream_item list" where
  "dynamic_takes (Try_recv k) out n = (if n = k then item_of out else [])"
| "dynamic_takes (Recv_now k) out n = (if n = k then item_of out else [])"
| "dynamic_takes _ out n = []"

fun drops_receiver :: "'t dynamic_call \<Rightarrow> nat \<Rightarrow> bool" where
  "drops_receiver (Drop_receiver k) n = (n = k)"
| "drops_receiver _ n = False"

text \<open>\<open>dynamic_cursor e m n\<close>: where receiver \<open>n\<close> of stream \<open>e\<close> stands.\<close>

definition dynamic_cursor :: "nat \<Rightarrow> 't dynamic_machine \<Rightarrow> nat \<Rightarrow> (nat \<times> subscription_role) option" where
  "dynamic_cursor e m n =
     (case live_receiver m n of
        Some rc \<Rightarrow> if rc_stream rc = e then Some (dm_positions m ! n) else None
      | None \<Rightarrow> None)"

abbreviation dynamic_good :: "nat \<Rightarrow> 't dynamic_machine \<Rightarrow> bool" where
  "dynamic_good e m \<equiv> dynamic_ok m \<and> e < stream_count m"

abbreviation dynamic_delivery :: "nat \<Rightarrow> 't dynamic_machine \<Rightarrow> delivery" where
  "dynamic_delivery e m \<equiv> dt_delivery (snd (fb_streams (dm_fabric m) ! e))"

text \<open>\<open>carries m m'\<close>: the registry of \<open>m'\<close> extends that of \<open>m\<close>.\<close>

definition carries :: "'t fabric \<Rightarrow> 't fabric \<Rightarrow> bool" where
  "carries f f' \<longleftrightarrow> length (fb_streams f) \<le> length (fb_streams f')
     \<and> (\<forall>k < length (fb_streams f). stream_event f' k = stream_event f k
          \<and> static_part (snd (fb_streams f' ! k)) = static_part (snd (fb_streams f ! k)))"

lemma carries_refl [simp]: "carries f f"
  by (simp add: carries_def)

lemma carries_same_streams: "same_streams f f' \<Longrightarrow> carries f f'"
  using same_streamsD [of f f'] by (simp add: carries_def)

lemma carries_put:
  "k < length (fb_streams f) \<Longrightarrow> static_part (snd b) = static_part (snd (scene k f)) \<Longrightarrow> carries f (put_scene k b f)"
  by (rule carries_same_streams, rule same_streams_put) (simp_all add: scene_def)

lemma carries_scene:
  assumes "f' = put_scene k (scene k f') f" and "k < length (fb_streams f)"
    and "static_part (snd (scene k f')) = static_part (snd (scene k f))"
  shows "carries f f'"
  by (subst assms(1), rule carries_put) (use assms(2,3) in simp_all)

lemma carries_delivery: "carries f f' \<Longrightarrow> k < length (fb_streams f) \<Longrightarrow>
    dt_delivery (snd (fb_streams f' ! k)) = dt_delivery (snd (fb_streams f ! k))"
  by (auto simp: carries_def static_part_def)

lemma step_carries:
  assumes ok: "dynamic_ok m"
  shows "carries (dm_fabric m) (dm_fabric (fst (dynamic_step m c)))"
proof (cases c)
  case (Create memory spec config)
  obtain f r where run: "create_stream memory spec config (dm_fabric m) = (f, r)" by (metis prod.exhaust)
  show ?thesis using create_stream_ok(2) [OF ok run] Create run carries_same_streams
    by (auto simp: carries_def nth_append)
next
  case (Close_stream spec)
  obtain f r where run: "close_stream spec (dm_fabric m) = (f, r)" by (metis prod.exhaust)
  show ?thesis using close_stream_ok(2) [OF ok run] Close_stream run by (simp add: carries_same_streams)
next
  case (Fabric_grant ps l)
  have "fb_streams (fst (fabric_grant ps l (dm_fabric m))) = fb_streams (dm_fabric m)"
    by (auto simp: fabric_grant_def split: prod.split)
  then show ?thesis using Fabric_grant
    by (cases "fabric_grant ps l (dm_fabric m)") (simp add: carries_def)
next
  case Fabric_maintain
  show ?thesis using fabric_maintain_ok(2) [OF ok] Fabric_maintain by (simp add: carries_same_streams)
next
  case (Open_sender i spec)
  obtain f r where run: "grant_sender i spec (dm_fabric m) = (f, r)" by (metis prod.exhaust)
  show ?thesis using open_sender_ok(2) [OF ok _ run] Open_sender run by (simp add: carries_same_streams)
next
  case (Open_receiver i spec role)
  obtain f r where run: "grant_subscribe i spec role (dm_fabric m) = (f, r)" by (metis prod.exhaust)
  show ?thesis using open_receiver_ok(2) [OF ok _ run] Open_receiver run
    by (cases r) (simp_all add: carries_same_streams)
next
  case (Send_now sd v)
  obtain f r where run: "sender_send_now sd v (dm_fabric m) = (f, r)" by (metis prod.exhaust)
  have "carries (dm_fabric m) f" if "sd \<in> set (dm_senders m)"
    by (rule carries_scene [OF send_now_ok(1) [OF ok that run]])
      (use send_now_ok(3) [OF ok that run] sender_fitsD(1) [OF ok, of sd] that in \<open>simp_all add: sent_def\<close>)
  then show ?thesis using Send_now run by simp
next
  case (Prepare sd v)
  obtain f r where run: "sender_prepare sd v (dm_fabric m) = (f, r)" by (metis prod.exhaust)
  have "carries (dm_fabric m) f" if "sd \<in> set (dm_senders m)"
    by (rule carries_scene [OF prepare_ok(2) [OF ok that run]])
      (use trimsD(2) [OF prepare_ok(3) [OF ok that run]] sender_fitsD(1) [OF ok, of sd] that in simp_all)
  then show ?thesis using Prepare run by simp
next
  case (Try_send p)
  obtain f r where run: "prepared_try_send p (dm_fabric m) = (f, r)" by (metis prod.exhaust)
  have "carries (dm_fabric m) f" if "p \<in> set (dm_prepared m)"
    by (rule carries_scene [OF try_send_ok(1) [OF ok that run]])
      (use try_send_ok(4) [OF ok that run] sender_fitsD(1) [OF ok, of "pp_sender p"] that in auto)
  then show ?thesis using Try_send run by simp
next
  case (Into_inner p)
  then show ?thesis by (simp add: prepared_into_inner_def carries_def)
next
  case (Try_recv n)
  show ?thesis
  proof (cases "live_receiver m n")
    case (Some rc)
    obtain f r where run: "receiver_try_recv rc (dm_fabric m) = (f, r)" by (metis prod.exhaust)
    have "carries (dm_fabric m) f"
      by (rule carries_scene [OF conjunct1 [OF receive_ok(1) [OF ok Some run]]])
        (use receive_ok(1) [OF ok Some run] live_receiver_fits(4) [OF ok Some] in \<open>simp_all add: received_def\<close>)
    then show ?thesis using Try_recv Some run by simp
  qed (simp add: Try_recv)
next
  case (Recv_now n)
  show ?thesis
  proof (cases "live_receiver m n")
    case (Some rc)
    obtain f r where run: "receiver_recv_now rc (dm_fabric m) = (f, r)" by (metis prod.exhaust)
    have "carries (dm_fabric m) f"
      by (rule carries_scene [OF conjunct1 [OF receive_ok(2) [OF ok Some run]]])
        (use receive_ok(2) [OF ok Some run] live_receiver_fits(4) [OF ok Some] in \<open>simp_all add: received_def\<close>)
    then show ?thesis using Recv_now Some run by simp
  qed (simp add: Recv_now)
next
  case (Drop_receiver n)
  show ?thesis
  proof (cases "live_receiver m n")
    case (Some rc)
    then show ?thesis using Drop_receiver drop_receiver_step_ok(2) [OF ok Some]
      by (simp add: carries_same_streams)
  qed (simp add: Drop_receiver)
next
  case (Contend k bs)
  then show ?thesis by (auto intro!: carries_put simp: scene_def)
next
  case (Grants c')
  show ?thesis using grants_step_ok(2) [OF ok] Grants by (simp add: carries_def)
qed

lemma step_log:
  assumes ok: "dynamic_ok m" and e: "e < stream_count m"
  shows "dm_logs (fst (dynamic_step m c)) ! e = dm_logs m ! e @ dynamic_admits e c (snd (dynamic_step m c))"
proof -
  have l: "length (dm_logs m) = stream_count m" using ok by (simp add: dynamic_ok_def streams_ok_def)
  show ?thesis
  proof (cases c)
    case (Create memory spec config)
    then show ?thesis using l e by (simp add: nth_append split: prod.split)
  next
    case (Open_receiver i spec role)
    then show ?thesis by (auto split: prod.split result.split)
  next
    case (Send_now sd v)
    then show ?thesis using l e sender_fitsD(1) [OF ok, of sd]
      by (auto split: prod.split result.split)
  next
    case (Try_send p)
    then show ?thesis using l e sender_fitsD(1) [OF ok, of "pp_sender p"]
      by (auto split: prod.split result.split)
  next
    case (Grants c')
    have "dynamic_admits e (Grants c') out = []" for out :: "'a dynamic_out" by simp
    then show ?thesis using grants_step_ok(3) [OF ok] Grants by simp
  qed (auto split: prod.split option.split)
qed

lemma dynamic_cursor_keep:
  assumes "live_receiver m n = Some rc" and "live_receiver m' n = Some rc" and "dm_positions m' ! n = dm_positions m ! n"
  shows "dynamic_cursor e m' n = dynamic_cursor e m n"
  using assms by (simp add: dynamic_cursor_def)

text \<open>Where a receiver is after a call that is not its drop, and what a call gave it.\<close>

lemma step_receiver:
  assumes ok: "dynamic_ok m" and n: "live_receiver m n = Some rc" and c: "\<not> drops_receiver c n"
  shows "live_receiver (fst (dynamic_step m c)) n = Some rc"
    and "dynamic_takes c (snd (dynamic_step m c)) n = [] \<Longrightarrow> dm_positions (fst (dynamic_step m c)) ! n = dm_positions m ! n"
proof -
  note lf = live_receiver_fits [OF ok n]
  have rn: "dm_receivers m ! n = Some rc" using n by (simp add: live_receiver_def split: if_splits)
  have "live_receiver (fst (dynamic_step m c)) n = Some rc
    \<and> (dynamic_takes c (snd (dynamic_step m c)) n = [] \<longrightarrow> dm_positions (fst (dynamic_step m c)) ! n = dm_positions m ! n)"
  proof (cases c)
    case (Open_receiver i spec role)
    then show ?thesis using rn lf(2,3)
      by (auto simp: live_receiver_def nth_append split: prod.split result.split if_splits)
  next
    case (Send_now sd v)
    then show ?thesis using rn lf(2) by (auto simp: live_receiver_def log_value_def split: prod.split)
  next
    case (Try_send p)
    then show ?thesis using rn lf(2) by (auto simp: live_receiver_def log_value_def split: prod.split)
  next
    case (Try_recv k)
    then show ?thesis using rn lf(2,3)
      by (auto simp: live_receiver_def note_item_def nth_list_update split: prod.split option.splits result.split if_splits)
  next
    case (Recv_now k)
    then show ?thesis using rn lf(2,3)
      by (auto simp: live_receiver_def note_item_def nth_list_update split: prod.split option.splits result.split if_splits)
  next
    case (Drop_receiver k)
    then show ?thesis using rn c lf(2)
      by (auto simp: live_receiver_def nth_list_update split: option.splits if_splits)
  next
    case (Grants c')
    then show ?thesis using rn lf(2) grants_step_ok(4,5) [OF ok] by (simp add: live_receiver_def)
  qed (use rn lf(2) in \<open>auto simp: live_receiver_def split: prod.split result.split\<close>)
  then show "live_receiver (fst (dynamic_step m c)) n = Some rc"
    "dynamic_takes c (snd (dynamic_step m c)) n = [] \<Longrightarrow> dm_positions (fst (dynamic_step m c)) ! n = dm_positions m ! n"
    by blast+
qed

lemma received_position:
  assumes ok: "dynamic_ok m" and n: "live_receiver m n = Some rc" and p: "dm_positions m ! n = (q, role)"
    and rec: "received (dm_guards m) (other_leases m (rc_stream rc)) (dm_logs m ! rc_stream rc) (rc_grant rc) (rc_key rc)
      (scene (rc_stream rc) (dm_fabric m)) b (Ok (Some it))"
  shows "q \<le> item_start it \<and> item_start it < item_end it \<and> item_end it \<le> length (dm_logs m ! rc_stream rc)
    \<and> (dynamic_delivery (rc_stream rc) m = Ordered \<longrightarrow> item_start it = q)
    \<and> (case it of Data k v \<Rightarrow> v = dm_logs m ! rc_stream rc ! k | Gap _ _ \<Rightarrow> role \<noteq> Required)"
proof -
  note lf = live_receiver_fits [OF ok n]
  have open_: "\<not> dy_closed (state_of m (rc_stream rc))" using rec by (auto simp: received_def scene_parts)
  from receiver_cursor [OF lf(1) this] show ?thesis
    using rec p by (cases it) (auto simp: received_def scene_parts)
qed

lemma took_position:
  assumes ok: "dynamic_ok m" and n: "live_receiver m n = Some rc" and p: "dm_positions m ! n = (q, role)"
    and took: "dynamic_takes c (snd (dynamic_step m c)) n = [it]"
  shows "dm_positions (fst (dynamic_step m c)) ! n = (item_end it, role)
    \<and> q \<le> item_start it \<and> item_start it < item_end it \<and> item_end it \<le> length (dm_logs m ! rc_stream rc)
    \<and> (dynamic_delivery (rc_stream rc) m = Ordered \<longrightarrow> item_start it = q)
    \<and> (case it of Data k v \<Rightarrow> v = dm_logs m ! rc_stream rc ! k | Gap _ _ \<Rightarrow> role \<noteq> Required)"
proof -
  note lf = live_receiver_fits [OF ok n]
  obtain f where f: "(c = Try_recv n \<and> receiver_try_recv rc (dm_fabric m) = (f, Ok (Some it)))
      \<or> (c = Recv_now n \<and> receiver_recv_now rc (dm_fabric m) = (f, Ok (Some it)))"
    using took n by (cases c) (auto split: prod.splits option.splits if_splits result.splits)
  then have "received (dm_guards m) (other_leases m (rc_stream rc)) (dm_logs m ! rc_stream rc) (rc_grant rc) (rc_key rc)
      (scene (rc_stream rc) (dm_fabric m)) (scene (rc_stream rc) f) (Ok (Some it))"
    using receive_ok [OF ok n] by blast
  note r = received_position [OF ok n p this]
  moreover have "dm_positions (fst (dynamic_step m c)) ! n = (item_end it, role)"
    using f n p lf(3) by (auto simp: note_item_def)
  ultimately show ?thesis by blast
qed

lemma dynamic_takes_single: "dynamic_takes c out k = [] \<or> (\<exists>it. dynamic_takes c out k = [it])"
  by (cases c) (cases out; auto split: result.split option.split)+

lemma dynamic_cursor_Some:
  "dynamic_cursor e m n = Some p \<longleftrightarrow>
     (\<exists>rc. live_receiver m n = Some rc \<and> rc_stream rc = e \<and> dm_positions m ! n = p)"
  by (auto simp: dynamic_cursor_def split: option.splits)

interpretation dynamic: event_stream "dynamic_delivery e" "\<lambda>m. dm_logs m ! e" "dynamic_cursor e" "dynamic_good e"
  dynamic_step "dynamic_admits e" dynamic_takes drops_receiver for e
proof
  fix m :: "'a dynamic_machine" and c :: "'a dynamic_call" and out :: "'a dynamic_out" and k n r
    and it :: "'a stream_item" and e
  show "dynamic_takes c out k = [] \<or> (\<exists>it. dynamic_takes c out k = [it])" by (rule dynamic_takes_single)
  assume good: "dynamic_good e m"
  then have ok: "dynamic_ok m" and e: "e < stream_count m" by blast+
  note car = step_carries [OF ok, of c]
  show "dynamic_good e (fst (dynamic_step m c))"
    using dynamic_ok_step [OF ok] car e by (auto simp: carries_def)
  show "dynamic_delivery e (fst (dynamic_step m c)) = dynamic_delivery e m"
    by (rule carries_delivery [OF car e])
  show "dm_logs (fst (dynamic_step m c)) ! e = dm_logs m ! e @ dynamic_admits e c (snd (dynamic_step m c))"
    by (rule step_log [OF ok e])
  assume "dynamic_cursor e m k = Some (n, r)"
  then obtain rc where rc: "live_receiver m k = Some rc" "rc_stream rc = e" "dm_positions m ! k = (n, r)"
    by (auto simp: dynamic_cursor_Some)
  then show "n \<le> length (dm_logs m ! e)"
    using live_receiver_fits(1) [OF ok rc(1)] by (simp add: receiver_fits_def)
  show "dynamic_cursor e (fst (dynamic_step m c)) k = Some (n, r)"
    if "\<not> drops_receiver c k" "dynamic_takes c (snd (dynamic_step m c)) k = []"
    using step_receiver [OF ok rc(1) that(1)] that(2) rc by (simp add: dynamic_cursor_Some)
  assume took: "dynamic_takes c (snd (dynamic_step m c)) k = [it]"
  have "\<not> drops_receiver c k" using took by (cases c) auto
  note sr = step_receiver(1) [OF ok rc(1) this]
  show "dynamic_cursor e (fst (dynamic_step m c)) k = Some (item_end it, r) \<and> n \<le> item_start it
      \<and> item_start it < item_end it \<and> item_end it \<le> length (dm_logs m ! e)
      \<and> (dynamic_delivery e m = Ordered \<longrightarrow> item_start it = n)
      \<and> (case it of Data k v \<Rightarrow> v = dm_logs m ! e ! k | Gap _ _ \<Rightarrow> r \<noteq> Required)"
    using took_position [OF ok rc(1,3) took, unfolded rc(2)] sr rc(2) by (simp add: dynamic_cursor_Some)
qed

subsection \<open>Entering a grant and sending on an uncontended stream, exactly\<close>

lemma is_revoked_open:
  assumes "guards_ok g gs" and "handle g i" and "\<not> is_revoked g i"
  shows "gn_state (node g i) = state_word False (entered_count gs i) \<and> entered_count gs i < 2 ^ 63"
proof -
  have i: "i < length (gr_nodes g)" using assms(2) by (simp add: handle_def)
  then obtain r where r: "gn_state (node g i) = state_word r (entered_count gs i)" "entered_count gs i < 2 ^ 63"
    using assms(1) by (auto simp: guards_ok_def)
  obtain n where n: "length (gr_nodes g) = Suc n" using i by (cases "length (gr_nodes g)") auto
  then have "gn_state (node g i) AND REVOKED = 0"
    using assms(3) by (auto simp: is_revoked_def split: if_splits)
  then show ?thesis using r state_word_revoked [OF r(2), of r] by (cases r) simp_all
qed

lemma enter_mode_exact:
  assumes so: "sound gs g M" and h: "handle g i"
  shows "(case grant_check g i event right of
      Err e \<Rightarrow> enter_mode i event right notify g = (g, Err e)
    | Ok _ \<Rightarrow> if entered_count gs i = 2 ^ 63 - 1 then enter_mode i event right notify g = (g, Err TopicError_Capacity)
        else \<exists>g' op. enter_mode i event right notify g = (g', Ok op) \<and> og_notify op = notify
          \<and> drop_operation op g' = g \<and> (\<forall>j. is_revoked g' j = is_revoked g j)
          \<and> gr_notices g' = gr_notices g)"
proof (cases "grant_check g i event right")
  case (Ok u)
  have gu: "guards_ok g gs" using so by (simp add: sound_def)
  have "\<not> is_revoked g i" using Ok by (auto simp: grant_check_def split: if_splits)
  note st = is_revoked_open [OF gu h this]
  have c: "entered_count gs i < 2 ^ 63" and w: "gn_state (node g i) = state_word False (entered_count gs i)"
    using st by blast+
  note adv = advance_state_word [OF c, of False]
  show ?thesis
  proof (cases "entered_count gs i = 2 ^ 63 - 1")
    case True
    then show ?thesis using Ok w adv state_word_revoked [OF c, of False]
      by (simp add: enter_mode_def refusal_def)
  next
    case False
    let ?w = "state_word False (entered_count gs i + 1)"
    let ?g = "update_node i (\<lambda>n. n\<lparr>gn_state := ?w\<rparr>) g"
    have c': "entered_count gs i + 1 < 2 ^ 63" using c False by simp
    have rev: "is_revoked ?g j = is_revoked g j" for j
      unfolding is_revoked_def length_update_node using h w state_word_revoked [OF c, of False] state_word_revoked [OF c', of False]
      by (intro revoked_walk_marks) (auto simp: node_update_node)
    have a: "advance (gn_state (node g i)) = Some ?w" using adv w c' by simp
    have "enter_mode i event right notify g = (?g, Ok \<lparr>og_node = i, og_notify = notify\<rparr>)"
      using Ok a rev \<open>\<not> is_revoked g i\<close> by (simp add: enter_mode_def)
    moreover have "drop_operation \<lparr>og_node = i, og_notify = notify\<rparr> ?g = g"
      by (rule guards_ok_enter(2) [OF gu h a])
    moreover have "gr_notices ?g = gr_notices g" by (simp add: update_node_def)
    ultimately show ?thesis using Ok False rev by simp
  qed
qed (simp add: enter_mode_def)

lemma framed_grant_check:
  assumes "framed g g'" shows "grant_check g' i event right = grant_check g i event right"
proof -
  have perms: "map_option (map ea_permission) (gn_permissions (node g' i)) = map_option (map ea_permission) (gn_permissions (node g i))"
    using arg_cong [OF framedD(2) [OF assms, of i], of "\<lambda>e. map_option (map fst) (fst (snd (snd e)))"]
    by (simp add: essence_def option.map_comp comp_def)
  have pos: "position_of event as = position_of event bs" if "map ea_permission as = map ea_permission bs"
    for as bs :: "event_allowance list" using that
  proof (induction as arbitrary: bs)
    case (Cons a as)
    then obtain b bs' where "bs = b # bs'" by (cases bs) auto
    with Cons show ?case by simp
  qed simp
  have range: "position_of event as = Some k \<Longrightarrow> k < length as" for k and as :: "event_allowance list"
    by (induction as arbitrary: k) (auto split: if_splits)
  show ?thesis
  proof (cases "gn_permissions (node g i)")
    case None
    then show ?thesis using perms framed_is_revoked [OF assms] by (simp add: grant_check_def)
  next
    case (Some as)
    then obtain bs where bs: "gn_permissions (node g' i) = Some bs" "map ea_permission bs = map ea_permission as"
      using perms by auto
    have "ea_permission (bs ! k) = ea_permission (as ! k)" if "position_of event as = Some k" for k
      using range [OF that] arg_cong [OF bs(2), of "\<lambda>xs. xs ! k"] map_eq_imp_length_eq [OF bs(2)] by simp
    then show ?thesis using Some bs(1) pos [OF bs(2)] framed_is_revoked [OF assms]
      by (auto simp: grant_check_def split: option.split)
  qed
qed

lemma calm_try_lock: "dt_busy s = [] \<Longrightarrow> dynamic_try_lock s = (s, True)"
  by (simp add: dynamic_try_lock_def)

text \<open>What sending a prepared value does to an open, uncontended stream.\<close>

definition deferred_outcome :: "grants \<Rightarrow> 't dynamic_stream \<Rightarrow> 'v \<Rightarrow> (unit, 'v try_send_error) result" where
  "deferred_outcome g s v =
     (let st = dt_state s in
      if dy_closed st then Err (TrySend_Closed v)
      else if dy_tail st = u64_max then Err (TrySend_SequenceExhausted v)
      else if length (dy_entries st) < cf_capacity (dt_config s) then Ok ()
      else if front_is (\<lambda>e. required_needs g st (en_sequence e)) (dy_entries st) then Err (TrySend_Full v)
      else if dt_delivery s = Latest \<and> dy_retired st = None then Ok ()
      else Err (TrySend_MaintenanceRequired v))"

lemma commit_state_deferred:
  assumes "stream_good g s xs" and run: "commit_state g (dt_config s) (dt_delivery s) True v lease (dt_state s) = (st, dirty, r)"
  shows "(case r of Ok _ \<Rightarrow> Ok () | Err e \<Rightarrow> Err e) = deferred_outcome g s (v, lease)"
    and "r = Ok retired \<Longrightarrow> retired = None"
    and "r = Err (TrySend_MaintenanceRequired w) \<Longrightarrow> (st = (dt_state s)\<lparr>dy_needs_room := True\<rparr> \<and> dt_delivery s \<noteq> Latest
        \<or> st = dt_state s \<and> dt_delivery s = Latest) \<and> \<not> dirty"
proof -
  have "length (dy_entries (dt_state s)) \<le> cf_capacity (dt_config s)" "dy_tail (dt_state s) \<le> u64_max"
    "0 < cf_capacity (dt_config s)"
    using assms(1) by (auto simp: stream_good_def window_def)
  then show "(case r of Ok _ \<Rightarrow> Ok () | Err e \<Rightarrow> Err e) = deferred_outcome g s (v, lease)"
    "r = Ok retired \<Longrightarrow> retired = None"
    "r = Err (TrySend_MaintenanceRequired w) \<Longrightarrow> (st = (dt_state s)\<lparr>dy_needs_room := True\<rparr> \<and> dt_delivery s \<noteq> Latest
        \<or> st = dt_state s \<and> dt_delivery s = Latest) \<and> \<not> dirty"
    using run by (auto simp: commit_state_def deferred_outcome_def Let_def checked_add_def split: if_splits prod.splits)
qed

text \<open>Whether a publisher may enter, as its error.\<close>

definition publish_entry :: "operation_guard list \<Rightarrow> grants \<Rightarrow> nat \<Rightarrow> event_id \<Rightarrow> 'v \<Rightarrow> (unit, 'v try_send_error) result" where
  "publish_entry gs g i event v =
     (case grant_check g i event Rights_PUBLISH of
        Err e \<Rightarrow> Err (send_refusal e v)
      | Ok _ \<Rightarrow> if entered_count gs i = 2 ^ 63 - 1 then Err (TrySend_Contended v) else Ok ())"

lemma send_refusal_not_maintenance: "send_refusal e v \<noteq> TrySend_MaintenanceRequired w"
  by (cases e) simp_all

lemma dynamic_commit_calm:
  assumes ok: "scene_ok gs M xs (g, s)" and h: "handle g i" and calm: "dt_busy s = []"
    and run: "dynamic_commit i event v lease True (g, s) = (b, r)"
  shows "r = (case publish_entry gs g i event (v, lease) of Err e \<Rightarrow> Err e | Ok _ \<Rightarrow> deferred_outcome g s (v, lease))"
    and "r = Err (TrySend_MaintenanceRequired w) \<Longrightarrow> fst b = g \<and> dt_busy (snd b) = [] \<and> fixed_part (snd b) = fixed_part s
      \<and> dy_entries (dt_state (snd b)) = dy_entries (dt_state s) \<and> (dt_delivery s \<noteq> Latest \<longrightarrow> dy_needs_room (dt_state (snd b)))"
proof -
  have so: "sound gs g (mset (stream_leases s) + M)" and good: "stream_good g s xs" using ok by (simp_all add: scene_ok_def)
  have all: "r = (case publish_entry gs g i event (v, lease) of Err e \<Rightarrow> Err e | Ok _ \<Rightarrow> deferred_outcome g s (v, lease))
    \<and> (r = Err (TrySend_MaintenanceRequired w) \<longrightarrow> fst b = g \<and> dt_busy (snd b) = [] \<and> fixed_part (snd b) = fixed_part s
      \<and> dy_entries (dt_state (snd b)) = dy_entries (dt_state s) \<and> (dt_delivery s \<noteq> Latest \<longrightarrow> dy_needs_room (dt_state (snd b))))"
  proof (cases "publish_entry gs g i event (v, lease)")
    case (Err e)
    then show ?thesis using enter_mode_exact [OF so h, of event Rights_PUBLISH False] run
      by (auto simp: dynamic_commit.simps publish_entry_def send_refusal_not_maintenance split: result.splits if_splits)
  next
    case (Ok u)
    then obtain g' op where en: "enter_mode i event Rights_PUBLISH False g = (g', Ok op)" "drop_operation op g' = g"
      "\<And>j. is_revoked g' j = is_revoked g j"
      using enter_mode_exact [OF so h, of event Rights_PUBLISH False]
      by (auto simp: publish_entry_def split: result.splits if_splits)
    obtain st dirty q where cs: "commit_state g (dt_config s) (dt_delivery s) True v lease (dt_state s) = (st, dirty, q)"
      by (metis prod.exhaust)
    have cs': "commit_state g' (dt_config s) (dt_delivery s) True v lease (dt_state s) = (st, dirty, q)"
      by (simp add: commit_state_cong [OF en(3)] cs)
    note c = commit_state_deferred [OF good cs]
    let ?s = "s\<lparr>dt_state := st, dt_contended := False, dt_deferred := dt_deferred s \<or> dt_contended s \<or> dirty\<rparr>"
    have "dynamic_commit i event v lease True (g, s) = ((g, ?s), case q of Ok _ \<Rightarrow> Ok () | Err e \<Rightarrow> Err e)"
      using en(1,2) cs' c(2) calm_try_lock [OF calm]
      by (cases q) (simp_all add: dynamic_commit.simps drop_guard_eq Let_def)
    then have b: "b = (g, ?s)" and r: "r = (case q of Ok _ \<Rightarrow> Ok () | Err e \<Rightarrow> Err e)" using run by simp_all
    have "q = Err (TrySend_MaintenanceRequired w)" if "r = Err (TrySend_MaintenanceRequired w)"
      using r that by (cases q) simp_all
    then show ?thesis using Ok r c(1) c(3) [of w] b calm
      by (cases w) (auto simp: fixed_part_def)
  qed
  then show "r = (case publish_entry gs g i event (v, lease) of Err e \<Rightarrow> Err e | Ok _ \<Rightarrow> deferred_outcome g s (v, lease))"
    "r = Err (TrySend_MaintenanceRequired w) \<Longrightarrow> fst b = g \<and> dt_busy (snd b) = [] \<and> fixed_part (snd b) = fixed_part s
      \<and> dy_entries (dt_state (snd b)) = dy_entries (dt_state s) \<and> (dt_delivery s \<noteq> Latest \<longrightarrow> dy_needs_room (dt_state (snd b)))"
    by blast+
qed


subsection \<open>Maintenance of uncontended streams\<close>

lemma retire_loop_calm:
  "dt_busy s = [] \<Longrightarrow> retire_loop n (g, s) = (g', s') \<Longrightarrow>
     dt_busy s' = [] \<and> dy_needs_room (dt_state s') = dy_needs_room (dt_state s)"
proof (induction n arbitrary: g s)
  case (Suc n)
  let ?front = "front_is (\<lambda>e. consumed g (dt_state s) (en_sequence e)) (dy_entries (dt_state s))"
  show ?case
  proof (cases ?front)
    case True
    obtain e es where e: "pop_front (dy_entries (dt_state s)) = (e, es)" by (metis prod.exhaust)
    show ?thesis using Suc.prems(2) Suc.IH [OF _ , of "s\<lparr>dt_state := (dt_state s)\<lparr>dy_entries := es\<rparr>, dt_contended := False, dt_deferred := False\<rparr>"]
        Suc.prems(1) True e
      by (simp add: retire_loop.simps calm_try_lock drop_guard_eq)
  qed (use Suc.prems in \<open>auto simp: retire_loop.simps calm_try_lock drop_guard_eq\<close>)
qed (simp add: retire_loop.simps)

lemma trims_entries:
  assumes "trims (g, s) (g', s')"
  shows "length (dy_entries (dt_state s')) \<le> length (dy_entries (dt_state s))"
    and "length (dy_entries (dt_state s')) = length (dy_entries (dt_state s)) \<Longrightarrow>
      dy_entries (dt_state s') = dy_entries (dt_state s)"
proof -
  obtain n where n: "dy_entries (dt_state s') = drop n (dy_entries (dt_state s))" using assms by (auto simp: trims.simps)
  then show "length (dy_entries (dt_state s')) \<le> length (dy_entries (dt_state s))" by simp
  show "length (dy_entries (dt_state s')) = length (dy_entries (dt_state s)) \<Longrightarrow>
      dy_entries (dt_state s') = dy_entries (dt_state s)"
    unfolding n by (cases n; cases "dy_entries (dt_state s)") simp_all
qed

lemma trims_required:
  assumes "trims (g, s) (g', s')" shows "required_needs g' (dt_state s') = required_needs g (dt_state s)"
proof -
  have "dy_subscribers (dt_state s') = dy_subscribers (dt_state s)" "framed g g'"
    using assms by (auto simp: trims.simps fixed_part_def)
  then show ?thesis by (intro ext) (simp add: required_needs_def framed_is_revoked cong: option.case_cong)
qed

text \<open>What maintenance promises a publisher: an ordered stream whose full queue nobody needs loses
  its oldest entry, a latest-state stream its retired one.\<close>

lemma dynamic_maintain_calm:
  assumes ok: "scene_ok gs M xs (g, s)" and calm: "dt_busy s = []" and run: "dynamic_maintain (g, s) = (g', s')"
  shows "dt_busy s' = []"
    and "dt_delivery s = Latest \<Longrightarrow> dy_retired (dt_state s') = None"
    and "dt_delivery s \<noteq> Latest \<Longrightarrow> dy_needs_room (dt_state s) \<Longrightarrow>
      \<not> front_is (\<lambda>e. required_needs g (dt_state s) (en_sequence e)) (dy_entries (dt_state s)) \<Longrightarrow>
      length (dy_entries (dt_state s')) < cf_capacity (dt_config s)"
proof -
  obtain g1 s1 where 1: "maintain_retired (g, s) = (g1, s1)" by (cases "maintain_retired (g, s)")
  obtain g2 s2 where 2: "retire_consumed (g1, s1) = (g2, s2)" by (cases "retire_consumed (g1, s1)")
  obtain g3 s3 where 3: "maintain_room (g2, s2) = (g3, s3)" by (cases "maintain_room (g2, s2)")
  have ok1: "scene_ok gs M xs (g1, s1)" "trims (g, s) (g1, s1)" using maintain_retired_ok ok 1 by metis+
  have ok2: "scene_ok gs M xs (g2, s2)" "trims (g1, s1) (g2, s2)" using retire_consumed_ok ok1 2 by metis+
  have ok3: "scene_ok gs M xs (g3, s3)" "trims (g2, s2) (g3, s3)" using maintain_room_ok ok2 3 by metis+
  have s': "s' = s3\<lparr>dt_deferred := False\<rparr>" using run 1 2 3 by (simp add: dynamic_maintain_def maintain_wakeups_eq)
  have same: "dt_delivery s1 = dt_delivery s" "dt_config s1 = dt_config s" "dt_delivery s2 = dt_delivery s"
    "dt_config s2 = dt_config s"
    using ok1(2) ok2(2) by (auto simp: trims.simps fixed_part_def)
  have c1: "dt_busy s1 = []" using 1 calm by (auto simp: maintain_retired.simps calm_try_lock drop_guard_eq Let_def split: if_splits)
  have c2: "dt_busy s2 = []" "dy_needs_room (dt_state s2) = dy_needs_room (dt_state s1)"
    using 2 retire_loop_calm [OF c1, of _ g1 g2 s2] c1 by (auto simp: retire_consumed.simps split: if_splits)
  have "dt_busy s3 = []" using 3 c2(1) by (auto simp: maintain_room.simps calm_try_lock drop_guard_eq Let_def split: if_splits prod.splits)
  then show "dt_busy s' = []" using s' by simp
  show "dy_retired (dt_state s') = None" if "dt_delivery s = Latest"
  proof -
    have "dy_retired (dt_state s1) = None" using 1 calm that
      by (auto simp: maintain_retired.simps calm_try_lock drop_guard_eq Let_def split: if_splits)
    then have "dy_retired (dt_state s2) = None" using 2 that same(1) by (simp add: retire_consumed.simps)
    then show ?thesis using 3 c2(1) s'
      by (auto simp: maintain_room.simps calm_try_lock drop_guard_eq Let_def split: if_splits prod.splits)
  qed
  assume d: "dt_delivery s \<noteq> Latest" and room: "dy_needs_room (dt_state s)"
    and front: "\<not> front_is (\<lambda>e. required_needs g (dt_state s) (en_sequence e)) (dy_entries (dt_state s))"
  have s1: "(g1, s1) = (g, s)" using 1 d by (simp add: maintain_retired.simps)
  have cap: "length (dy_entries (dt_state s)) \<le> cf_capacity (dt_config s)" "0 < cf_capacity (dt_config s)"
    using ok by (auto simp: scene_ok_def stream_good_def window_def)
  show "length (dy_entries (dt_state s')) < cf_capacity (dt_config s)"
  proof (cases "length (dy_entries (dt_state s2)) = cf_capacity (dt_config s)")
    case True
    have e: "dy_entries (dt_state s2) = dy_entries (dt_state s)"
      using trims_entries [OF ok2(2)] s1 cap(1) True by simp
    obtain x es where x: "dy_entries (dt_state s2) = x # es" using True cap(2) by (cases "dy_entries (dt_state s2)") auto
    then have "dy_entries (dt_state s) = x # es" using e by simp
    then have "\<not> required_needs g2 (dt_state s2) (en_sequence x)"
      using front trims_required [OF ok2(2)] s1 by simp
    then have "dy_entries (dt_state s3) = es"
      using 3 c2 x s1 room True same by (auto simp: maintain_room.simps calm_try_lock drop_guard_eq Let_def)
    then show ?thesis using s' x True by simp
  next
    case False
    then show ?thesis using trims_entries(1) [OF ok3(2)] trims_entries(1) [OF ok2(2)] s1 cap(1) s' by simp
  qed
qed

lemma maintain_streams_append: "maintain_streams (as @ bs) f = maintain_streams bs (maintain_streams as f)"
  by (induction as arbitrary: f) simp_all

lemma maintain_streams_other:
  "k \<notin> set ks \<Longrightarrow> fb_streams (maintain_streams ks f) ! k = fb_streams f ! k"
  by (induction ks arbitrary: f) (simp_all add: put_scene_def)

lemma maintain_streams_framed:
  assumes "dynamic_ok m" and "\<forall>k \<in> set ks. k < stream_count m"
  shows "framed (store_of m) (fb_store (maintain_streams ks (dm_fabric m)))"
  using assms
proof (induction ks arbitrary: m)
  case (Cons k ks)
  have k: "k < stream_count m" using Cons.prems(2) by simp
  let ?m1 = "with_fabric (put_scene k (dynamic_maintain (scene k (dm_fabric m))) (dm_fabric m)) m"
  have "\<forall>k \<in> set [k]. k < stream_count m" using k by simp
  note one = maintain_streams_ok [OF Cons.prems(1) this]
  have "trims (scene k (dm_fabric m)) (dynamic_maintain (scene k (dm_fabric m)))"
    using dynamic_maintain_ok [OF dynamic_scene_ok [OF Cons.prems(1) k]] by blast
  then have "framed (store_of m) (store_of ?m1)"
    by (cases "dynamic_maintain (scene k (dm_fabric m))") (simp add: scene_parts trims.simps put_scene_def)
  moreover have "framed (store_of ?m1) (fb_store (maintain_streams ks (dm_fabric ?m1)))"
    by (rule Cons.IH) (use one Cons.prems(2) in simp_all)
  ultimately show ?case using framed_trans by simp
qed simp

text \<open>The turn of stream \<open>k\<close> within \<open>fabric_maintain\<close>.\<close>

lemma fabric_maintain_stream:
  assumes ok: "dynamic_ok m" and k: "k < stream_count m"
  obtains g1 g' s' M where "framed (store_of m) g1" and "scene_ok (dm_guards m) M (dm_logs m ! k) (g1, snd (fb_streams (dm_fabric m) ! k))"
    and "dynamic_maintain (g1, snd (fb_streams (dm_fabric m) ! k)) = (g', s')"
    and "snd (fb_streams (fabric_maintain (dm_fabric m)) ! k) = s'"
    and "framed (store_of m) (fb_store (fabric_maintain (dm_fabric m)))"
proof -
  let ?f = "dm_fabric m" and ?n = "stream_count m"
  let ?m1 = "with_fabric (maintain_streams [0..<k] ?f) m"
  have split: "[0..<?n] = [0..<k] @ k # [Suc k..<?n]"
    using k by (metis less_imp_le_nat upt_add_eq_append upt_conv_Cons zero_le le_add_diff_inverse add_0)
  have before: "\<forall>j \<in> set [0..<k]. j < ?n" and all: "\<forall>j \<in> set [0..<?n]. j < ?n" using k by auto
  note m1 = maintain_streams_ok [OF ok before]
  have k1: "k < stream_count ?m1" using m1 k same_streamsD(1) by fastforce
  have stream: "fb_streams (dm_fabric ?m1) ! k = fb_streams ?f ! k"
    using maintain_streams_other [of k "[0..<k]" ?f] by simp
  obtain g' s' where dm: "dynamic_maintain (scene k (dm_fabric ?m1)) = (g', s')" by (metis prod.exhaust)
  have "fb_streams (maintain_streams [0..<?n] ?f) ! k = (fst (fb_streams ?f ! k), s')"
    using k1 dm stream
    unfolding split maintain_streams_append by (simp add: put_scene_def maintain_streams_other)
  then have "snd (fb_streams (fabric_maintain ?f) ! k) = s'"
    by (simp add: fabric_maintain_def Let_def)
  moreover obtain ns where "maintain_tree 0 (fb_store (maintain_streams [0..<?n] ?f)) =
      emit ns (fb_store (maintain_streams [0..<?n] ?f))"
    using maintain_tree_emits by blast
  then have "framed (store_of m) (fb_store (fabric_maintain ?f))"
    using maintain_streams_framed [OF ok all] by (simp add: fabric_maintain_def Let_def)
  ultimately show thesis
    using that [of "store_of ?m1" _ g' s'] dynamic_scene_ok [OF conjunct1 [OF m1] k1] maintain_streams_framed [OF ok before]
      dm stream by (simp add: scene_parts)
qed

subsection \<open>Runs from a new fabric\<close>

lemma step_new_log:
  assumes ok: "dynamic_ok m" and e: "stream_count m \<le> e"
  shows "dynamic_admits e c (snd (dynamic_step m c)) = []"
    and "e < stream_count (fst (dynamic_step m c)) \<Longrightarrow> dm_logs (fst (dynamic_step m c)) ! e = []"
proof -
  have l: "length (dm_logs m) = stream_count m" using ok by (simp add: dynamic_ok_def streams_ok_def)
  show "dynamic_admits e c (snd (dynamic_step m c)) = []"
  proof (cases c)
    case (Send_now sd v)
    then show ?thesis using e sender_fitsD(1) [OF ok, of sd] by (auto split: prod.split)
  next
    case (Try_send p)
    have "sd_stream (pp_sender p) < stream_count m" if "p \<in> set (dm_prepared m)"
      using sender_fitsD(1) [OF ok, of "pp_sender p"] that by blast
    then show ?thesis using e Try_send by (auto split: prod.split)
  next
    case (Open_receiver i spec role)
    then show ?thesis by (auto split: prod.split result.split)
  qed (auto split: prod.split option.split)
  assume e': "e < stream_count (fst (dynamic_step m c))"
  have "length (dm_logs (fst (dynamic_step m c))) = stream_count (fst (dynamic_step m c))"
    using dynamic_ok_step [OF ok, of c] by (simp add: dynamic_ok_def streams_ok_def)
  then have long: "length (dm_logs (fst (dynamic_step m c))) \<noteq> length (dm_logs m)" using e e' l by simp
  show "dm_logs (fst (dynamic_step m c)) ! e = []"
  proof (cases "\<exists>memory spec config. c = Create memory spec config")
    case True
    then show ?thesis using l e e' by (auto simp: nth_append split: prod.split prod.splits)
  next
    case False
    then have "length (dm_logs (fst (dynamic_step m c))) = length (dm_logs m)"
      by (cases c) (auto simp: log_value_def grants_step_def Let_def split: prod.split option.split result.split)
    then show ?thesis using long by contradiction
  qed
qed

text \<open>The log of a stream is what its publishers got admitted, from its declaration on.\<close>

lemma run_admitted:
  "dynamic_ok m \<Longrightarrow> run_calls dynamic_step m cs = (m', outs) \<Longrightarrow> e < stream_count m' \<Longrightarrow>
     dm_logs m' ! e = (if e < stream_count m then dm_logs m ! e else []) @ gather (dynamic_admits e) cs outs"
proof (induction cs arbitrary: m outs)
  case (Cons c cs)
  obtain m1 out where s: "dynamic_step m c = (m1, out)" by (cases "dynamic_step m c")
  obtain outs' where run: "run_calls dynamic_step m1 cs = (m', outs')" and o: "outs = out # outs'"
    using Cons.prems(2) s by (auto split: prod.splits)
  have ok1: "dynamic_ok m1" using dynamic_ok_step [OF Cons.prems(1), of c] s by simp
  have le: "stream_count m \<le> stream_count m1" using step_carries [OF Cons.prems(1), of c] s by (simp add: carries_def)
  note ih = Cons.IH [OF ok1 run Cons.prems(3)]
  show ?case
  proof (cases "e < stream_count m")
    case True
    then show ?thesis using ih le step_log [OF Cons.prems(1) True, of c] s o by simp
  next
    case False
    then show ?thesis using ih step_new_log [OF Cons.prems(1), of e c] s o by auto
  qed
qed simp

lemma reachable_admitted:
  assumes "dynamic_reachable l cs m outs" and "e < stream_count m"
  shows "dm_logs m ! e = gather (dynamic_admits e) cs outs"
proof -
  obtain f where f: "fabric_new l = Ok f" "run_calls dynamic_step (dynamic_machine_new f) cs = (m, outs)"
    using assms(1) by (auto simp: dynamic_reachable_def)
  have "stream_count (dynamic_machine_new f) = 0"
    using f(1) by (auto simp: fabric_new_def dynamic_machine_new_def split: result.splits)
  then show ?thesis using run_admitted [OF dynamic_ok_new [OF f(1)] f(2) assms(2)] by simp
qed

subsection \<open>An example\<close>

text \<open>A scope with one ordered stream of capacity one; a component with a required receiver, which
  has taken the first event, and a sender with a second event prepared.\<close>

definition example_dynamic_spec :: dynamic_spec where
  "example_dynamic_spec = \<lparr>ID = EventId 7, WIRE_MAJOR = 1, SCHEMA_REVISION = 1, DELIVERY = Ordered, PAYLOAD = 0\<rparr>"

definition example_config :: stream_config where
  "example_config = \<lparr>cf_capacity = 1, cf_subscribers = 1, cf_waiters = 1\<rparr>"

definition example_scope_limits :: limits where
  "example_scope_limits = limits_ZERO\<lparr>li_streams := 2, li_grants := 2, li_subscriptions := 2,
     li_retained_items := 3, li_waiters := 1\<rparr>"

definition example_component :: permission where
  "example_component = with_limits
     (permission_new (EventId 7) (rights_union (rights_union Rights_PUBLISH Rights_OBSERVE) Rights_REQUIRED))
     \<lparr>sl_retained_items = 2, sl_subscriptions = 1, sl_waiters = 0\<rparr>"

definition example_component_limits :: limits where
  "example_component_limits = limits_ZERO\<lparr>li_streams := 1, li_subscriptions := 1, li_retained_items := 2\<rparr>"

definition example_sender :: dynamic_sender where
  "example_sender = \<lparr>sd_stream = 0, sd_grant = 1\<rparr>"

definition example_setup :: "nat dynamic_call list" where
  "example_setup =
     [Create True example_dynamic_spec example_config, Fabric_grant [example_component] example_component_limits,
      Open_receiver 1 example_dynamic_spec Required, Open_sender 1 example_dynamic_spec,
      Send_now example_sender 7, Try_recv 0, Prepare example_sender 8]"

definition unit_lease :: "limits \<Rightarrow> lease" where
  "unit_lease u = \<lparr>ls_node = 1, ls_usage = u, ls_event = Some 0\<rparr>"

definition example_prepared :: "nat prepared" where
  "example_prepared = \<lparr>pp_sender = example_sender, pp_value = 8,
     pp_lease = unit_lease (limits_ZERO\<lparr>li_retained_items := 1\<rparr>)\<rparr>"

definition example_receiver :: receiver_inner where
  "example_receiver = \<lparr>rc_stream = 0, rc_grant = 1, rc_key = \<lparr>ck_index = 0, ck_id = 0\<rparr>,
     rc_lease = unit_lease (limits_ZERO\<lparr>li_subscriptions := 1\<rparr>)\<rparr>"

definition example_stream_state :: "nat dynamic_stream" where
  "example_stream_state =
     \<lparr>dt_config = example_config, dt_wire_major = 1, dt_delivery = Ordered, dt_payload = 0,
      dt_state = \<lparr>dy_entries = [\<lparr>en_sequence = 0, en_value = 7,
            en_lease = unit_lease (limits_ZERO\<lparr>li_retained_items := 1\<rparr>)\<rparr>],
         dy_subscribers = [Some \<lparr>dc_id = 0, dc_next = 1, dc_role = Required, dc_grant = 1\<rparr>],
         dy_tail = 1, dy_next_cursor = 1, dy_closed = False, dy_needs_room = False, dy_retired = None\<rparr>,
      dt_changed = 0, dt_contended = False, dt_deferred = False, dt_waiters = 0,
      dt_allocation = \<lparr>ls_node = 0, ls_usage = limits_ZERO\<lparr>li_streams := 1, li_subscriptions := 1,
            li_retained_items := 1, li_waiters := 1\<rparr>, ls_event = None\<rparr>,
      dt_busy = []\<rparr>"

definition example_dynamic :: "nat dynamic_machine" where
  "example_dynamic =
     \<lparr>dm_fabric =
       \<lparr>fb_store =
         \<lparr>gr_nodes =
           [(node_root example_scope_limits)\<lparr>
              gn_pool := \<lparr>pl_limits = example_scope_limits, pl_usage = [2, 1, 2, 3, 1, 0, 0]\<rparr>, gn_children := [1]\<rparr>,
            \<lparr>gn_limits = example_component_limits,
             gn_pool = pool_new (limits_ZERO\<lparr>li_streams := 1\<rparr>),
             gn_permissions = Some [\<lparr>ea_permission = example_component,
               ea_pool = \<lparr>pl_limits = limits_ZERO\<lparr>li_subscriptions := 1, li_retained_items := 2\<rparr>,
                 pl_usage = [0, 0, 1, 2, 0, 0, 0]\<rparr>\<rparr>],
             gn_parent_reservation = Some \<lparr>ls_node = 0, ls_usage = example_component_limits\<lparr>li_grants := 1\<rparr>,
               ls_event = None\<rparr>,
             gn_event_reservations = [], gn_state = 0, gn_revoker = False, gn_revocation_complete = False,
             gn_children = [], gn_streams = [(EventId 7, 0)], gn_dropped = False\<rparr>],
          gr_alive = [0], gr_notices = [Stream_changed 0, Stream_changed 0, Stream_changed 0]\<rparr>,
        fb_streams = [(EventId 7, example_stream_state)]\<rparr>,
      dm_held = [], dm_guards = [], dm_senders = [example_sender], dm_receivers = [Some example_receiver],
      dm_prepared = [example_prepared], dm_logs = [[7]], dm_positions = [(1, Required)]\<rparr>"

definition example_setup_outs :: "nat dynamic_out list" where
  "example_setup_outs = [Ran (Ok ()), Granted (Ok 1), Opened_receiver (Ok example_receiver),
     Opened_sender (Ok example_sender), Sent_now (Ok ()), Item (Ok (Some (Data 0 7))), Prepared (Ok example_prepared)]"

lemma reserve_loop_2: "reserve_loop 2 = reserve_loop (Suc (Suc 0))"
  by (simp add: numeral_2_eq_2)

lemmas dynamic_exec = grant_exec fabric_new_def create_stream_def stream_new_def dynamic_machine_new_def
  with_fabric_def grant_subscribe_def grant_stream_def grant_sender_def register_stream_def fabric_grant_def
  role_rights_def rights_union_def Rights_OBSERVE_def Rights_REQUIRED_def dynamic_subscribe.simps subscribe_state_def
  scene_def put_scene_def drop_guard_eq grant_stream_limits_def sender_send_now_def dynamic_send_now_def
  dynamic_reserve.simps reserve_loop_2 reserve_loop.simps reserve_refusal_def dynamic_try_lock_def
  dynamic_maintain_def maintain_retired.simps maintain_room.simps maintain_wakeups.simps retire_consumed.simps
  dynamic_commit.simps commit_state_def u64_max_def log_value_def sender_prepare_def stream_limits_ZERO_def
  live_receiver_def receiver_try_recv_def dynamic_try_recv.simps receive_state_def owned_cursor_def set_next_def
  note_item_def required_needs_def

lemmas dynamic_examples = example_dynamic_spec_def example_config_def example_scope_limits_def
  example_component_def example_component_limits_def example_sender_def unit_lease_def example_prepared_def
  example_receiver_def example_stream_state_def example_dynamic_def

lemma run_step:
  "step s c = (s1, out) \<Longrightarrow> run_calls step s1 cs = (s', outs) \<Longrightarrow> run_calls step s (c # cs) = (s', out # outs)"
  by simp

lemma example_dynamic_reachable:
  "dynamic_reachable example_scope_limits example_setup example_dynamic example_setup_outs"
proof -
  obtain f where f: "fabric_new example_scope_limits = Ok f"
    and new: "dynamic_machine_new f = (dynamic_machine_new
        \<lparr>fb_store = gm_store (machine_new example_scope_limits), fb_streams = []\<rparr> :: nat dynamic_machine)"
    by (simp add: fabric_new_def limits_validate_def example_scope_limits_def limits_ZERO_def limits_values.simps isize_max_def)
  have "run_calls dynamic_step (dynamic_machine_new f) example_setup = (example_dynamic, example_setup_outs)"
    unfolding new example_setup_def example_setup_outs_def
    by ((rule run_step, simp add: dynamic_exec dynamic_examples)+) (simp add: dynamic_exec dynamic_examples)
  then show ?thesis using f by (auto simp: dynamic_reachable_def)
qed


lemmas dynamic_exec_more = prepared_try_send_def fabric_maintain_def maintain_tree_def consumed_def retire_loop.simps
  drop_lease_def release_counters_def notify_release_def fetch_sub_def

lemma example_after:
  obtains m' where "run_calls dynamic_step example_dynamic
      [Try_send example_prepared, Fabric_maintain, Try_send example_prepared, Try_recv 0]
     = (m', [Sent_prepared (Err (TrySend_MaintenanceRequired example_prepared)), Quiet, Sent_prepared (Ok ()),
     Item (Ok (Some (Data 1 8)))])"
proof -
  have "snd (run_calls dynamic_step example_dynamic
      [Try_send example_prepared, Fabric_maintain, Try_send example_prepared, Try_recv 0])
     = [Sent_prepared (Err (TrySend_MaintenanceRequired example_prepared)), Quiet, Sent_prepared (Ok ()),
     Item (Ok (Some (Data 1 8)))]"
    by (simp add: dynamic_exec dynamic_exec_more dynamic_examples)
  then show thesis using that by (metis prod.collapse)
qed

subsection \<open>Properties\<close>

text \<open>C6: A subscription of a dynamic ordered stream accounts for every publication: whatever
  publishers, other receivers, maintenance, revocations, contention and the other streams of the
  scope do, the items an open receiver gets cover the sequences from its cursor on without hole,
  overlap or reordering, each datum is what was admitted under its sequence, and a required
  receiver, which sees no gap, gets exactly the admitted values, in admission order.\<close>

theorem dynamic_subscription_accounts:
  assumes "dynamic_reachable l before m outs" and "live_receiver m n = Some rc" and "e = rc_stream rc"
    and "\<not> dy_closed (state_of m e)" and "owned_cursor (state_of m e) (rc_key rc) = Some c"
    and "dynamic_delivery e m = Ordered"
    and "run_calls dynamic_step m cs = (m', outs')" and "Drop_receiver n \<notin> set cs"
  shows "(let items = gather (\<lambda>c out. dynamic_takes c out n) cs outs';
              admitted = gather (dynamic_admits e) before outs @ gather (dynamic_admits e) cs outs'
          in tiles admitted (dc_next c) items
             \<and> (dc_role c = Required \<longrightarrow> list_all is_data items
                 \<and> map item_value items = take (length items) (drop (dc_next c) admitted)))"
proof -
  have ok: "dynamic_ok m" by (rule reachable_dynamic_ok [OF assms(1)])
  note lf = live_receiver_fits [OF ok assms(2)]
  have good: "dynamic_good e m" using ok lf(4) assms(3) by simp
  obtain q r where p: "dm_positions m ! n = (q, r)" by (cases "dm_positions m ! n")
  have c: "dc_next c = q" "dc_role c = r"
    using receiver_cursor [OF lf(1)] assms(3-5) p by auto
  have cur: "dynamic_cursor e m n = Some (q, r)" using assms(2,3) p by (simp add: dynamic_cursor_def)
  have keep: "\<forall>c \<in> set cs. \<not> drops_receiver c n"
    using assms(8) by (metis drops_receiver.elims(2))
  have log: "dm_logs m' ! e = gather (dynamic_admits e) before outs @ gather (dynamic_admits e) cs outs'"
    using dynamic.run_log [OF good assms(7)] reachable_admitted [OF assms(1)] good by simp
  show ?thesis
    using dynamic.run_items [OF good assms(7) cur keep] assms(6) c
      tiles_data [of "dm_logs m' ! e" q "gather (\<lambda>c out. dynamic_takes c out n) cs outs'"]
    unfolding log by (auto simp: Let_def)
qed

theorem dynamic_subscription_accounts_witness:
  "tiles [7, 8] 1 [Data 1 (8 :: nat)] \<and> map item_value [Data 1 8] = [8 :: nat]"
proof -
  obtain m' where run: "run_calls dynamic_step example_dynamic
      [Try_send example_prepared, Fabric_maintain, Try_send example_prepared, Try_recv 0]
     = (m', [Sent_prepared (Err (TrySend_MaintenanceRequired example_prepared)), Quiet, Sent_prepared (Ok ()),
     Item (Ok (Some (Data 1 8)))])" by (rule example_after)
  have live: "live_receiver example_dynamic 0 = Some example_receiver"
    by (simp add: live_receiver_def example_dynamic_def)
  have cur: "owned_cursor (state_of example_dynamic 0) (rc_key example_receiver)
      = Some \<lparr>dc_id = 0, dc_next = 1, dc_role = Required, dc_grant = 1\<rparr>"
    by (simp add: owned_cursor_def dynamic_examples)
  show ?thesis
    using dynamic_subscription_accounts [OF example_dynamic_reachable live refl _ _ _ run] cur
    by (simp add: example_setup_def example_setup_outs_def dynamic_examples)
qed

text \<open>C15: No allowance leaks: after any calls on a scope, streams and endpoints included, each counter
  of each pool of a live grant is the sum of what is charged to it by the declared streams, by the
  entries they retain, by receivers, by prepared values, by leases held elsewhere and by the live
  children it reserved for, and it is within the pool's limit. So retained events, subscriptions
  and prepared values of a component never exceed its grant, and everything a drop, a close or a
  maintenance removes is given back.\<close>

theorem fabric_accounts_exactly:
  assumes "dynamic_reachable l cs m outs" and "handle (store_of m) i"
    and "valid_pool (node (store_of m) i) ev" and "k < 7"
  shows "pl_usage (pool_of (node (store_of m) i) ev) ! k =
      charged (mset (concat (map (stream_leases \<circ> snd) (fb_streams (dm_fabric m)))) + mset (client_leases m)
        + mset (live_leases (store_of m))) i ev k
    \<and> pl_usage (pool_of (node (store_of m) i) ev) ! k \<le> allowance (pl_limits (pool_of (node (store_of m) i) ev)) k"
proof -
  have ok: "machine_ok (grant_view m)" using reachable_dynamic_ok [OF assms(1)] by (simp add: dynamic_ok_def)
  have "all_leases (grant_view m) = mset (concat (map (stream_leases \<circ> snd) (fb_streams (dm_fabric m))))
      + mset (client_leases m) + mset (live_leases (store_of m))"
    by (simp add: grant_view_def fabric_leases_def client_leases_def)
  then show ?thesis using machine_pool [OF ok, of i ev] assms(2-4)
    unfolding grant_view_def handle_def pool_accounts_def by (metis grant_machine.select_convs(1))
qed

theorem fabric_accounts_exactly_witness:
  "pl_usage (pool_of (node (store_of example_dynamic) 1) (Some 0)) ! 3 \<le> 2"
proof -
  have "handle (store_of example_dynamic) 1" by (simp add: handle_def example_dynamic_def)
  from fabric_accounts_exactly [OF example_dynamic_reachable this, of "Some 0" 3] show ?thesis
    by (simp add: example_dynamic_def limits_ZERO_def limits_values.simps)
qed

lemma run_three:
  "run_calls step s [a, b, c] = (s', [x, y, z]) \<Longrightarrow>
     x = snd (step s a) \<and> z = snd (step (fst (step (fst (step s a)) b)) c)"
  "run_calls step s [a, b, c, d] = (s', [x, y, z, w]) \<Longrightarrow> \<exists>s'. run_calls step s [a, b, c] = (s', [x, y, z])"
  by (auto split: prod.splits)

lemma required_needs_framed:
  "framed g g' \<Longrightarrow> dy_subscribers st' = dy_subscribers st \<Longrightarrow> required_needs g' st' = required_needs g st"
  by (intro ext) (simp add: required_needs_def framed_is_revoked cong: option.case_cong)

lemma try_send_calm:
  assumes ok: "dynamic_ok m" and p: "p \<in> set (dm_prepared m)"
    and k: "k = sd_stream (pp_sender p)" and i: "i = sd_grant (pp_sender p)"
    and calm: "dt_busy (snd (fb_streams (dm_fabric m) ! k)) = []"
  shows "snd (dynamic_step m (Try_send p)) = Sent_prepared
      (case publish_entry (dm_guards m) (store_of m) i (stream_event (dm_fabric m) k) p of
         Err e \<Rightarrow> Err e | Ok _ \<Rightarrow> deferred_outcome (store_of m) (snd (fb_streams (dm_fabric m) ! k)) p)"
    and "snd (dynamic_step m (Try_send p)) = Sent_prepared (Err (TrySend_MaintenanceRequired p)) \<Longrightarrow>
      \<exists>s. fst (dynamic_step m (Try_send p)) = with_fabric (put_scene k (store_of m, s) (dm_fabric m)) m
        \<and> dt_busy s = [] \<and> fixed_part s = fixed_part (snd (fb_streams (dm_fabric m) ! k))
        \<and> dy_entries (dt_state s) = dy_entries (state_of m k)
        \<and> (dynamic_delivery k m \<noteq> Latest \<longrightarrow> dy_needs_room (dt_state s))"
proof -
  let ?s = "snd (fb_streams (dm_fabric m) ! k)" and ?w = "(pp_value p, pp_lease p)"
  let ?wrap = "\<lambda>(v, lease). \<lparr>pp_sender = pp_sender p, pp_value = v, pp_lease = lease\<rparr>"
  have fits: "k < stream_count m" "handle (store_of m) i"
    using sender_fitsD [OF ok, of "pp_sender p"] p k i by auto
  obtain b r where run: "dynamic_commit i (stream_event (dm_fabric m) k) (pp_value p) (pp_lease p) True (store_of m, ?s) = (b, r)"
    by (metis prod.exhaust)
  note c = dynamic_commit_calm [OF dynamic_scene_ok [OF ok fits(1), unfolded scene_parts] fits(2) calm run]
  have wrap: "?wrap ?w = p" by simp
  have step: "dynamic_step m (Try_send p) =
      (if is_ok r then log_value k (pp_value p) ((with_fabric (put_scene k b (dm_fabric m)) m)\<lparr>dm_prepared := remove1 p (dm_prepared m)\<rparr>)
       else with_fabric (put_scene k b (dm_fabric m)) m,
       Sent_prepared (case r of Ok _ \<Rightarrow> Ok () | Err e \<Rightarrow> Err (try_send_map ?wrap e)))"
    using p run k i by (cases r) (simp_all add: prepared_try_send_def scene_parts Let_def)
  have maps: "(case deferred_outcome g s ?w of Ok _ \<Rightarrow> Ok () | Err e \<Rightarrow> Err (try_send_map ?wrap e)) = deferred_outcome g s p"
    for g and s :: "'a dynamic_stream"
    by (simp add: deferred_outcome_def Let_def)
  have refusal: "try_send_map ?wrap (send_refusal e ?w) = send_refusal e p" for e
    by (cases e) simp_all
  have entry: "(case publish_entry (dm_guards m) (store_of m) i ev ?w of Ok _ \<Rightarrow> Ok () | Err e \<Rightarrow> Err (try_send_map ?wrap e))
      = publish_entry (dm_guards m) (store_of m) i ev p" for ev
    using refusal by (simp add: publish_entry_def split: result.split)
  show out: "snd (dynamic_step m (Try_send p)) = Sent_prepared
      (case publish_entry (dm_guards m) (store_of m) i (stream_event (dm_fabric m) k) p of
         Err e \<Rightarrow> Err e | Ok _ \<Rightarrow> deferred_outcome (store_of m) ?s p)"
    using c(1) entry [of "stream_event (dm_fabric m) k"] maps [of "store_of m" ?s] unfolding step
    by (cases "publish_entry (dm_guards m) (store_of m) i (stream_event (dm_fabric m) k) ?w";
        cases "publish_entry (dm_guards m) (store_of m) i (stream_event (dm_fabric m) k) p") auto
  assume mr: "snd (dynamic_step m (Try_send p)) = Sent_prepared (Err (TrySend_MaintenanceRequired p))"
  then obtain e where "r = Err e" "try_send_map ?wrap e = TrySend_MaintenanceRequired p"
    unfolding step by (cases r) auto
  then obtain w where w: "r = Err (TrySend_MaintenanceRequired w)" by (cases e) auto
  show "\<exists>s. fst (dynamic_step m (Try_send p)) = with_fabric (put_scene k (store_of m, s) (dm_fabric m)) m
        \<and> dt_busy s = [] \<and> fixed_part s = fixed_part ?s \<and> dy_entries (dt_state s) = dy_entries (state_of m k)
        \<and> (dynamic_delivery k m \<noteq> Latest \<longrightarrow> dy_needs_room (dt_state s))"
    using c(2) [OF w] w unfolding step by (intro exI [of _ "snd b"]) (cases b, simp)
qed

text \<open>C16: Sending a prepared value is exact. On an uncontended stream it is refused, with the prepared
  value handed back, for the first of these reasons that holds: the grant is revoked or lacks the
  right, its operation count is exhausted, the stream is closed, the sequences are exhausted, the
  queue is full and a live required receiver still needs its oldest entry, or the queue is full
  and only maintenance may displace that entry (always so for an ordered stream, and for a
  latest-state stream whose last displaced entry has not been dropped yet). Otherwise it is
  admitted.\<close>

theorem prepared_send_exact:
  assumes "dynamic_reachable l cs m outs" and "p \<in> set (dm_prepared m)"
    and "s = snd (fb_streams (dm_fabric m) ! sd_stream (pp_sender p))" and "dt_busy s = []"
  shows "snd (dynamic_step m (Try_send p)) = Sent_prepared
    (case grant_check (store_of m) (sd_grant (pp_sender p)) (stream_event (dm_fabric m) (sd_stream (pp_sender p))) Rights_PUBLISH of
       Err e \<Rightarrow> Err (send_refusal e p)
     | Ok _ \<Rightarrow>
         (let st = dt_state s in
          if entered_count (dm_guards m) (sd_grant (pp_sender p)) = 2 ^ 63 - 1 then Err (TrySend_Contended p)
          else if dy_closed st then Err (TrySend_Closed p)
          else if dy_tail st = 2 ^ 64 - 1 then Err (TrySend_SequenceExhausted p)
          else if length (dy_entries st) < cf_capacity (dt_config s) then Ok ()
          else if required_needs (store_of m) st (dy_tail st - length (dy_entries st)) then Err (TrySend_Full p)
          else if dt_delivery s = Latest \<and> dy_retired st = None then Ok ()
          else Err (TrySend_MaintenanceRequired p)))"
proof -
  have ok: "dynamic_ok m" by (rule reachable_dynamic_ok [OF assms(1)])
  have k: "sd_stream (pp_sender p) < stream_count m" using sender_fitsD(1) [OF ok] assms(2) by blast
  have good: "stream_good (store_of m) s (dm_logs m ! sd_stream (pp_sender p))"
    using dynamic_scene_ok [OF ok k] assms(3) by (simp add: scene_ok_def scene_parts)
  then have front: "front_is (\<lambda>e. required_needs (store_of m) (dt_state s) (en_sequence e)) (dy_entries (dt_state s))
      \<longleftrightarrow> required_needs (store_of m) (dt_state s) (dy_tail (dt_state s) - length (dy_entries (dt_state s)))"
    if "\<not> length (dy_entries (dt_state s)) < cf_capacity (dt_config s)"
    using that window_nth [of "cf_capacity (dt_config s)" "dt_state s" _ 0]
    by (cases "dy_entries (dt_state s)") (auto simp: stream_good_def)
  show ?thesis
    using try_send_calm(1) [OF ok assms(2) refl refl] assms(3,4) front
    by (auto simp: publish_entry_def deferred_outcome_def u64_max_def Let_def split: result.split)
qed

theorem prepared_send_exact_witness:
  "snd (dynamic_step example_dynamic (Try_send example_prepared))
     = Sent_prepared (Err (TrySend_MaintenanceRequired example_prepared))"
proof -
  have "example_prepared \<in> set (dm_prepared example_dynamic)" by (simp add: example_dynamic_def)
  from prepared_send_exact [OF example_dynamic_reachable this refl] show ?thesis
    by (simp add: dynamic_exec dynamic_examples entered_count_def)
qed

declare dynamic_step.simps [simp del]

text \<open>C14: Maintenance unblocks publishers. When a prepared value was refused because its stream needs
  maintenance, one \<open>maintain\<close> of the scope is enough: sending the same prepared value again is
  admitted, whatever the delivery mode, provided no other thread holds the stream's lock.\<close>

theorem maintenance_unblocks:
  assumes "dynamic_reachable l cs m outs"
    and "dt_busy (snd (fb_streams (dm_fabric m) ! sd_stream (pp_sender p))) = []"
    and "run_calls dynamic_step m [Try_send p, Fabric_maintain, Try_send p] =
      (m', [Sent_prepared (Err (TrySend_MaintenanceRequired p)), out, out'])"
  shows "out' = Sent_prepared (Ok ())"
proof -
  let ?k = "sd_stream (pp_sender p)" and ?i = "sd_grant (pp_sender p)"
  let ?s = "snd (fb_streams (dm_fabric m) ! ?k)"
  have ok: "dynamic_ok m" by (rule reachable_dynamic_ok [OF assms(1)])
  have first: "snd (dynamic_step m (Try_send p)) = Sent_prepared (Err (TrySend_MaintenanceRequired p))"
    using run_three(1) [OF assms(3)] by simp
  have p: "p \<in> set (dm_prepared m)" by (rule ccontr) (use first in \<open>simp add: dynamic_step.simps\<close>)
  have k: "?k < stream_count m" using sender_fitsD(1) [OF ok] p by blast
  note exact = try_send_calm(1) [OF ok p refl refl assms(2)]
  obtain s where m1: "fst (dynamic_step m (Try_send p)) = with_fabric (put_scene ?k (store_of m, s) (dm_fabric m)) m"
    and s: "dt_busy s = []" "fixed_part s = fixed_part ?s" "dy_entries (dt_state s) = dy_entries (state_of m ?k)"
      "dynamic_delivery ?k m \<noteq> Latest \<longrightarrow> dy_needs_room (dt_state s)"
    using try_send_calm(2) [OF ok p refl refl assms(2) first] by blast
  let ?m1 = "with_fabric (put_scene ?k (store_of m, s) (dm_fabric m)) m"
  have ok1: "dynamic_ok ?m1" using dynamic_ok_step [OF ok, of "Try_send p"] m1 by simp
  have k1: "?k < stream_count ?m1" and s1: "snd (fb_streams (dm_fabric ?m1) ! ?k) = s"
    and g1: "store_of ?m1 = store_of m" using k by (simp_all add: put_scene_def)
  obtain g g' s' M where fm: "framed (store_of m) g"
      "scene_ok (dm_guards m) M (dm_logs m ! ?k) (g, s)" "dynamic_maintain (g, s) = (g', s')"
      "snd (fb_streams (fabric_maintain (dm_fabric ?m1)) ! ?k) = s'"
      "framed (store_of m) (fb_store (fabric_maintain (dm_fabric ?m1)))"
    using fabric_maintain_stream [OF ok1 k1] s1 g1 by (metis with_fabric_simps)
  let ?m2 = "with_fabric (fabric_maintain (dm_fabric ?m1)) ?m1"
  note mt = conjunct2 [OF dynamic_maintain_ok [OF fm(2)], unfolded fm(3)] and calm = dynamic_maintain_calm [OF fm(2) s(1) fm(3)]
  have ok2: "dynamic_ok ?m2" using dynamic_ok_step [OF ok1, of Fabric_maintain] by (simp add: dynamic_step.simps)
  have p2: "p \<in> set (dm_prepared ?m2)" using p by simp
  have entry: "publish_entry (dm_guards ?m2) (store_of ?m2) ?i (stream_event (dm_fabric ?m2) ?k) p
      = publish_entry (dm_guards m) (store_of m) ?i (stream_event (dm_fabric m) ?k) p"
    using framed_grant_check [OF fm(5)] same_streamsD(3) [OF fabric_maintain_ok(2) [OF ok1] k1] k
    by (simp add: publish_entry_def put_scene_def)
  have free: "publish_entry (dm_guards m) (store_of m) ?i (stream_event (dm_fabric m) ?k) p = Ok ()"
    and blocked: "deferred_outcome (store_of m) ?s p = Err (TrySend_MaintenanceRequired p)"
    using first unfolding exact
    by (auto simp: publish_entry_def send_refusal_not_maintenance split: result.splits if_splits)
  have same: "dt_config s' = dt_config ?s" "dt_delivery s' = dt_delivery ?s" "dy_closed (dt_state s') = dy_closed (dt_state ?s)"
      "dy_tail (dt_state s') = dy_tail (dt_state ?s)" "dy_subscribers (dt_state s') = dy_subscribers (dt_state ?s)"
      "dt_config s = dt_config ?s" "dt_delivery s = dt_delivery ?s" "dy_subscribers (dt_state s) = dy_subscribers (dt_state ?s)"
    using mt s(2) by (auto simp: trims.simps fixed_part_def)
  have needs: "required_needs g (dt_state s) = required_needs (store_of m) (dt_state ?s)"
    "required_needs (store_of ?m2) (dt_state s') = required_needs (store_of m) (dt_state ?s)"
    using required_needs_framed [OF fm(1) same(8)] required_needs_framed [OF fm(5) same(5)] by simp_all
  have unneeded: "\<not> front_is (\<lambda>e. required_needs (store_of m) (dt_state ?s) (en_sequence e)) (dy_entries (dt_state ?s))"
    using blocked by (auto simp: deferred_outcome_def Let_def split: if_splits)
  have "length (dy_entries (dt_state s')) < cf_capacity (dt_config ?s)
      \<or> dt_delivery ?s = Latest \<and> dy_retired (dt_state s') = None \<and> dy_entries (dt_state s') = dy_entries (dt_state ?s)"
  proof (cases "dt_delivery ?s = Latest")
    case True
    have "length (dy_entries (dt_state ?s)) \<le> cf_capacity (dt_config ?s)"
      using fm(2) s(3) same by (auto simp: scene_ok_def stream_good_def window_def)
    then show ?thesis using calm(2) trims_entries [OF mt] True s(3) same
      by (cases "length (dy_entries (dt_state s')) = length (dy_entries (dt_state s))") simp_all
  next
    case False
    then show ?thesis using calm(3) s(3,4) unneeded needs(1) same by simp
  qed
  then have "deferred_outcome (store_of ?m2) s' p = Ok ()"
    using blocked unneeded needs(2) same by (auto simp: deferred_outcome_def Let_def split: if_splits)
  moreover have "out' = snd (dynamic_step ?m2 (Try_send p))"
    using run_three(1) [OF assms(3)] m1 by (simp add: dynamic_step.simps(4))
  ultimately show ?thesis
    using try_send_calm(1) [OF ok2 p2 refl refl] calm(1) fm(4) entry free by simp
qed

theorem maintenance_unblocks_witness:
  "\<exists>m'. run_calls dynamic_step example_dynamic [Try_send example_prepared, Fabric_maintain, Try_send example_prepared]
     = (m', [Sent_prepared (Err (TrySend_MaintenanceRequired example_prepared)), Quiet, Sent_prepared (Ok ())])"
proof -
  obtain m' out' where run: "run_calls dynamic_step example_dynamic
      [Try_send example_prepared, Fabric_maintain, Try_send example_prepared]
     = (m', [Sent_prepared (Err (TrySend_MaintenanceRequired example_prepared)), Quiet, out'])"
    using example_after run_three(2) by metis
  have "dt_busy (snd (fb_streams (dm_fabric example_dynamic) ! sd_stream (pp_sender example_prepared))) = []"
    by (simp add: dynamic_examples)
  from maintenance_unblocks [OF example_dynamic_reachable this run] show ?thesis using run by blast
qed

end
