(* ===== verification/Hiway_Revocation.thy ===== *)
theory Hiway_Revocation
  imports Hiway_Grant_Properties
begin

text \<open>
  Revocation of \<open>hiway/src/grant.rs\<close> against concurrent admissions and derivations. The bodies
  of \<open>enter_mode\<close>, of the end of \<open>restrict\<close> and of \<open>revoke\<close> are cut at their atomic accesses:
  one step of a task is one load, store or read-modify-write on the shared grant tree, and any
  number of tasks run in any order. Atomics are sequentially consistent here. The pools do not
  matter for the cutoff: a child arrives with the reservations it was given.
\<close>

subsection \<open>Tasks\<close>

datatype task =
    Enter_check nat event_id rights bool nat
  | Enter_add operation_guard
  | Enter_swap operation_guard u64
  | Enter_confirm operation_guard nat
  | Enter_undo operation_guard
  | Inside operation_guard
  | Restrict_check nat grant_node nat
  | Restrict_register nat grant_node
  | Restrict_attach nat nat
  | Restricted nat
  | Revoke_start nat
  | Revoke_swap nat
  | Revoke_mark "nat list" nat
  | Revoke_load "nat list" nat
  | Revoke_wait "nat list" nat
  | Revoke_complete "nat list" nat
  | Revoke_end nat
  | Revoked nat
  | Finished "(unit, topic_error) result"
  | Cancelled

text \<open>The node above, through the parent reservation.\<close>

definition up :: "grants \<Rightarrow> nat \<Rightarrow> nat option" where
  "up s i = map_option ls_node (gn_parent_reservation (node s i))"

text \<open>The part of \<open>check\<close> after its walk.\<close>

definition permitted :: "grant_node \<Rightarrow> event_id \<Rightarrow> rights \<Rightarrow> (unit, topic_error) result" where
  "permitted n event right =
     (case gn_permissions n of
        None \<Rightarrow> Ok ()
      | Some permissions \<Rightarrow>
          (case position_of event permissions of
             None \<Rightarrow> Err TopicError_Denied
           | Some index \<Rightarrow>
               if \<not> rights_contains (pm_rights (ea_permission (permissions ! index))) right
               then Err TopicError_Denied else Ok ()))"

definition set_word :: "nat \<Rightarrow> u64 \<Rightarrow> grants \<Rightarrow> grants" where
  "set_word i w s = update_node i (\<lambda>n. n\<lparr>gn_state := w\<rparr>) s"

text \<open>\<open>enter_mode\<close>: the walk of its check, the counting, the second walk, and the drop of the
  operation when that finds a revocation. A deferred entry loads the word and then exchanges it.
  \<open>Inside\<close> is a running operation; its step is the drop.\<close>

fun enter_step :: "task \<Rightarrow> grants \<Rightarrow> grants \<times> task" where
  "enter_step (Enter_check i event right notify pos) s =
     (s, if marked s pos then Finished (Err TopicError_Revoked)
         else (case up s pos of
                 Some p \<Rightarrow> Enter_check i event right notify p
               | None \<Rightarrow>
                   (case permitted (node s i) event right of
                      Err e \<Rightarrow> Finished (Err e)
                    | Ok _ \<Rightarrow> Enter_add \<lparr>og_node = i, og_notify = notify\<rparr>)))"
| "enter_step (Enter_add g) s =
     (let state = gn_state (node s (og_node g)) in
      case advance state of
        None \<Rightarrow> (s, Finished (Err (refusal state)))
      | Some entered \<Rightarrow>
          if og_notify g then (set_word (og_node g) entered s, Enter_confirm g (og_node g))
          else (s, Enter_swap g state))"
| "enter_step (Enter_swap g state) s =
     (case advance state of
        None \<Rightarrow> (s, Finished (Err (refusal state)))
      | Some entered \<Rightarrow>
          if gn_state (node s (og_node g)) = state
          then (set_word (og_node g) entered s, Enter_confirm g (og_node g))
          else (s, Finished (Err TopicError_Contended)))"
| "enter_step (Enter_confirm g pos) s =
     (s, if marked s pos then Enter_undo g
         else (case up s pos of Some p \<Rightarrow> Enter_confirm g p | None \<Rightarrow> Inside g))"
| "enter_step (Enter_undo g) s = (drop_operation g s, Finished (Err TopicError_Revoked))"
| "enter_step (Inside g) s = (drop_operation g s, Finished (Ok ()))"
| "enter_step t s = (s, t)"

text \<open>The end of \<open>restrict\<close>: the walk under the administration lock, the publication of the child in
  its parent's children, and the walk of read-modify-writes that decides whether it is returned.\<close>

definition publish_child :: "nat \<Rightarrow> grant_node \<Rightarrow> grants \<Rightarrow> grants" where
  "publish_child i child s =
     update_node i (\<lambda>n. n\<lparr>gn_children :=
         filter (\<lambda>c. \<not> gn_dropped (node s c)) (gn_children n) @ [length (gr_nodes s)]\<rparr>)
       (s\<lparr>gr_nodes := gr_nodes s @ [child]\<rparr>)"

fun restrict_step :: "task \<Rightarrow> grants \<Rightarrow> grants \<times> task" where
  "restrict_step (Restrict_check i child pos) s =
     (s, if marked s pos then Finished (Err TopicError_Revoked)
         else (case up s pos of Some p \<Rightarrow> Restrict_check i child p | None \<Rightarrow> Restrict_register i child))"
| "restrict_step (Restrict_register i child) s =
     (publish_child i child s, Restrict_attach (length (gr_nodes s)) i)"
| "restrict_step (Restrict_attach c pos) s =
     (s, if marked s pos then Finished (Err TopicError_Revoked)
         else (case up s pos of Some p \<Rightarrow> Restrict_attach c p | None \<Rightarrow> Restricted c))"
| "restrict_step t s = (s, t)"

text \<open>\<open>revoke\<close>: the completion flag, the claim of the control waiter, the marking of the subtree in
  breadth-first order, the wait for each of its nodes, the completion flags, and the release of
  the waiter.\<close>

fun revoke_step :: "task \<Rightarrow> grants \<Rightarrow> grants \<times> task" where
  "revoke_step (Revoke_start i) s =
     (s, if gn_revocation_complete (node s i) then Revoked i else Revoke_swap i)"
| "revoke_step (Revoke_swap i) s =
     (if gn_revoker (node s i) then (s, Finished (Err TopicError_Capacity))
      else (update_node i (\<lambda>n. n\<lparr>gn_revoker := True\<rparr>) s, Revoke_mark [i] 0))"
| "revoke_step (Revoke_mark nodes index) s = (revoke_mark (nodes ! index) s, Revoke_load nodes index)"
| "revoke_step (Revoke_load nodes index) s =
     (let nodes = nodes @ filter (\<lambda>c. \<not> gn_dropped (node s c)) (gn_children (node s (nodes ! index)))
      in (s, if index + 1 < length nodes then Revoke_mark nodes (index + 1) else Revoke_wait nodes 0))"
| "revoke_step (Revoke_wait nodes k) s =
     (s, if gn_state (node s (nodes ! k)) AND ACTIVE_COUNT = 0
         then (if k + 1 < length nodes then Revoke_wait nodes (k + 1) else Revoke_complete nodes 0)
         else Revoke_wait nodes k)"
| "revoke_step (Revoke_complete nodes k) s =
     (update_node (nodes ! k) (\<lambda>n. n\<lparr>gn_revocation_complete := True\<rparr>) s,
      if k + 1 < length nodes then Revoke_complete nodes (k + 1) else Revoke_end (hd nodes))"
| "revoke_step (Revoke_end i) s = (update_node i (\<lambda>n. n\<lparr>gn_revoker := False\<rparr>) s, Revoked i)"
| "revoke_step t s = (s, t)"

fun task_step :: "task \<Rightarrow> grants \<Rightarrow> grants \<times> task" where
  "task_step t s =
     (case t of
        Restrict_check _ _ _ \<Rightarrow> restrict_step t s
      | Restrict_register _ _ \<Rightarrow> restrict_step t s
      | Restrict_attach _ _ \<Rightarrow> restrict_step t s
      | Revoke_start _ \<Rightarrow> revoke_step t s
      | Revoke_swap _ \<Rightarrow> revoke_step t s
      | Revoke_mark _ _ \<Rightarrow> revoke_step t s
      | Revoke_load _ _ \<Rightarrow> revoke_step t s
      | Revoke_wait _ _ \<Rightarrow> revoke_step t s
      | Revoke_complete _ _ \<Rightarrow> revoke_step t s
      | Revoke_end _ \<Rightarrow> revoke_step t s
      | _ \<Rightarrow> enter_step t s)"

subsection \<open>The system\<close>

record revocation_system =
  rv_store :: grants
  rv_tasks :: "task list"

datatype rv_action = Spawn task | Run nat | Cancel nat | Drop nat

text \<open>The nodes a task keeps alive by its references.\<close>

fun touches :: "task \<Rightarrow> nat list" where
  "touches (Enter_check i _ _ _ _) = [i]"
| "touches (Enter_add g) = [og_node g]"
| "touches (Enter_swap g _) = [og_node g]"
| "touches (Enter_confirm g _) = [og_node g]"
| "touches (Enter_undo g) = [og_node g]"
| "touches (Inside g) = [og_node g]"
| "touches (Restrict_check i _ _) = [i]"
| "touches (Restrict_register i _) = [i]"
| "touches (Restrict_attach c _) = [c]"
| "touches (Revoke_start i) = [i]"
| "touches (Revoke_swap i) = [i]"
| "touches (Revoke_mark nodes _) = nodes"
| "touches (Revoke_load nodes _) = nodes"
| "touches (Revoke_wait nodes _) = nodes"
| "touches (Revoke_complete nodes _) = nodes"
| "touches (Revoke_end i) = [i]"
| "touches _ = []"

text \<open>Handles clients have been given: the root and every child a derivation returned.\<close>

definition returned :: "task list \<Rightarrow> nat \<Rightarrow> bool" where
  "returned ts i \<longleftrightarrow> i = 0 \<or> Restricted i \<in> set ts"

definition alive :: "grants \<Rightarrow> nat \<Rightarrow> bool" where
  "alive s i \<longleftrightarrow> i < length (gr_nodes s) \<and> \<not> gn_dropped (node s i)"

definition fresh_child :: "nat \<Rightarrow> grant_node \<Rightarrow> bool" where
  "fresh_child i n \<longleftrightarrow> map_option ls_node (gn_parent_reservation n) = Some i \<and> gn_state n = 0
     \<and> gn_children n = [] \<and> \<not> gn_dropped n \<and> \<not> gn_revoker n \<and> \<not> gn_revocation_complete n"

fun may_start :: "grants \<Rightarrow> task list \<Rightarrow> task \<Rightarrow> bool" where
  "may_start s ts (Enter_check i event right notify pos) = (pos = i \<and> alive s i \<and> returned ts i)"
| "may_start s ts (Restrict_check i child pos) = (pos = i \<and> alive s i \<and> returned ts i \<and> fresh_child i child)"
| "may_start s ts (Revoke_start i) = (alive s i \<and> returned ts i)"
| "may_start s ts _ = False"

text \<open>A node goes when no task and no live child refers to it; cancelling a waiting revocation
  releases its control waiter.\<close>

fun rv_step :: "revocation_system \<Rightarrow> rv_action \<Rightarrow> revocation_system" where
  "rv_step m (Spawn t) = (if may_start (rv_store m) (rv_tasks m) t then m\<lparr>rv_tasks := rv_tasks m @ [t]\<rparr> else m)"
| "rv_step m (Run k) =
     (if k < length (rv_tasks m)
      then (case task_step (rv_tasks m ! k) (rv_store m) of
              (s, t) \<Rightarrow> \<lparr>rv_store = s, rv_tasks = (rv_tasks m)[k := t]\<rparr>)
      else m)"
| "rv_step m (Cancel k) =
     (if k < length (rv_tasks m)
      then (case rv_tasks m ! k of
              Revoke_wait nodes j \<Rightarrow>
                \<lparr>rv_store = update_node (hd nodes) (\<lambda>n. n\<lparr>gn_revoker := False\<rparr>) (rv_store m),
                 rv_tasks = (rv_tasks m)[k := Cancelled]\<rparr>
            | _ \<Rightarrow> m)
      else m)"
| "rv_step m (Drop i) =
     (if alive (rv_store m) i \<and> list_all (\<lambda>t. i \<notin> set (touches t)) (rv_tasks m)
         \<and> list_all (\<lambda>d. up (rv_store m) d = Some i \<longrightarrow> gn_dropped (node (rv_store m) d)) [0..<length (gr_nodes (rv_store m))]
      then m\<lparr>rv_store := update_node i (\<lambda>n. n\<lparr>gn_dropped := True\<rparr>) (rv_store m)\<rparr>
      else m)"

definition rv_new :: "limits \<Rightarrow> revocation_system" where
  "rv_new l = \<lparr>rv_store = gm_store (machine_new l), rv_tasks = []\<rparr>"

text \<open>All interleavings.\<close>

inductive reached :: "limits \<Rightarrow> revocation_system \<Rightarrow> bool" for l where
  reached_new: "reached l (rv_new l)"
| reached_step: "reached l m \<Longrightarrow> reached l (rv_step m a)"

lemma reached_run: "reached l m \<Longrightarrow> reached l (fold (\<lambda>a m. rv_step m a) as m)"
  by (induction as arbitrary: m) (simp_all add: reached_step)

subsection \<open>The invariant\<close>

text \<open>The entered operations a state word counts.\<close>

fun counting :: "task \<Rightarrow> nat option" where
  "counting (Enter_confirm g _) = Some (og_node g)"
| "counting (Enter_undo g) = Some (og_node g)"
| "counting (Inside g) = Some (og_node g)"
| "counting _ = None"

definition count_in :: "task list \<Rightarrow> nat \<Rightarrow> nat" where
  "count_in ts i = length (filter (\<lambda>t. counting t = Some i) ts)"

definition words_ok :: "grants \<Rightarrow> task list \<Rightarrow> bool" where
  "words_ok s ts \<longleftrightarrow>
     (\<forall>i < length (gr_nodes s). count_in ts i < 2 ^ 63 \<and> (\<exists>r. gn_state (node s i) = state_word r (count_in ts i)))"

text \<open>A derivation of \<open>c\<close> that has left \<open>v\<close> behind: its handle is out, or its walk is above.\<close>

definition passed :: "task list \<Rightarrow> nat \<Rightarrow> nat \<Rightarrow> bool" where
  "passed ts c v \<longleftrightarrow> returned ts c \<or> (\<exists>pos < v. Restrict_attach c pos \<in> set ts)"

text \<open>Nodes \<open>V\<close> that are marked, with their children in \<open>N\<close>.\<close>

definition enclosed :: "grants \<Rightarrow> task list \<Rightarrow> nat set \<Rightarrow> nat set \<Rightarrow> bool" where
  "enclosed s ts N V \<longleftrightarrow>
     (\<forall>v \<in> V. v < length (gr_nodes s) \<and> marked s v
        \<and> (\<forall>c. alive s c \<longrightarrow> up s c = Some v \<longrightarrow> passed ts c v \<longrightarrow> c \<in> N))"

text \<open>Revoked, and no operation entered: the word never changes again.\<close>

definition silent :: "grants \<Rightarrow> nat \<Rightarrow> bool" where
  "silent s v \<longleftrightarrow> gn_state (node s v) = REVOKED"

definition quiet_tree :: "grants \<Rightarrow> task list \<Rightarrow> nat \<Rightarrow> bool" where
  "quiet_tree s ts a \<longleftrightarrow> (\<exists>V. a \<in> V \<and> enclosed s ts V V \<and> (\<forall>v \<in> V. silent s v))"

fun task_fine :: "grants \<Rightarrow> task list \<Rightarrow> task \<Rightarrow> bool" where
  "task_fine s ts (Enter_check i _ _ _ _) = returned ts i"
| "task_fine s ts (Enter_add g) = returned ts (og_node g)"
| "task_fine s ts (Enter_swap g _) = returned ts (og_node g)"
| "task_fine s ts (Enter_confirm g _) = returned ts (og_node g)"
| "task_fine s ts (Enter_undo g) = returned ts (og_node g)"
| "task_fine s ts (Inside g) = returned ts (og_node g)"
| "task_fine s ts (Restrict_check i child _) = (returned ts i \<and> fresh_child i child)"
| "task_fine s ts (Restrict_register i child) = (returned ts i \<and> fresh_child i child)"
| "task_fine s ts (Restrict_attach c pos) = (c < length (gr_nodes s) \<and> (\<exists>v. up s c = Some v \<and> pos \<le> v))"
| "task_fine s ts (Restricted c) = (c < length (gr_nodes s))"
| "task_fine s ts (Revoke_mark nodes k) = (k < length nodes \<and> enclosed s ts (set nodes) (set (take k nodes)))"
| "task_fine s ts (Revoke_load nodes k) =
     (k < length nodes \<and> enclosed s ts (set nodes) (set (take k nodes)) \<and> marked s (nodes ! k))"
| "task_fine s ts (Revoke_wait nodes k) =
     (k < length nodes \<and> enclosed s ts (set nodes) (set nodes) \<and> (\<forall>j < k. silent s (nodes ! j)))"
| "task_fine s ts (Revoke_complete nodes k) =
     (k < length nodes \<and> enclosed s ts (set nodes) (set nodes) \<and> (\<forall>v \<in> set nodes. silent s v))"
| "task_fine s ts (Revoke_end i) = quiet_tree s ts i"
| "task_fine s ts (Revoked i) = quiet_tree s ts i"
| "task_fine s ts _ = True"

definition ancestry_ok :: "grants \<Rightarrow> task list \<Rightarrow> bool" where
  "ancestry_ok s ts \<longleftrightarrow>
     gr_nodes s \<noteq> [] \<and> up s 0 = None
     \<and> (\<forall>d < length (gr_nodes s). \<forall>p. up s d = Some p \<longrightarrow>
          p < d \<and> returned ts p \<and> (alive s d \<longrightarrow> alive s p \<and> d \<in> set (gn_children (node s p))))
     \<and> (\<forall>p < length (gr_nodes s). \<forall>c \<in> set (gn_children (node s p)). c < length (gr_nodes s))"

definition revocation_ok :: "grants \<Rightarrow> task list \<Rightarrow> bool" where
  "revocation_ok s ts \<longleftrightarrow>
     ancestry_ok s ts \<and> words_ok s ts
     \<and> (\<forall>t \<in> set ts. task_fine s ts t \<and> (\<forall>i \<in> set (touches t). alive s i))
     \<and> (\<forall>p < length (gr_nodes s). gn_revocation_complete (node s p) \<longrightarrow> quiet_tree s ts p)"

text \<open>What every step may do to the tree behind the back of the other tasks.\<close>

definition keeps :: "grants \<Rightarrow> task list \<Rightarrow> grants \<Rightarrow> task list \<Rightarrow> bool" where
  "keeps s ts s' ts' \<longleftrightarrow>
     length (gr_nodes s) \<le> length (gr_nodes s')
     \<and> (\<forall>v < length (gr_nodes s). (marked s v \<longrightarrow> marked s' v) \<and> (silent s v \<longrightarrow> silent s' v) \<and> up s' v = up s v)
     \<and> (\<forall>c v. v < length (gr_nodes s) \<longrightarrow> marked s v \<longrightarrow> alive s' c \<longrightarrow> up s' c = Some v \<longrightarrow> passed ts' c v
          \<longrightarrow> alive s c \<and> up s c = Some v \<and> passed ts c v)
     \<and> (\<forall>i. returned ts i \<longrightarrow> returned ts' i)"

lemma keeps_enclosed: "enclosed s ts N V \<Longrightarrow> keeps s ts s' ts' \<Longrightarrow> enclosed s' ts' N V"
  unfolding enclosed_def keeps_def by (meson order_less_le_trans)

lemma enclosed_range: "enclosed s ts N V \<Longrightarrow> v \<in> V \<Longrightarrow> v < length (gr_nodes s)"
  by (simp add: enclosed_def)

lemma keeps_quiet:
  assumes "quiet_tree s ts a" and "keeps s ts s' ts'"
  shows "quiet_tree s' ts' a"
proof -
  obtain V where V: "a \<in> V" "enclosed s ts V V" "\<forall>v \<in> V. silent s v"
    using assms(1) by (auto simp: quiet_tree_def)
  have "\<forall>v \<in> V. silent s' v"
    using V(3) enclosed_range [OF V(2)] assms(2) by (simp add: keeps_def)
  then show ?thesis using V(1) keeps_enclosed [OF V(2) assms(2)] by (auto simp: quiet_tree_def)
qed

lemma keeps_returned: "keeps s ts s' ts' \<Longrightarrow> returned ts i \<Longrightarrow> returned ts' i"
  by (simp add: keeps_def)

lemma keeps_task_fine:
  assumes "task_fine s ts t" and "keeps s ts s' ts'"
    and "\<And>i. i \<in> set (touches t) \<Longrightarrow> i < length (gr_nodes s)"
  shows "task_fine s' ts' t"
proof -
  note k = assms(2)
  have up: "v < length (gr_nodes s) \<Longrightarrow> up s' v = up s v" and sil: "v < length (gr_nodes s) \<Longrightarrow> silent s v \<Longrightarrow> silent s' v"
    and mk: "v < length (gr_nodes s) \<Longrightarrow> marked s v \<Longrightarrow> marked s' v"
    and len: "length (gr_nodes s) \<le> length (gr_nodes s')" for v
    using k by (simp_all add: keeps_def)
  show ?thesis
  proof (cases t)
    case (Restrict_attach c pos)
    then show ?thesis using assms(1) up [of c] len by auto
  next
    case (Restricted c)
    then show ?thesis using assms(1) len by auto
  next
    case (Revoke_mark nodes j)
    then show ?thesis using assms(1) keeps_enclosed [OF _ k] by auto
  next
    case (Revoke_load nodes j)
    then show ?thesis using assms(1,3) keeps_enclosed [OF _ k] mk [of "nodes ! j"] by auto
  next
    case (Revoke_wait nodes j)
    then show ?thesis using assms(1,3) keeps_enclosed [OF _ k] sil by auto
  next
    case (Revoke_complete nodes j)
    then show ?thesis using assms(1,3) keeps_enclosed [OF _ k] sil by auto
  qed (use assms(1) keeps_quiet [OF _ k] keeps_returned [OF k] in auto)
qed

lemma revocation_ok_update:
  assumes ok: "revocation_ok s ts" and k: "k < length ts" and kp: "keeps s ts s' (ts[k := t])"
    and fine: "task_fine s' (ts[k := t]) t" and touch: "\<And>i. i \<in> set (touches t) \<Longrightarrow> alive s' i"
    and alive: "\<And>i. alive s i \<Longrightarrow> alive s' i"
    and tree: "ancestry_ok s' (ts[k := t])" and words: "words_ok s' (ts[k := t])"
    and complete: "\<And>p. p < length (gr_nodes s') \<Longrightarrow> gn_revocation_complete (node s' p)
      \<Longrightarrow> p < length (gr_nodes s) \<and> gn_revocation_complete (node s p) \<or> quiet_tree s' (ts[k := t]) p"
  shows "revocation_ok s' (ts[k := t])"
proof -
  have "task_fine s' (ts[k := t]) u \<and> (\<forall>i \<in> set (touches u). alive s' i)" if "u \<in> set (ts[k := t])" for u
  proof (cases "u = t")
    case True
    then show ?thesis using fine touch by blast
  next
    case False
    then have "u \<in> set ts" using that set_update_subset_insert [of ts k t] by blast
    then have u: "task_fine s ts u" "\<And>i. i \<in> set (touches u) \<Longrightarrow> alive s i" using ok by (auto simp: revocation_ok_def)
    then show ?thesis using keeps_task_fine [OF u(1) kp] alive by (auto simp: alive_def)
  qed
  moreover have "quiet_tree s' (ts[k := t]) p" if "p < length (gr_nodes s')" "gn_revocation_complete (node s' p)" for p
    using complete [OF that] ok keeps_quiet [OF _ kp] by (auto simp: revocation_ok_def)
  ultimately show ?thesis using tree words by (auto simp: revocation_ok_def)
qed

subsection \<open>Every step keeps it\<close>

lemma count_update:
  assumes "k < length ts"
  shows "count_in (ts[k := t]) i + (if counting (ts ! k) = Some i then 1 else 0)
    = count_in ts i + (if counting t = Some i then 1 else 0)"
proof -
  have a: "ts = take k ts @ ts ! k # drop (Suc k) ts" using assms by (rule id_take_nth_drop)
  have b: "ts[k := t] = take k ts @ t # drop (Suc k) ts" using assms by (rule upd_conv_take_nth_drop)
  have "count_in ts i = count_in (take k ts @ ts ! k # drop (Suc k) ts) i" using a by simp
  then show ?thesis unfolding b by (simp add: count_in_def)
qed

lemma returned_update:
  assumes "returned ts i" and "\<And>c. ts ! k \<noteq> Restricted c"
  shows "returned (ts[k := t]) i"
proof (cases "i = 0")
  case False
  then have "Restricted i \<in> set ts" using assms(1) by (simp add: returned_def)
  then have "\<exists>j < length ts. ts ! j = Restricted i" by (simp add: in_set_conv_nth)
  then obtain j where j: "j < length ts" "ts ! j = Restricted i" by blast
  then have "j \<noteq> k" using assms(2) by metis
  then have "ts[k := t] ! j = Restricted i" using j by simp
  then show ?thesis using j(1) by (metis length_list_update nth_mem returned_def)
qed (simp add: returned_def)

lemma passed_update:
  assumes "passed (ts[k := t]) c v" and "t \<noteq> Restricted c" and "\<And>pos. t = Restrict_attach c pos \<Longrightarrow> v \<le> pos"
  shows "passed ts c v"
proof -
  have sub: "u \<in> set (ts[k := t]) \<Longrightarrow> u = t \<or> u \<in> set ts" for u
    using set_update_subset_insert [of ts k t] by blast
  show ?thesis
    using assms(1) unfolding passed_def returned_def
  proof (elim disjE exE conjE)
    assume "Restricted c \<in> set (ts[k := t])"
    then show "(c = 0 \<or> Restricted c \<in> set ts) \<or> (\<exists>pos<v. Restrict_attach c pos \<in> set ts)"
      using sub assms(2) by blast
  next
    fix pos assume "pos < v" "Restrict_attach c pos \<in> set (ts[k := t])"
    then show "(c = 0 \<or> Restricted c \<in> set ts) \<or> (\<exists>pos<v. Restrict_attach c pos \<in> set ts)"
      using sub assms(3) by (metis not_le)
  qed simp
qed

lemma ancestry_ok_cong:
  assumes tree: "ancestry_ok s ts" and len: "length (gr_nodes s') = length (gr_nodes s)" and "up s' = up s"
    and "alive s' = alive s" and "\<And>p. gn_children (node s' p) = gn_children (node s p)"
    and ret: "\<And>i. returned ts i \<Longrightarrow> returned ts' i"
  shows "ancestry_ok s' ts'"
proof -
  have "gr_nodes s' \<noteq> []" using tree len by (metis length_0_conv ancestry_ok_def)
  then show ?thesis
    using tree ret unfolding ancestry_ok_def len assms(3-5) by blast
qed

text \<open>A step that changes a node in place, or only the task.\<close>

lemma in_place_ok:
  assumes ok: "revocation_ok s ts" and k: "k < length ts"
    and s': "s' = emit ns (update_node i f s)" and i: "i < length (gr_nodes s)"
    and f: "\<And>n. gn_dropped (f n) = gn_dropped n" "\<And>n. gn_parent_reservation (f n) = gn_parent_reservation n"
      "\<And>n. gn_children (f n) = gn_children n"
    and old: "\<And>c. ts ! k \<noteq> Restricted c" and new: "\<And>c. t \<noteq> Restricted c" "\<And>c pos. t \<noteq> Restrict_attach c pos"
    and word: "\<exists>r. gn_state (f (node s i)) = state_word r (count_in (ts[k := t]) i)" "count_in (ts[k := t]) i < 2 ^ 63"
      "marked s i \<Longrightarrow> gn_state (f (node s i)) AND REVOKED \<noteq> 0" "silent s i \<Longrightarrow> gn_state (f (node s i)) = REVOKED"
    and count: "\<And>j. j \<noteq> i \<Longrightarrow> count_in (ts[k := t]) j = count_in ts j"
    and touch: "\<And>j. j \<in> set (touches t) \<Longrightarrow> alive s j"
    and fine: "keeps s ts s' (ts[k := t]) \<Longrightarrow> task_fine s' (ts[k := t]) t"
    and complete: "gn_revocation_complete (f (node s i)) \<Longrightarrow> keeps s ts s' (ts[k := t])
      \<Longrightarrow> gn_revocation_complete (node s i) \<or> quiet_tree s' (ts[k := t]) i"
  shows "revocation_ok s' (ts[k := t])"
proof -
  have len: "length (gr_nodes s') = length (gr_nodes s)" using s' by simp
  have nd: "node s' j = (if j = i then f (node s i) else node s j)" for j
    using s' i by (simp add: node_update_node)
  have up: "up s' = up s" by (rule ext) (simp add: up_def nd f)
  have alive: "alive s' = alive s" by (rule ext) (simp add: alive_def nd len f)
  have mk: "marked s v \<Longrightarrow> marked s' v" and sl: "silent s v \<Longrightarrow> silent s' v" for v
    using word(3,4) by (auto simp: marked_def silent_def nd)
  have ret: "returned ts j \<Longrightarrow> returned (ts[k := t]) j" for j by (rule returned_update [OF _ old])
  have kp: "keeps s ts s' (ts[k := t])"
    unfolding keeps_def len up alive
    using mk sl ret passed_update [of ts k t] new by auto
  have tree: "ancestry_ok s ts" and words: "words_ok s ts" using ok by (auto simp: revocation_ok_def)
  show ?thesis
  proof (rule revocation_ok_update [OF ok k kp fine [OF kp]])
    show "ancestry_ok s' (ts[k := t])"
      by (rule ancestry_ok_cong [OF tree len up alive _ ret]) (simp add: nd f)
    show "words_ok s' (ts[k := t])"
      using words word(1,2) count nd len by (simp add: words_ok_def)
    show "p < length (gr_nodes s) \<and> gn_revocation_complete (node s p) \<or> quiet_tree s' (ts[k := t]) p"
      if "p < length (gr_nodes s')" "gn_revocation_complete (node s' p)" for p
      using that complete [OF _ kp] nd len by (cases "p = i") auto
  qed (use touch alive in auto)
qed

lemma task_only_ok:
  assumes ok: "revocation_ok s ts" and k: "k < length ts"
    and old: "\<And>c. ts ! k \<noteq> Restricted c"
    and new: "\<And>c v. passed (ts[k := t]) c v \<Longrightarrow> marked s v \<Longrightarrow> alive s c \<Longrightarrow> up s c = Some v \<Longrightarrow> passed ts c v"
    and count: "counting t = counting (ts ! k)"
    and touch: "\<And>j. j \<in> set (touches t) \<Longrightarrow> alive s j"
    and fine: "keeps s ts s (ts[k := t]) \<Longrightarrow> task_fine s (ts[k := t]) t"
  shows "revocation_ok s (ts[k := t])"
proof -
  have ret: "returned ts j \<Longrightarrow> returned (ts[k := t]) j" for j by (rule returned_update [OF _ old])
  have kp: "keeps s ts s (ts[k := t])" unfolding keeps_def using ret new by auto
  have "count_in (ts[k := t]) i = count_in ts i" for i using count_update [OF k, of t i] count by simp
  then have words: "words_ok s (ts[k := t])" using ok by (simp add: revocation_ok_def words_ok_def)
  show ?thesis
  proof (rule revocation_ok_update [OF ok k kp fine [OF kp]])
    show "ancestry_ok s (ts[k := t])"
      by (rule ancestry_ok_cong [OF _ refl refl refl refl ret]) (use ok in \<open>unfold revocation_ok_def, blast\<close>)
  qed (use touch words in auto)
qed

text \<open>The steps of an admission.\<close>

lemma word_at:
  assumes "revocation_ok s ts" and "i < length (gr_nodes s)"
  obtains r where "gn_state (node s i) = state_word r (count_in ts i)" "count_in ts i < 2 ^ 63"
    "marked s i \<longleftrightarrow> r" "silent s i \<longleftrightarrow> r \<and> count_in ts i = 0"
proof -
  obtain r where r: "gn_state (node s i) = state_word r (count_in ts i)" "count_in ts i < 2 ^ 63"
    using assms by (auto simp: revocation_ok_def words_ok_def)
  have m: "marked s i \<longleftrightarrow> r" using r state_word_revoked by (simp add: marked_def)
  have "silent s i \<longleftrightarrow> r \<and> count_in ts i = 0"
  proof
    assume "silent s i"
    then have e: "state_word r (count_in ts i) = state_word True 0" using r by (simp add: silent_def state_word_def)
    then have "of_nat (count_in ts i) = (of_nat 0 :: u64)"
      using state_word_count [OF r(2), of r] state_word_count [of 0 True] by simp
    moreover have "unat (of_nat (count_in ts i) :: u64) = count_in ts i"
      using r(2) by (simp add: unat_of_nat take_bit_nat_eq_self)
    ultimately have "count_in ts i = 0" by simp
    moreover have r using e state_word_revoked [OF r(2), of r] state_word_revoked [of 0 True] by simp
    ultimately show "r \<and> count_in ts i = 0" by simp
  next
    assume "r \<and> count_in ts i = 0"
    then show "silent s i" using r by (simp add: silent_def state_word_def)
  qed
  then show thesis using that r m by blast
qed

lemma enter_count_ok:
  assumes ok: "revocation_ok s ts" and k: "k < length ts"
    and t: "ts ! k = Enter_add g \<or> (\<exists>st. ts ! k = Enter_swap g st)"
    and adv: "advance (gn_state (node s (og_node g))) = Some w"
  shows "revocation_ok (set_word (og_node g) w s) (ts[k := Enter_confirm g (og_node g)])"
proof -
  let ?i = "og_node g" and ?t = "Enter_confirm g (og_node g)"
  have live: "alive s ?i" and fine: "returned ts ?i"
    using ok k t nth_mem [OF k] unfolding revocation_ok_def by fastforce+
  then have i: "?i < length (gr_nodes s)" by (simp add: alive_def)
  obtain r where st: "gn_state (node s ?i) = state_word r (count_in ts ?i)" and c: "count_in ts ?i < 2 ^ 63"
    and mk: "marked s ?i \<longleftrightarrow> r" "silent s ?i \<longleftrightarrow> r \<and> count_in ts ?i = 0"
    using word_at [OF ok i] by blast
  have r: "\<not> r" and c': "count_in ts ?i + 1 < 2 ^ 63" and w: "w = state_word r (count_in ts ?i + 1)"
    using adv unfolding st advance_state_word [OF c] by (auto split: if_splits)
  have cnt: "count_in (ts[k := ?t]) j = (if j = ?i then count_in ts j + 1 else count_in ts j)" for j
    using count_update [OF k, of ?t j] t by auto
  show ?thesis
  proof (rule in_place_ok [OF ok k _ i])
    show "set_word ?i w s = emit [] (update_node ?i (\<lambda>n. n\<lparr>gn_state := w\<rparr>) s)" by (simp add: set_word_def)
    show "task_fine (set_word ?i w s) (ts[k := ?t]) ?t" if "keeps s ts (set_word ?i w s) (ts[k := ?t])"
      using keeps_returned [OF that fine] by simp
    show "\<exists>ra. gn_state ((node s ?i)\<lparr>gn_state := w\<rparr>) = state_word ra (count_in (ts[k := ?t]) ?i)"
      using w cnt by auto
  qed (use t r mk c' cnt live in auto)
qed

lemma leave_ok:
  assumes ok: "revocation_ok s ts" and k: "k < length ts"
    and t: "ts ! k = Enter_undo g \<or> ts ! k = Inside g"
  shows "revocation_ok (drop_operation g s) (ts[k := Finished x])"
proof -
  let ?i = "og_node g" and ?w = "gn_state (node s (og_node g)) - 1"
  have live: "alive s ?i" using ok k t nth_mem [OF k] unfolding revocation_ok_def by fastforce
  then have i: "?i < length (gr_nodes s)" by (simp add: alive_def)
  obtain r where st: "gn_state (node s ?i) = state_word r (count_in ts ?i)" and c: "count_in ts ?i < 2 ^ 63"
    and mk: "marked s ?i \<longleftrightarrow> r" "silent s ?i \<longleftrightarrow> r \<and> count_in ts ?i = 0"
    using word_at [OF ok i] by blast
  have cnt: "count_in (ts[k := Finished x]) j + (if j = ?i then 1 else 0) = count_in ts j" for j
    using count_update [OF k, of "Finished x" j] t by (cases "j = ?i") auto
  have here: "count_in ts ?i = count_in (ts[k := Finished x]) ?i + 1" using cnt [of ?i] by simp
  have w: "?w = state_word r (count_in (ts[k := Finished x]) ?i)"
    using st c here state_word_pred [of "count_in (ts[k := Finished x]) ?i" r] by simp
  obtain ns where ns: "drop_operation g s = emit ns (update_node ?i (\<lambda>n. n\<lparr>gn_state := ?w\<rparr>) s)"
    using drop_operation_exec by blast
  have c': "count_in (ts[k := Finished x]) ?i < 2 ^ 63" using c here by simp
  show ?thesis
  proof (rule in_place_ok [OF ok k ns i])
    show "\<exists>ra. gn_state ((node s ?i)\<lparr>gn_state := ?w\<rparr>) = state_word ra (count_in (ts[k := Finished x]) ?i)"
      using w by auto
    show "count_in (ts[k := Finished x]) j = count_in ts j" if "j \<noteq> ?i" for j using cnt [of j] that by simp
    show "gn_state ((node s ?i)\<lparr>gn_state := ?w\<rparr>) AND REVOKED \<noteq> 0" if "marked s ?i"
      using that mk w state_word_revoked [OF c'] by simp
  qed (use t c' mk here in auto)
qed

lemma mark_ok:
  assumes ok: "revocation_ok s ts" and k: "k < length ts" and t: "ts ! k = Revoke_mark nodes j"
  shows "revocation_ok (revoke_mark (nodes ! j) s) (ts[k := Revoke_load nodes j])"
proof -
  let ?i = "nodes ! j" and ?t = "Revoke_load nodes j"
  let ?w = "gn_state (node s ?i) OR REVOKED" and ?s = "revoke_mark ?i s"
  have fine: "task_fine s ts (Revoke_mark nodes j)" and live: "\<And>v. v \<in> set nodes \<Longrightarrow> alive s v"
    using ok k t nth_mem [OF k] unfolding revocation_ok_def by fastforce+
  then have j: "j < length nodes" by simp
  then have i: "?i < length (gr_nodes s)" using live by (simp add: alive_def)
  obtain r where st: "gn_state (node s ?i) = state_word r (count_in ts ?i)" and c: "count_in ts ?i < 2 ^ 63"
    and mk: "marked s ?i \<longleftrightarrow> r" "silent s ?i \<longleftrightarrow> r \<and> count_in ts ?i = 0"
    using word_at [OF ok i] by blast
  have cnt: "count_in (ts[k := ?t]) v = count_in ts v" for v
    using count_update [OF k, of ?t v] t by simp
  have w: "?w = state_word True (count_in ts ?i)" using st state_word_revoke by simp
  obtain ns where ns: "?s = emit ns (update_node ?i (\<lambda>n. n\<lparr>gn_state := ?w\<rparr>) s)"
    using revoke_mark_exec by blast
  have marked: "marked ?s ?i"
    using ns i w state_word_revoked [OF c] by (simp add: marked_def node_update_node)
  show ?thesis
  proof (rule in_place_ok [OF ok k ns i])
    show "\<exists>ra. gn_state ((node s ?i)\<lparr>gn_state := ?w\<rparr>) = state_word ra (count_in (ts[k := ?t]) ?i)"
      using w cnt by auto
    show "gn_state ((node s ?i)\<lparr>gn_state := ?w\<rparr>) AND REVOKED \<noteq> 0" using w state_word_revoked [OF c] by simp
    show "gn_state ((node s ?i)\<lparr>gn_state := ?w\<rparr>) = REVOKED" if "silent s ?i"
      using that by (simp add: silent_def)
    show "task_fine ?s (ts[k := ?t]) ?t" if "keeps s ts ?s (ts[k := ?t])"
      using fine keeps_enclosed [OF _ that] marked by simp
  qed (use t c cnt live in auto)
qed

text \<open>A task at its place: what the invariant says of it.\<close>

lemma task_at:
  assumes "revocation_ok s ts" and "k < length ts" and "ts ! k = t"
  shows "task_fine s ts t" and "i \<in> set (touches t) \<Longrightarrow> alive s i"
  using assms nth_mem [OF assms(2)] unfolding revocation_ok_def by blast+

lemma flag_ok:
  assumes ok: "revocation_ok s ts" and k: "k < length ts" and s': "s' = update_node i f s" and i: "alive s i"
    and f: "f = (\<lambda>n. n\<lparr>gn_revoker := b\<rparr>) \<or> f = (\<lambda>n. n\<lparr>gn_revocation_complete := True\<rparr>)
      \<and> (keeps s ts s' (ts[k := t]) \<longrightarrow> quiet_tree s' (ts[k := t]) i)"
    and old: "\<And>c. ts ! k \<noteq> Restricted c" "counting (ts ! k) = None"
    and new: "\<And>c. t \<noteq> Restricted c" "\<And>c pos. t \<noteq> Restrict_attach c pos" "counting t = None"
    and touch: "\<And>j. j \<in> set (touches t) \<Longrightarrow> alive s j"
    and fine: "keeps s ts s' (ts[k := t]) \<Longrightarrow> task_fine s' (ts[k := t]) t"
  shows "revocation_ok s' (ts[k := t])"
proof -
  have len: "i < length (gr_nodes s)" using i by (simp add: alive_def)
  have cnt: "count_in (ts[k := t]) j = count_in ts j" for j
    using count_update [OF k, of t j] old new by simp
  obtain r where w: "gn_state (node s i) = state_word r (count_in ts i)" "count_in ts i < 2 ^ 63"
    using word_at [OF ok len] by blast
  have st: "gn_state (f n) = gn_state n" for n using f by auto
  have e: "s' = emit [] (update_node i f s)" using s' by simp
  show ?thesis
  proof (rule in_place_ok [OF ok k e len])
    show "\<exists>r. gn_state (f (node s i)) = state_word r (count_in (ts[k := t]) i)" using w st cnt by auto
    show "gn_revocation_complete (node s i) \<or> quiet_tree s' (ts[k := t]) i"
      if "gn_revocation_complete (f (node s i))" "keeps s ts s' (ts[k := t])" using that f by auto
  qed (use f old new touch fine cnt w st in \<open>auto simp: marked_def silent_def\<close>)
qed

lemma quiet_treeI: "a \<in> set nodes \<Longrightarrow> enclosed s ts (set nodes) (set nodes) \<Longrightarrow> \<forall>v \<in> set nodes. silent s v \<Longrightarrow> quiet_tree s ts a"
  by (auto simp: quiet_tree_def)

lemma complete_ok:
  assumes ok: "revocation_ok s ts" and k: "k < length ts" and t: "ts ! k = Revoke_complete nodes j"
  shows "revocation_ok (update_node (nodes ! j) (\<lambda>n. n\<lparr>gn_revocation_complete := True\<rparr>) s)
    (ts[k := if j + 1 < length nodes then Revoke_complete nodes (j + 1) else Revoke_end (hd nodes)])"
proof -
  let ?t = "if j + 1 < length nodes then Revoke_complete nodes (j + 1) else Revoke_end (hd nodes)"
  have fine: "j < length nodes" "enclosed s ts (set nodes) (set nodes)" "\<forall>v \<in> set nodes. silent s v"
    using task_at(1) [OF ok k t] by simp_all
  then have hd: "hd nodes \<in> set nodes" "nodes ! j \<in> set nodes" by (auto intro: hd_in_set)
  have quiet: "quiet_tree s ts v" if "v \<in> set nodes" for v using that fine by (intro quiet_treeI) auto
  have live: "v \<in> set nodes \<Longrightarrow> alive s v" for v using task_at(2) [OF ok k t, of v] by simp
  have range: "v \<in> set nodes \<Longrightarrow> v < length (gr_nodes s)" for v using live by (simp add: alive_def)
  show ?thesis
  proof (rule flag_ok [OF ok k refl live [OF hd(2)], where b = False])
    let ?s = "update_node (nodes ! j) (\<lambda>n. n\<lparr>gn_revocation_complete := True\<rparr>) s"
    show "task_fine ?s (ts[k := ?t]) ?t" if kp: "keeps s ts ?s (ts[k := ?t])"
    proof (cases "j + 1 < length nodes")
      case True
      then have "enclosed ?s (ts[k := ?t]) (set nodes) (set nodes)" using keeps_enclosed [OF fine(2) kp] by simp
      moreover have "\<forall>v \<in> set nodes. silent ?s v" using fine(3) kp range by (simp add: keeps_def)
      ultimately show ?thesis using True by simp
    next
      case False
      then show ?thesis using keeps_quiet [OF quiet [OF hd(1)] kp] by simp
    qed
  qed (use t live hd keeps_quiet [OF quiet [OF hd(2)]] in \<open>auto split: if_splits\<close>)
qed

text \<open>The publication of a child: only the derivation that publishes it knows it.\<close>

lemma publish_child_facts:
  assumes "i < length (gr_nodes s)"
  shows "length (gr_nodes (publish_child i child s)) = length (gr_nodes s) + 1"
    and "v < length (gr_nodes s) \<Longrightarrow> up (publish_child i child s) v = up s v"
    and "v < length (gr_nodes s) \<Longrightarrow> alive (publish_child i child s) v = alive s v"
    and "v < length (gr_nodes s) \<Longrightarrow> gn_state (node (publish_child i child s) v) = gn_state (node s v)"
    and "v < length (gr_nodes s) \<Longrightarrow> gn_revocation_complete (node (publish_child i child s) v)
      = gn_revocation_complete (node s v)"
    and "v < length (gr_nodes s) \<Longrightarrow> gn_children (node (publish_child i child s) v)
      = (if v = i then filter (\<lambda>c. \<not> gn_dropped (node s c)) (gn_children (node s i)) @ [length (gr_nodes s)]
         else gn_children (node s v))"
    and "node (publish_child i child s) (length (gr_nodes s)) = child"
  using assms
  by (auto simp: publish_child_def node_update_node up_def alive_def nth_append)

lemma register_ok:
  assumes ok: "revocation_ok s ts" and k: "k < length ts" and t: "ts ! k = Restrict_register i child"
  shows "revocation_ok (publish_child i child s) (ts[k := Restrict_attach (length (gr_nodes s)) i])"
proof -
  let ?c = "length (gr_nodes s)" and ?s = "publish_child i child s"
  let ?t = "Restrict_attach ?c i"
  have ret: "returned ts i" and fresh: "fresh_child i child" using task_at(1) [OF ok k t] by simp_all
  have live: "alive s i" using task_at(2) [OF ok k t] by simp
  then have i: "i < ?c" by (simp add: alive_def)
  note facts = publish_child_facts [OF i, where child = child]
  have ret': "returned ts j \<Longrightarrow> returned (ts[k := ?t]) j" for j by (rule returned_update) (simp_all add: t)
  have tree: "ancestry_ok s ts" and words: "words_ok s ts" using ok unfolding revocation_ok_def by blast+
  have upc: "up ?s ?c = Some i" using facts(7) fresh by (simp add: up_def fresh_child_def)
  have livec: "alive ?s ?c" using facts(1,7) fresh by (simp add: alive_def fresh_child_def)
  have known: "c \<noteq> ?c" if "passed ts c v" for c v
  proof
    assume "c = ?c"
    then have "(\<exists>u \<in> set ts. u = Restricted ?c \<or> (\<exists>pos. u = Restrict_attach ?c pos)) \<or> ?c = 0"
      using that by (auto simp: passed_def returned_def)
    then show False
    proof (elim disjE bexE exE)
      fix u assume "u \<in> set ts" "u = Restricted ?c"
      then show False using ok unfolding revocation_ok_def by fastforce
    next
      fix u pos assume "u \<in> set ts" "u = Restrict_attach ?c pos"
      then show False using ok unfolding revocation_ok_def by fastforce
    qed (use i in simp)
  qed
  have kp: "keeps s ts ?s (ts[k := ?t])"
    unfolding keeps_def
  proof (intro conjI allI impI)
    fix c v
    assume a: "v < ?c" "marked s v" "alive ?s c" "up ?s c = Some v" "passed (ts[k := ?t]) c v"
    have p: "passed ts c v"
      by (rule passed_update [OF a(5)]) (use a(4) upc in auto)
    then have "c < ?c" using known a(3) facts(1) by (fastforce simp: alive_def)
    then show "alive s c" "up s c = Some v" "passed ts c v" using a p facts by simp_all
  qed (use facts ret' in \<open>simp_all add: marked_def silent_def\<close>)
  have cnt: "count_in (ts[k := ?t]) v = count_in ts v" for v
    using count_update [OF k, of ?t v] t by simp
  have none: "count_in ts ?c = 0"
  proof -
    have "counting u \<noteq> Some ?c" if "u \<in> set ts" for u
    proof
      assume "counting u = Some ?c"
      then have "?c \<in> set (touches u)" by (cases u) auto
      then show False using ok that unfolding revocation_ok_def alive_def by blast
    qed
    then show ?thesis by (simp add: count_in_def filter_empty_conv)
  qed
  show ?thesis
  proof (rule revocation_ok_update [OF ok k kp])
    show "task_fine ?s (ts[k := ?t]) ?t" using upc facts(1) by simp
    show "alive ?s j" if "j \<in> set (touches ?t)" for j using that livec by simp
    show "alive ?s j" if "alive s j" for j using that facts(3) by (simp add: alive_def)
    show "ancestry_ok ?s (ts[k := ?t])"
    proof -
      have old: "d < ?c \<Longrightarrow> up s d = Some p \<Longrightarrow> p < d \<and> returned ts p
          \<and> (alive s d \<longrightarrow> alive s p \<and> d \<in> set (gn_children (node s p)))" for d p
        using tree unfolding ancestry_ok_def by blast
      have shape1: "p < d \<and> returned (ts[k := ?t]) p \<and> (alive ?s d \<longrightarrow> alive ?s p \<and> d \<in> set (gn_children (node ?s p)))"
        if d: "d < length (gr_nodes ?s)" "up ?s d = Some p" for d p
      proof (cases "d = ?c")
        case True
        then show ?thesis using d upc i ret' [OF ret] facts(3,6) live by auto
      next
        case False
        then have dc: "d < ?c" using d facts(1) by simp
        then have "up s d = Some p" using d facts(2) by simp
        note o = old [OF dc this]
        then have pc: "p < ?c" using dc by simp
        have "alive ?s p \<and> d \<in> set (gn_children (node ?s p))" if "alive ?s d"
        proof -
          have "alive s d" using that facts(3) [OF dc] by simp
          then have "alive s p" "d \<in> set (gn_children (node s p))" "\<not> gn_dropped (node s d)"
            using o by (auto simp: alive_def)
          then show ?thesis using facts(3,6) [OF pc] by auto
        qed
        then show ?thesis using o ret' by blast
      qed
      have shape2: "c < length (gr_nodes ?s)" if "p < length (gr_nodes ?s)" "c \<in> set (gn_children (node ?s p))" for p c
      proof (cases "p = ?c")
        case True
        then show ?thesis using that facts(7) fresh by (simp add: fresh_child_def)
      next
        case False
        then have "p < ?c" using that facts(1) by simp
        have old: "x < ?c" if "x \<in> set (gn_children (node s p))" for x
          using that tree \<open>p < ?c\<close> unfolding ancestry_ok_def by blast
        have "c = ?c \<or> c \<in> set (gn_children (node s p))"
          using that(2) facts(6) [OF \<open>p < ?c\<close>] by (auto split: if_splits)
        then show ?thesis using old [of c] facts(1) by auto
      qed
      have "gr_nodes ?s \<noteq> []" using facts(1) by auto
      moreover have "up s 0 = None" using tree unfolding ancestry_ok_def by blast
      moreover have "0 < ?c" by (rule le_less_trans [OF le0 i])
      ultimately have "gr_nodes ?s \<noteq> []" "up ?s 0 = None" using facts(2) [of 0] by simp_all
      then show ?thesis using shape1 shape2 unfolding ancestry_ok_def by blast
    qed
    show "words_ok ?s (ts[k := ?t])"
      unfolding words_ok_def
    proof (intro allI impI)
      fix v assume v: "v < length (gr_nodes ?s)"
      show "count_in (ts[k := ?t]) v < 2 ^ 63 \<and> (\<exists>r. gn_state (node ?s v) = state_word r (count_in (ts[k := ?t]) v))"
      proof (cases "v = ?c")
        case True
        then have "gn_state (node ?s v) = state_word False 0"
          using facts(7) fresh by (simp add: fresh_child_def state_word_def)
        then show ?thesis using True cnt none by auto
      next
        case False
        then show ?thesis using v facts(1,4) words cnt by (simp add: words_ok_def)
      qed
    qed
    show "p < length (gr_nodes s) \<and> gn_revocation_complete (node s p) \<or> quiet_tree ?s (ts[k := ?t]) p"
      if "p < length (gr_nodes ?s)" "gn_revocation_complete (node ?s p)" for p
      using that facts(1,5,7) fresh by (cases "p = ?c") (auto simp: fresh_child_def)
  qed
qed

text \<open>The steps that only move a task.\<close>

lemma plain_ok:
  assumes ok: "revocation_ok s ts" and k: "k < length ts"
    and old: "\<And>c. ts ! k \<noteq> Restricted c" and new: "\<And>c. t \<noteq> Restricted c" "\<And>c pos. t \<noteq> Restrict_attach c pos"
    and "counting t = counting (ts ! k)"
    and "\<And>j. j \<in> set (touches t) \<Longrightarrow> alive s j"
    and "keeps s ts s (ts[k := t]) \<Longrightarrow> task_fine s (ts[k := t]) t"
  shows "revocation_ok s (ts[k := t])"
proof (rule task_only_ok [OF ok k old])
  show "passed ts c v" if "passed (ts[k := t]) c v" for c v
    by (rule passed_update [OF that]) (simp_all add: new)
qed (use assms in auto)

lemma attach_ok:
  assumes ok: "revocation_ok s ts" and k: "k < length ts" and t: "ts ! k = Restrict_attach c pos"
    and un: "\<not> marked s pos"
    and t': "t = (case up s pos of Some p \<Rightarrow> Restrict_attach c p | None \<Rightarrow> Restricted c)"
  shows "revocation_ok s (ts[k := t])"
proof -
  obtain v where v: "up s c = Some v" "pos \<le> v" and c: "c < length (gr_nodes s)"
    using task_at(1) [OF ok k t] by auto
  have live: "alive s c" using task_at(2) [OF ok k t] by simp
  have tree: "ancestry_ok s ts" using ok unfolding revocation_ok_def by blast
  have "v < c" using tree v c unfolding ancestry_ok_def by blast
  then have pos: "pos < length (gr_nodes s)" using v c by simp
  show ?thesis
  proof (rule task_only_ok [OF ok k])
    fix c' v' assume a: "passed (ts[k := t]) c' v'" "marked s v'" "up s c' = Some v'"
    show "passed ts c' v'"
    proof (cases "c' = c")
      case True
      then have "v' = v" using a v by simp
      then have "pos < v'" using a(2) un v(2) by (cases "pos = v") auto
      then show ?thesis using True t nth_mem [OF k] by (auto simp: passed_def)
    next
      case False
      then show ?thesis by (intro passed_update [OF a(1)]) (auto simp: t' split: option.splits)
    qed
  next
    show "task_fine s (ts[k := t]) t"
    proof (cases "up s pos")
      case (Some p)
      then have "p < pos" using tree pos unfolding ancestry_ok_def by blast
      then show ?thesis using Some t' v c by auto
    qed (simp add: t' c)
  qed (use t live in \<open>auto simp: t' split: option.splits\<close>)
qed

lemma swap_ok:
  assumes ok: "revocation_ok s ts" and k: "k < length ts" and t: "ts ! k = Revoke_swap i"
  shows "revocation_ok (update_node i (\<lambda>n. n\<lparr>gn_revoker := True\<rparr>) s) (ts[k := Revoke_mark [i] 0])"
  by (rule flag_ok [OF ok k refl, where b = True])
    (use t task_at(2) [OF ok k t] in \<open>auto simp: enclosed_def\<close>)

lemma revoke_end_ok:
  assumes ok: "revocation_ok s ts" and k: "k < length ts" and t: "ts ! k = Revoke_end i"
  shows "revocation_ok (update_node i (\<lambda>n. n\<lparr>gn_revoker := False\<rparr>) s) (ts[k := Revoked i])"
  by (rule flag_ok [OF ok k refl, where b = False])
    (use t task_at [OF ok k t] keeps_quiet in auto)

lemma load_ok:
  assumes ok: "revocation_ok s ts" and k: "k < length ts" and t: "ts ! k = Revoke_load nodes j"
    and t': "(s, t) = revoke_step (Revoke_load nodes j) s"
  shows "revocation_ok s (ts[k := t])"
proof -
  let ?v = "nodes ! j"
  let ?new = "filter (\<lambda>c. \<not> gn_dropped (node s c)) (gn_children (node s ?v))"
  let ?all = "nodes @ ?new"
  have fine: "j < length nodes" "enclosed s ts (set nodes) (set (take j nodes))" "marked s ?v"
    using task_at(1) [OF ok k t] by simp_all
  have live: "v \<in> set nodes \<Longrightarrow> alive s v" for v using task_at(2) [OF ok k t, of v] by simp
  have vlen: "?v < length (gr_nodes s)" using live [of ?v] fine(1) by (simp add: alive_def)
  have tree: "ancestry_ok s ts" using ok unfolding revocation_ok_def by blast
  have newlive: "alive s c" if "c \<in> set ?new" for c
  proof -
    have "c \<in> set (gn_children (node s ?v))" "\<not> gn_dropped (node s c)" using that by auto
    then show ?thesis using tree vlen unfolding ancestry_ok_def alive_def by blast
  qed
  have all: "enclosed s ts (set ?all) (set (take (Suc j) ?all))"
  proof -
    have take: "take (Suc j) ?all = take j nodes @ [?v]" using fine(1) by (simp add: take_Suc_conv_app_nth)
    have "c \<in> set ?all" if "alive s c" "up s c = Some ?v" for c
    proof -
      have "c < length (gr_nodes s)" "\<not> gn_dropped (node s c)" using that(1) by (simp_all add: alive_def)
      moreover from this(1) have "c \<in> set (gn_children (node s ?v))"
        using that tree unfolding ancestry_ok_def by blast
      ultimately show ?thesis by simp
    qed
    then show ?thesis using fine(2,3) vlen unfolding take enclosed_def by auto
  qed
  have t'': "t = (if j + 1 < length ?all then Revoke_mark ?all (j + 1) else Revoke_wait ?all 0)"
    using t' by (simp add: Let_def)
  show ?thesis
  proof (rule plain_ok [OF ok k])
    assume kp: "keeps s ts s (ts[k := t])"
    show "task_fine s (ts[k := t]) t"
    proof (cases "j + 1 < length ?all")
      case True
      then show ?thesis using t'' keeps_enclosed [OF all kp] by simp
    next
      case False
      then have "take (Suc j) ?all = ?all" by simp
      then have "enclosed s ts (set ?all) (set ?all)" using all by simp
      then have "enclosed s (ts[k := t]) (set ?all) (set ?all)" by (rule keeps_enclosed [OF _ kp])
      moreover have "0 < length ?all" using fine(1) by auto
      ultimately show ?thesis using False t'' by simp
    qed
  qed (use t t'' live newlive in \<open>auto split: if_splits\<close>)
qed

lemma wait_ok:
  assumes ok: "revocation_ok s ts" and k: "k < length ts" and t: "ts ! k = Revoke_wait nodes j"
    and idle: "gn_state (node s (nodes ! j)) AND ACTIVE_COUNT = 0"
  shows "revocation_ok s (ts[k := if j + 1 < length nodes then Revoke_wait nodes (j + 1) else Revoke_complete nodes 0])"
proof -
  let ?t = "if j + 1 < length nodes then Revoke_wait nodes (j + 1) else Revoke_complete nodes 0"
  have fine: "j < length nodes" "enclosed s ts (set nodes) (set nodes)" "\<forall>i < j. silent s (nodes ! i)"
    using task_at(1) [OF ok k t] by simp_all
  have live: "v \<in> set nodes \<Longrightarrow> alive s v" for v using task_at(2) [OF ok k t, of v] by simp
  have mem: "nodes ! j \<in> set nodes" using fine(1) by simp
  have "silent s (nodes ! j)"
  proof -
    obtain r where r: "gn_state (node s (nodes ! j)) = state_word r (count_in ts (nodes ! j))"
        "count_in ts (nodes ! j) < 2 ^ 63" "marked s (nodes ! j) \<longleftrightarrow> r"
        "silent s (nodes ! j) \<longleftrightarrow> r \<and> count_in ts (nodes ! j) = 0"
      using word_at [OF ok, of "nodes ! j"] live [OF mem] by (auto simp: alive_def)
    have "of_nat (count_in ts (nodes ! j)) = (0 :: u64)" using idle r state_word_count by simp
    moreover have "unat (of_nat (count_in ts (nodes ! j)) :: u64) = count_in ts (nodes ! j)"
      using r(2) by (simp add: unat_of_nat take_bit_nat_eq_self)
    ultimately have "count_in ts (nodes ! j) = 0" by simp
    moreover have r using r(3) fine(2) mem by (simp add: enclosed_def)
    ultimately show ?thesis using r(4) by simp
  qed
  then have upto: "\<forall>i < j + 1. silent s (nodes ! i)" using fine(3) by (simp add: less_Suc_eq)
  then have all: "\<forall>v \<in> set nodes. silent s v" if "\<not> j + 1 < length nodes"
    using that fine(1) by (auto simp: in_set_conv_nth)
  show ?thesis
  proof (rule plain_ok [OF ok k])
    assume kp: "keeps s ts s (ts[k := ?t])"
    show "task_fine s (ts[k := ?t]) ?t"
      using keeps_enclosed [OF fine(2) kp] upto all fine(1) by auto
  qed (use t live in \<open>auto split: if_splits\<close>)
qed

lemma enter_step_ok:
  assumes ok: "revocation_ok s ts" and k: "k < length ts" and step: "enter_step (ts ! k) s = (s', t')"
  shows "revocation_ok s' (ts[k := t'])"
proof -
  have idle: "revocation_ok s (ts[k := ts ! k])" using ok by simp
  have fin: "revocation_ok s (ts[k := Finished x])"
    if "counting (ts ! k) = None" "\<And>c. ts ! k \<noteq> Restricted c" for x
    by (rule plain_ok [OF ok k that(2)]) (simp_all add: that(1))
  show ?thesis
  proof (cases "ts ! k")
    case (Enter_check i event right notify pos)
    note at = task_at [OF ok k Enter_check]
    show ?thesis
    proof (cases "t' = Finished (Err TopicError_Revoked) \<or> (\<exists>e. t' = Finished (Err e))")
      case True
      then show ?thesis using fin step Enter_check by (auto split: if_splits option.splits result.splits)
    next
      case False
      then have e: "s' = s" "(\<exists>p. t' = Enter_check i event right notify p) \<or> t' = Enter_add \<lparr>og_node = i, og_notify = notify\<rparr>"
        using step Enter_check by (auto split: if_splits option.splits result.splits)
      show ?thesis unfolding e(1)
        by (rule plain_ok [OF ok k]) (use e(2) Enter_check at keeps_returned in auto)
    qed
  next
    case (Enter_add g)
    note at = task_at [OF ok k Enter_add]
    show ?thesis
    proof (cases "advance (gn_state (node s (og_node g)))")
      case None
      then show ?thesis using fin step Enter_add by (auto simp: Let_def)
    next
      case (Some w)
      show ?thesis
      proof (cases "og_notify g")
        case True
        then show ?thesis using enter_count_ok [OF ok k _ Some] step Enter_add Some by (auto simp: Let_def)
      next
        case False
        then have e: "s' = s" "t' = Enter_swap g (gn_state (node s (og_node g)))"
          using step Enter_add Some by (auto simp: Let_def)
        show ?thesis unfolding e
          by (rule plain_ok [OF ok k]) (use Enter_add at keeps_returned in auto)
      qed
    qed
  next
    case (Enter_swap g st)
    show ?thesis
    proof (cases "advance st")
      case None
      then show ?thesis using fin step Enter_swap by auto
    next
      case (Some w)
      then show ?thesis
        using fin step Enter_swap enter_count_ok [OF ok k, of g w] by (auto split: if_splits)
    qed
  next
    case (Enter_confirm g pos)
    note at = task_at [OF ok k Enter_confirm]
    have e: "s' = s" "t' = Enter_undo g \<or> (\<exists>p. t' = Enter_confirm g p) \<or> t' = Inside g"
      using step Enter_confirm by (auto split: if_splits option.splits)
    show ?thesis unfolding e(1)
      by (rule plain_ok [OF ok k]) (use e(2) Enter_confirm at keeps_returned in auto)
  next
    case (Enter_undo g)
    then show ?thesis using leave_ok [OF ok k, of g] step by auto
  next
    case (Inside g)
    then show ?thesis using leave_ok [OF ok k, of g] step by auto
  qed (use idle step in auto)
qed

lemma restrict_step_ok:
  assumes ok: "revocation_ok s ts" and k: "k < length ts" and step: "restrict_step (ts ! k) s = (s', t')"
  shows "revocation_ok s' (ts[k := t'])"
proof -
  have idle: "revocation_ok s (ts[k := ts ! k])" using ok by simp
  have fin: "revocation_ok s (ts[k := Finished x])"
    if "counting (ts ! k) = None" "\<And>c. ts ! k \<noteq> Restricted c" for x
    by (rule plain_ok [OF ok k that(2)]) (simp_all add: that(1))
  show ?thesis
  proof (cases "ts ! k")
    case (Restrict_check i child pos)
    note at = task_at [OF ok k Restrict_check]
    show ?thesis
    proof (cases "t' = Finished (Err TopicError_Revoked)")
      case True
      then show ?thesis using fin step Restrict_check by (auto split: if_splits option.splits)
    next
      case False
      then have e: "s' = s" "(\<exists>p. t' = Restrict_check i child p) \<or> t' = Restrict_register i child"
        using step Restrict_check by (auto split: if_splits option.splits)
      show ?thesis unfolding e(1)
        by (rule plain_ok [OF ok k]) (use e(2) Restrict_check at keeps_returned in auto)
    qed
  next
    case (Restrict_register i child)
    then show ?thesis using register_ok [OF ok k] step by auto
  next
    case (Restrict_attach c pos)
    show ?thesis
    proof (cases "marked s pos")
      case True
      then show ?thesis using fin step Restrict_attach by auto
    next
      case False
      then show ?thesis using attach_ok [OF ok k Restrict_attach False refl] step Restrict_attach by auto
    qed
  qed (use idle step in auto)
qed

lemma revoke_step_ok:
  assumes ok: "revocation_ok s ts" and k: "k < length ts" and step: "revoke_step (ts ! k) s = (s', t')"
  shows "revocation_ok s' (ts[k := t'])"
proof -
  have idle: "revocation_ok s (ts[k := ts ! k])" using ok by simp
  show ?thesis
  proof (cases "ts ! k")
    case (Revoke_start i)
    note at = task_at [OF ok k Revoke_start]
    have i: "i < length (gr_nodes s)" using at(2) [of i] by (simp add: alive_def)
    have q: "gn_revocation_complete (node s i) \<Longrightarrow> quiet_tree s ts i"
      using ok i unfolding revocation_ok_def by blast
    have e: "s' = s" "t' = (if gn_revocation_complete (node s i) then Revoked i else Revoke_swap i)"
      using step Revoke_start by auto
    show ?thesis unfolding e(1)
      by (rule plain_ok [OF ok k]) (use e(2) Revoke_start at q keeps_quiet in \<open>auto split: if_splits\<close>)
  next
    case (Revoke_swap i)
    have "revocation_ok s (ts[k := Finished x])" for x
      by (rule plain_ok [OF ok k]) (simp_all add: Revoke_swap)
    then show ?thesis using swap_ok [OF ok k Revoke_swap] step Revoke_swap by (auto split: if_splits)
  next
    case (Revoke_mark nodes j)
    then show ?thesis using mark_ok [OF ok k] step by auto
  next
    case (Revoke_load nodes j)
    then show ?thesis using load_ok [OF ok k Revoke_load, of t'] step by (auto simp: Let_def)
  next
    case (Revoke_wait nodes j)
    then show ?thesis using wait_ok [OF ok k Revoke_wait] step idle by (auto split: if_splits)
  next
    case (Revoke_complete nodes j)
    then show ?thesis using complete_ok [OF ok k Revoke_complete] step by auto
  next
    case (Revoke_end i)
    then show ?thesis using revoke_end_ok [OF ok k Revoke_end] step by auto
  qed (use idle step in auto)
qed

lemma task_step_ok:
  assumes "revocation_ok s ts" and "k < length ts" and "task_step (ts ! k) s = (s', t')"
  shows "revocation_ok s' (ts[k := t'])"
  using assms(1,3) enter_step_ok [OF assms(1,2)] restrict_step_ok [OF assms(1,2)] revoke_step_ok [OF assms(1,2)]
  by (cases "ts ! k") auto

text \<open>Starting, cancelling and dropping.\<close>

lemma spawn_ok:
  assumes ok: "revocation_ok s ts" and may: "may_start s ts t"
  shows "revocation_ok s (ts @ [t])"
proof -
  have t: "counting t = None" "\<And>c. t \<noteq> Restricted c" "\<And>c pos. t \<noteq> Restrict_attach c pos"
    "\<And>i. i \<in> set (touches t) \<Longrightarrow> alive s i" "task_fine s ts t"
    using may by (cases t; simp)+
  have ret: "returned (ts @ [t]) i \<longleftrightarrow> returned ts i" for i using t(2) by (auto simp: returned_def)
  have kp: "keeps s ts s (ts @ [t])" using t(2,3) ret by (auto simp: keeps_def passed_def)
  have "task_fine s (ts @ [t]) u \<and> (\<forall>i \<in> set (touches u). alive s i)" if "u \<in> set (ts @ [t])" for u
  proof -
    have "task_fine s ts u" "\<And>i. i \<in> set (touches u) \<Longrightarrow> alive s i"
      using that t(4,5) ok unfolding revocation_ok_def by auto
    then show ?thesis using keeps_task_fine [OF _ kp] by (auto simp: alive_def)
  qed
  moreover have "ancestry_ok s (ts @ [t])"
    by (rule ancestry_ok_cong [where s = s and ts = ts]) (use ok ret in \<open>auto simp: revocation_ok_def\<close>)
  moreover have "words_ok s (ts @ [t])" using ok t(1) by (simp add: revocation_ok_def words_ok_def count_in_def)
  ultimately show ?thesis using ok keeps_quiet [OF _ kp] unfolding revocation_ok_def by blast
qed

lemma cancel_ok:
  assumes ok: "revocation_ok s ts" and k: "k < length ts" and t: "ts ! k = Revoke_wait nodes j"
  shows "revocation_ok (update_node (hd nodes) (\<lambda>n. n\<lparr>gn_revoker := False\<rparr>) s) (ts[k := Cancelled])"
proof -
  have "j < length nodes" using task_at(1) [OF ok k t] by simp
  then have "hd nodes \<in> set nodes" by (auto intro: hd_in_set)
  then have "alive s (hd nodes)" using task_at(2) [OF ok k t] by simp
  then show ?thesis by (intro flag_ok [OF ok k refl, where b = False]) (simp_all add: t)
qed

lemma drop_ok:
  assumes ok: "revocation_ok s ts" and i: "alive s i"
    and free: "\<And>t. t \<in> set ts \<Longrightarrow> i \<notin> set (touches t)"
    and leaf: "\<And>d. d < length (gr_nodes s) \<Longrightarrow> up s d = Some i \<Longrightarrow> gn_dropped (node s d)"
  shows "revocation_ok (update_node i (\<lambda>n. n\<lparr>gn_dropped := True\<rparr>) s) ts"
proof -
  let ?s = "update_node i (\<lambda>n. n\<lparr>gn_dropped := True\<rparr>) s"
  have len: "i < length (gr_nodes s)" using i by (simp add: alive_def)
  have nd: "node ?s j = (if j = i then (node s i)\<lparr>gn_dropped := True\<rparr> else node s j)" for j
    using len by (simp add: node_update_node)
  have up: "up ?s = up s" by (rule ext) (simp add: up_def nd)
  have live: "alive ?s j \<longleftrightarrow> alive s j \<and> j \<noteq> i" for j by (simp add: alive_def nd)
  have kp: "keeps s ts ?s ts" by (auto simp: keeps_def up live marked_def silent_def nd)
  have tree: "ancestry_ok s ts" using ok unfolding revocation_ok_def by blast
  have "ancestry_ok ?s ts"
    unfolding ancestry_ok_def
  proof (intro conjI allI impI ballI)
    have "length (gr_nodes ?s) \<noteq> 0" using len unfolding length_update_node by (rule gr_implies_not0)
    then show "gr_nodes ?s \<noteq> []" by (metis list.size(3))
    show "up ?s 0 = None" using tree by (simp add: ancestry_ok_def up)
    fix d p assume d: "d < length (gr_nodes ?s)" "up ?s d = Some p"
    then have d': "d < length (gr_nodes s)" "up s d = Some p" by (simp_all add: up)
    then have o: "p < d" "returned ts p" "alive s d \<longrightarrow> alive s p \<and> d \<in> set (gn_children (node s p))"
      using tree unfolding ancestry_ok_def by blast+
    show "p < d" "returned ts p" using o by simp_all
    assume a: "alive ?s d"
    have "\<not> gn_dropped (node s d)" using a live [of d] by (simp add: alive_def)
    then have "p \<noteq> i" using leaf [OF d'(1)] d'(2) by blast
    then show "alive ?s p" using a o by (simp add: live)
    show "d \<in> set (gn_children (node ?s p))" using a o \<open>p \<noteq> i\<close> by (simp add: live nd)
  next
    fix p c assume "p < length (gr_nodes ?s)" "c \<in> set (gn_children (node ?s p))"
    then have "p < length (gr_nodes s)" "c \<in> set (gn_children (node s p))" by (auto simp: nd split: if_splits)
    then show "c < length (gr_nodes ?s)" using tree unfolding ancestry_ok_def length_update_node by blast
  qed
  moreover have "words_ok ?s ts" using ok by (simp add: revocation_ok_def words_ok_def nd)
  moreover have "task_fine ?s ts u \<and> (\<forall>j \<in> set (touches u). alive ?s j)" if "u \<in> set ts" for u
  proof -
    have u: "task_fine s ts u" "\<And>j. j \<in> set (touches u) \<Longrightarrow> alive s j" using ok that unfolding revocation_ok_def by blast+
    then show ?thesis using keeps_task_fine [OF u(1) kp] free [OF that] by (auto simp: live) (auto simp: alive_def)
  qed
  moreover have "quiet_tree ?s ts p" if "p < length (gr_nodes ?s)" "gn_revocation_complete (node ?s p)" for p
  proof -
    have "gn_revocation_complete (node s p)" using that(2) by (simp add: nd split: if_splits)
    then have "quiet_tree s ts p" using ok that(1) unfolding revocation_ok_def by simp
    then show ?thesis by (rule keeps_quiet [OF _ kp])
  qed
  ultimately show ?thesis unfolding revocation_ok_def by blast
qed

lemma rv_step_ok:
  assumes "revocation_ok (rv_store m) (rv_tasks m)"
  shows "revocation_ok (rv_store (rv_step m a)) (rv_tasks (rv_step m a))"
proof (cases a)
  case (Spawn t)
  then show ?thesis using assms spawn_ok by simp
next
  case (Run k)
  then show ?thesis using assms task_step_ok [OF assms, of k] by (auto split: prod.splits)
next
  case (Cancel k)
  then show ?thesis using assms cancel_ok [OF assms, of k] by (auto split: task.splits)
next
  case (Drop i)
  then show ?thesis
    using assms drop_ok [OF assms, of i] by (auto simp: list_all_iff simp del: task_step.simps)
qed

lemma reached_ok: "reached l m \<Longrightarrow> revocation_ok (rv_store m) (rv_tasks m)"
proof (induction rule: reached.induct)
  case reached_new
  have "gn_state (node_root l) = state_word False 0" by (simp add: node_root_def node_new_def state_word_def)
  then show ?case
    by (auto simp: rv_new_def machine_new_def revocation_ok_def ancestry_ok_def words_ok_def count_in_def up_def
        node_root_def node_new_def)
next
  case (reached_step m a)
  then show ?case by (simp add: rv_step_ok del: rv_step.simps)
qed

text \<open>A tree that is quiet below \<open>a\<close> reaches every handle below \<open>a\<close>.\<close>

lemma enclosed_descendants:
  assumes tree: "ancestry_ok s ts" and V: "enclosed s ts V V"
    and "descends s d a" and "alive s d" and "returned ts d" and "a \<in> V"
  shows "d \<in> V"
  using assms(3-6)
proof (induction rule: descends.induct)
  case (descends_up i r a)
  have up: "up s i = Some (ls_node r)" using descends_up.hyps(1) by (simp add: up_def)
  have i: "i < length (gr_nodes s)" using descends_up.prems(1) by (simp add: alive_def)
  then have "returned ts (ls_node r)" "alive s (ls_node r)"
    using tree up descends_up.prems(1) unfolding ancestry_ok_def by blast+
  then have "ls_node r \<in> V" using descends_up.IH descends_up.prems(3) by blast
  moreover have "passed ts i (ls_node r)" using descends_up.prems(2) by (simp add: passed_def)
  ultimately show ?case using V up descends_up.prems(1) unfolding enclosed_def by blast
qed

lemma member_update:
  assumes "t \<in> set ts" and "ts ! k = t \<Longrightarrow> t' = t"
  shows "t \<in> set (ts[k := t'])"
proof -
  have "\<exists>j < length ts. ts ! j = t" using assms(1) by (simp add: in_set_conv_nth)
  then obtain j where j: "j < length ts" "ts ! j = t" by blast
  then have "ts[k := t'] ! j = t" using assms(2) by (cases "j = k") auto
  then show ?thesis using j(1) by (metis length_list_update nth_mem)
qed

lemma revoked_stays: "Revoked a \<in> set (rv_tasks m) \<Longrightarrow> Revoked a \<in> set (rv_tasks (rv_step m x))"
  by (cases x) (auto split: prod.splits task.splits intro!: member_update)

lemma revoked_stays_run:
  "Revoked a \<in> set (rv_tasks m) \<Longrightarrow> Revoked a \<in> set (rv_tasks (fold (\<lambda>x m. rv_step m x) later m))"
  by (induction later arbitrary: m) (simp_all add: revoked_stays del: rv_step.simps)

text \<open>C3: Revocation cuts off: once a call of \<open>revoke\<close> on a grant has returned successfully, no
  operation runs under that grant or any grant derived from it, and none ever will, however
  admissions, derivations, other revocations and drops interleave with the marking and the
  waiting, down to single atomic accesses.\<close>

theorem revocation_cutoff:
  assumes "reached l m" and "Revoked a \<in> set (rv_tasks m)"
    and "Inside g \<in> set (rv_tasks (fold (\<lambda>x m. rv_step m x) later m))"
  shows "\<not> descends (rv_store (fold (\<lambda>x m. rv_step m x) later m)) (og_node g) a"
proof
  let ?m = "fold (\<lambda>x m. rv_step m x) later m"
  let ?s = "rv_store ?m" and ?ts = "rv_tasks ?m"
  assume d: "descends ?s (og_node g) a"
  have ok: "revocation_ok ?s ?ts" by (rule reached_ok [OF reached_run [OF assms(1)]])
  have "Revoked a \<in> set ?ts" by (rule revoked_stays_run [OF assms(2)])
  then have "quiet_tree ?s ?ts a" using ok unfolding revocation_ok_def by fastforce
  then obtain V where V: "a \<in> V" "enclosed ?s ?ts V V" "\<forall>v \<in> V. silent ?s v" by (auto simp: quiet_tree_def)
  have "task_fine ?s ?ts (Inside g)" "\<forall>i \<in> set (touches (Inside g)). alive ?s i"
    using ok assms(3) unfolding revocation_ok_def by blast+
  then have g: "returned ?ts (og_node g)" "alive ?s (og_node g)" by simp_all
  have "ancestry_ok ?s ?ts" using ok unfolding revocation_ok_def by blast
  then have "silent ?s (og_node g)" using enclosed_descendants [OF _ V(2) d g(2,1) V(1)] V(3) by blast
  moreover have "og_node g < length (gr_nodes ?s)" using g(2) by (simp add: alive_def)
  ultimately have none: "count_in ?ts (og_node g) = 0" using word_at [OF ok] by blast
  have "Inside g \<in> set (filter (\<lambda>t. counting t = Some (og_node g)) ?ts)" using assms(3) by simp
  then show False using none unfolding count_in_def by (metis length_0_conv empty_iff empty_set)
qed

text \<open>A grant with one child, an operation inside the root, and an admission to the child that
  races with the revocation of the child.\<close>

definition example_node :: grant_node where
  "example_node = node_new limits_ZERO limits_ZERO None
     (Some \<lparr>ls_node = 0, ls_usage = limits_ZERO, ls_event = None\<rparr>) []"

definition example_race :: "rv_action list" where
  "example_race =
     [Spawn (Restrict_check 0 example_node 0), Run 0, Run 0, Run 0,
      Spawn (Enter_check 0 (EventId 1) Rights_PUBLISH True 0), Run 1, Run 1, Run 1,
      Spawn (Enter_check 1 (EventId 1) Rights_PUBLISH True 1), Run 2, Run 2, Run 2,
      Spawn (Revoke_start 1), Run 3, Run 3, Run 3, Run 2, Run 3, Run 3, Run 2, Run 3, Run 3, Run 3]"

lemma example_race_run:
  "Revoked 1 \<in> set (rv_tasks (fold (\<lambda>x m. rv_step m x) example_race (rv_new limits_ZERO)))
   \<and> Inside \<lparr>og_node = 0, og_notify = True\<rparr>
       \<in> set (rv_tasks (fold (\<lambda>x m. rv_step m x) example_race (rv_new limits_ZERO)))"
  by (simp add: example_race_def rv_new_def machine_new_def example_node_def node_root_def node_new_def alive_def
      returned_def fresh_child_def marked_def up_def permitted_def publish_child_def update_node_def set_word_def
      advance_def REVOKED_def ACTIVE_COUNT_def revoke_mark_def node_notify_def emit_def drop_operation_def Let_def)

theorem revocation_cutoff_witness:
  "\<not> descends (rv_store (fold (\<lambda>x m. rv_step m x) example_race (rv_new limits_ZERO))) 0 1"
proof -
  let ?m = "fold (\<lambda>x m. rv_step m x) example_race (rv_new limits_ZERO)"
  have "reached limits_ZERO ?m" by (rule reached_run [OF reached_new])
  from revocation_cutoff [OF this, of 1 "\<lparr>og_node = 0, og_notify = True\<rparr>" "[]"] example_race_run
  show ?thesis by simp
qed

end
