(* ===== verification/Hiway_Tree_Walk.thy ===== *)
theory Hiway_Tree_Walk
  imports Hiway_Grant_Properties Hiway_Dynamic_Fabric
begin

text \<open>
  The loop of \<open>maintain_tree\<close> (\<open>hiway/src/grant.rs\<close>), which grows the list it walks: it ends,
  and it has then visited the live descendants of its grant, each once. The reason is how
  \<open>restrict\<close> keeps the lists of children: without duplicates, holding every live child of the
  node and only its children.
\<close>

subsection \<open>The lists of children\<close>

definition family_ok :: "grants \<Rightarrow> bool" where
  "family_ok s \<longleftrightarrow>
     (\<forall>p < length (gr_nodes s). distinct (gn_children (node s p))
        \<and> (\<forall>c \<in> set (gn_children (node s p)). c < length (gr_nodes s)
             \<and> (\<exists>r. gn_parent_reservation (node s c) = Some r \<and> ls_node r = p)))
     \<and> (\<forall>d r. handle s d \<longrightarrow> gn_parent_reservation (node s d) = Some r \<longrightarrow> d \<in> set (gn_children (node s (ls_node r))))"

text \<open>Steps that change neither parents nor children, and revive no node.\<close>

definition kin :: "grants \<Rightarrow> grants \<Rightarrow> bool" where
  "kin s t \<longleftrightarrow> length (gr_nodes t) = length (gr_nodes s)
     \<and> (\<forall>j. gn_children (node t j) = gn_children (node s j)
          \<and> gn_parent_reservation (node t j) = gn_parent_reservation (node s j)
          \<and> (handle t j \<longrightarrow> handle s j))"

lemma kin_refl [simp]: "kin s s"
  by (simp add: kin_def)

lemma kin_trans: "kin s t \<Longrightarrow> kin t u \<Longrightarrow> kin s u"
  by (simp add: kin_def)

lemma kin_emit [simp]: "kin s (emit ns t) = kin s t"
  by (simp add: kin_def)

lemma kin_framed: "framed s t \<Longrightarrow> kin s t"
  by (simp add: kin_def framedD framed_handle)

lemma kin_update:
  assumes "\<And>n. gn_children (f n) = gn_children n"
    and "\<And>n. gn_parent_reservation (f n) = gn_parent_reservation n" and "\<And>n. gn_dropped n \<Longrightarrow> gn_dropped (f n)"
  shows "kin s (update_node i f s)"
  using assms by (auto simp: kin_def node_update_node handle_def)

lemma kin_family: "kin s t \<Longrightarrow> family_ok s \<Longrightarrow> family_ok t"
  unfolding kin_def family_ok_def by metis

lemma restrict_family:
  assumes ok: "grants_ok s M" and i: "handle s i" and fam: "family_ok s"
    and run: "grant_restrict i ps l s = (t, r)"
  shows "family_ok t"
proof -
  note hr = handle_range [OF i]
  from ok conjunct1 [OF hr] conjunct2 [OF hr] run show ?thesis
  proof (cases rule: grant_restrict_cases)
    case (refused e)
    then show ?thesis using kin_family [OF kin_framed fam] by blast
  next
    case (derived lease events generic s1 cs)
    let ?c = "child_of l generic ps lease events" and ?n = "length (gr_nodes s1)"
    have fam1: "family_ok s1" by (rule kin_family [OF kin_framed [OF derived(2)] fam])
    have i1: "i < ?n" using hr framedD(1) [OF derived(2)] by simp
    have live: "\<not> gn_dropped ?c" and up: "gn_parent_reservation ?c = Some lease" and none: "gn_children ?c = []"
      by (simp_all add: child_of_def node_new_def)
    have len: "length (gr_nodes t) = ?n + 1" by (simp add: derived(3))
    have old: "j < ?n \<Longrightarrow> gn_parent_reservation (node t j) = gn_parent_reservation (node s1 j)
        \<and> (handle t j \<longleftrightarrow> handle s1 j)
        \<and> gn_children (node t j) = (if j = i then cs else gn_children (node s1 j))" for j
      using i1 by (auto simp: derived(3) node_update_node node_add_node handle_def)
    have new: "node t ?n = ?c" using i1 by (simp add: derived(3) node_update_node node_add_node)
    have range: "c < ?n" if "p < ?n" "c \<in> set (gn_children (node s1 p))" for p c
      using fam1 that unfolding family_ok_def by blast
    have cs: "cs = filter (\<lambda>c'. \<not> gn_dropped (node (add_node ?c s1) c')) (gn_children (node s1 i)) @ [?n]"
      by (rule derived(9))
    have kids: "distinct (gn_children (node t p)) \<and> (\<forall>c \<in> set (gn_children (node t p)). c < length (gr_nodes t)
        \<and> (\<exists>r. gn_parent_reservation (node t c) = Some r \<and> ls_node r = p))" if "p < length (gr_nodes t)" for p
    proof (cases "p = ?n")
      case True
      then show ?thesis using new none by simp
    next
      case False
      then have p: "p < ?n" using that len by simp
      have o: "distinct (gn_children (node s1 p))" "\<And>c. c \<in> set (gn_children (node s1 p)) \<Longrightarrow>
          \<exists>r. gn_parent_reservation (node s1 c) = Some r \<and> ls_node r = p"
        using fam1 p unfolding family_ok_def by blast+
      have sub: "c \<in> set (gn_children (node s1 p)) \<or> p = i \<and> c = ?n" if "c \<in> set (gn_children (node t p))" for c
        using that old [OF p] cs by (auto split: if_splits)
      have dist: "distinct (gn_children (node t p))"
        using old [OF p] o(1) cs range [OF p] by (auto split: if_splits)
      show ?thesis
      proof (intro conjI ballI dist)
        fix c assume c: "c \<in> set (gn_children (node t p))"
        from sub [OF c] show "c < length (gr_nodes t)" using range [OF p] len i1 by fastforce
        from sub [OF c] show "\<exists>r. gn_parent_reservation (node t c) = Some r \<and> ls_node r = p"
        proof
          assume "c \<in> set (gn_children (node s1 p))"
          then show ?thesis using o(2) range [OF p] old by metis
        next
          assume "p = i \<and> c = ?n"
          then show ?thesis using new up derived(8) by simp
        qed
      qed
    qed
    have up_ok: "d \<in> set (gn_children (node t (ls_node r)))"
      if d: "handle t d" "gn_parent_reservation (node t d) = Some r" for d r
    proof (cases "d = ?n")
      case True
      then have "ls_node r = i" using d new up derived(8) by simp
      then show ?thesis using old [OF i1] cs True by simp
    next
      case False
      then have dn: "d < ?n" using d(1) len by (simp add: handle_def)
      then have h: "handle s1 d" "gn_parent_reservation (node s1 d) = Some r" using old d by simp_all
      then have mem: "d \<in> set (gn_children (node s1 (ls_node r)))" using fam1 unfolding family_ok_def by blast
      have tree: "tree_ok (essences s1)"
        using ok framed_essences [OF derived(2)] by (simp add: grants_ok_def)
      have "ls_node r < ?n" using tree_ok_parent [OF tree dn h(2)] dn by simp
      moreover have "\<not> gn_dropped (node (add_node ?c s1) d)" using h(1) dn by (simp add: handle_def node_add_node)
      ultimately show ?thesis using old mem cs by (cases "ls_node r = i") auto
    qed
    show ?thesis unfolding family_ok_def using kids up_ok by blast
  qed
qed

lemma family_step:
  assumes ok: "machine_ok m" and fam: "family_ok (gm_store m)"
  shows "family_ok (gm_store (fst (grant_step m c)))"
proof -
  let ?s = "gm_store m"
  have g: "grants_ok ?s (all_leases m)" and gu: "guards_ok ?s (gm_guards m)"
    using ok by (auto simp: machine_ok_def)
  have charge: "kin ?s (gm_store (fst (keep_lease (grant_charge i ev usage ?s) m)))"
    if h: "handle ?s i" "valid_pool (node ?s i) ev" for i ev usage
  proof -
    obtain t r where run: "grant_charge i ev usage ?s = (t, r)" by (cases "grant_charge i ev usage ?s")
    note hr = handle_range [OF h(1)]
    from g conjunct1 [OF hr] conjunct2 [OF hr] h(2) run show ?thesis
      by (cases rule: grant_charge_cases) (simp_all add: run kin_framed)
  qed
  have word: "kin ?s (update_node i (\<lambda>n. n\<lparr>gn_state := w\<rparr>) ?s)" for i w
    by (rule kin_update) simp_all
  have "kin ?s (gm_store (fst (grant_step m c)))" if "\<And>i ps l. c \<noteq> Restrict i ps l"
  proof (cases c)
    case (Charge i usage)
    then show ?thesis using charge [of i None] by (simp add: try_charge_def)
  next
    case (Charge_stream i event usage)
    show ?thesis
    proof (cases "event_index (node ?s i) event")
      case (Ok k)
      then show ?thesis using Charge_stream charge [OF _ event_index_valid [OF Ok]] by (simp add: try_charge_stream_def)
    qed (use Charge_stream in \<open>simp add: try_charge_stream_def\<close>)
  next
    case (Release k)
    then show ?thesis using kin_framed [OF framed_drop_lease] by simp
  next
    case (Enter i event right notify)
    show ?thesis
    proof (cases "handle ?s i")
      case True
      obtain t r where run: "enter_mode i event right notify ?s = (t, r)" by (cases "enter_mode i event right notify ?s")
      from gu True run show ?thesis
        by (cases rule: enter_mode_cases) (simp_all add: Enter True run word)
    qed (use Enter in simp)
  next
    case (Leave k)
    then show ?thesis using drop_operation_exec [of "gm_guards m ! k" ?s] word by auto
  next
    case (Register_stream i event notify)
    obtain t r where run: "register_stream i event notify ?s = (t, r)" by (cases "register_stream i event notify ?s")
    have "kin ?s (update_node i (\<lambda>n. n\<lparr>gn_streams := w\<rparr>) ?s)" for w by (rule kin_update) simp_all
    then have "kin ?s t" using register_stream_exec [OF run] by auto
    then show ?thesis using Register_stream run by simp
  next
    case (Mark i)
    then show ?thesis using revoke_mark_exec [of i ?s] word by auto
  next
    case (Maintain i)
    then show ?thesis by (simp add: maintain_operations_def)
  next
    case (Drop_handle i)
    let ?t = "update_node i (\<lambda>n. n\<lparr>gn_dropped := True\<rparr>) ?s"
    have "kin ?s ?t" by (rule kin_update) simp_all
    moreover have "framed ?t (drop_node i ?s)" by (simp add: drop_node_def)
    ultimately have "kin ?s (drop_node i ?s)" using kin_trans kin_framed by blast
    then show ?thesis using Drop_handle by simp
  qed (use that in simp)
  then show ?thesis
    using kin_family fam restrict_family [OF g _ fam] by (cases c) (auto split: prod.splits)
qed

lemma reachable_family: "grant_reachable l cs m outs \<Longrightarrow> machine_ok m \<and> family_ok (gm_store m)"
proof -
  assume r: "grant_reachable l cs m outs"
  have new: "family_ok (gm_store (machine_new l))"
    by (simp add: family_ok_def machine_new_def node_root_def node_new_def handle_def)
  show ?thesis
    using run_calls_invariant [where good = "\<lambda>m. machine_ok m \<and> family_ok (gm_store m)" and step = grant_step
        and s = "machine_new l" and cs = cs] machine_ok_step family_step machine_ok_new new r
    by (simp add: grant_reachable_def)
qed

subsection \<open>The walk\<close>

text \<open>The list a walk ends with, by itself. The walk notifies its members in order.\<close>

fun visits :: "nat \<Rightarrow> grants \<Rightarrow> nat list \<Rightarrow> nat \<Rightarrow> nat list" where
  "visits 0 s nodes index = nodes"
| "visits (Suc fuel) s nodes index =
     (if index < length nodes
      then visits fuel s (nodes @ filter (\<lambda>c. \<not> gn_dropped (node s c)) (gn_children (node s (nodes ! index))))
             (index + 1)
      else nodes)"

lemma visits_emit [simp]: "visits fuel (emit ns s) nodes index = visits fuel s nodes index"
  by (induction fuel arbitrary: nodes index) simp_all

lemma visits_extends: "\<exists>ys. visits fuel s nodes index = nodes @ ys"
proof (induction fuel arbitrary: nodes index)
  case (Suc fuel)
  show ?case
    using Suc.IH [of "nodes @ filter (\<lambda>c. \<not> gn_dropped (node s c)) (gn_children (node s (nodes ! index)))" "index + 1"]
    by auto
qed simp

lemma maintain_walk_visits:
  "maintain_walk fuel s nodes index =
     emit (map Changed (take fuel (drop index (visits fuel s nodes index)))) s"
proof (induction fuel arbitrary: s nodes index)
  case 0
  then show ?case by (simp add: emit_def)
next
  case (Suc fuel)
  show ?case
  proof (cases "index < length nodes")
    case False
    then show ?thesis by (simp add: emit_def)
  next
    case True
    let ?nodes = "nodes @ filter (\<lambda>c. \<not> gn_dropped (node s c)) (gn_children (node s (nodes ! index)))"
    let ?all = "visits fuel s ?nodes (index + 1)"
    obtain ys where "?all = ?nodes @ ys" using visits_extends by blast
    then have at: "drop index ?all = nodes ! index # drop (index + 1) ?all"
      using True by (metis Cons_nth_drop_Suc Suc_eq_plus1 length_append nth_append trans_less_add1)
    have "maintain_walk (Suc fuel) s nodes index =
        emit (map Changed (take fuel (drop (index + 1) ?all))) (emit [Changed (nodes ! index)] s)"
      using True Suc.IH [of "emit [Changed (nodes ! index)] s"] by (simp add: Let_def)
    then show ?thesis using True at by (simp add: emit_twice)
  qed
qed

text \<open>What holds of the list and the index at every turn of the loop.\<close>

definition walking :: "grants \<Rightarrow> nat \<Rightarrow> nat list \<Rightarrow> nat \<Rightarrow> bool" where
  "walking s i nodes index \<longleftrightarrow>
     index \<le> length nodes \<and> distinct nodes \<and> i \<in> set nodes
     \<and> (\<forall>d \<in> set nodes. handle s d \<and> descends s d i
          \<and> (d = i \<or> (\<exists>r. gn_parent_reservation (node s d) = Some r \<and> ls_node r \<in> set (take index nodes))))
     \<and> (\<forall>v \<in> set (take index nodes). \<forall>c r. handle s c \<longrightarrow> gn_parent_reservation (node s c) = Some r
          \<longrightarrow> ls_node r = v \<longrightarrow> c \<in> set nodes)"

lemma walking_bound:
  assumes "walking s i nodes index"
  shows "length nodes \<le> length (gr_nodes s)"
proof -
  have "set nodes \<subseteq> {..< length (gr_nodes s)}" using assms by (auto simp: walking_def handle_def)
  then have "card (set nodes) \<le> length (gr_nodes s)" using card_mono [of "{..< length (gr_nodes s)}"] by simp
  then show ?thesis using assms by (simp add: walking_def distinct_card)
qed

lemma walking_step:
  assumes w: "walking s i nodes index" and more: "index < length nodes"
    and fam: "family_ok s" and tree: "tree_ok (essences s)"
  shows "walking s i (nodes @ filter (\<lambda>c. \<not> gn_dropped (node s c)) (gn_children (node s (nodes ! index)))) (index + 1)"
proof -
  let ?v = "nodes ! index"
  let ?new = "filter (\<lambda>c. \<not> gn_dropped (node s c)) (gn_children (node s ?v))"
  have dist: "distinct nodes" and closed: "v \<in> set (take index nodes) \<Longrightarrow> handle s c
      \<Longrightarrow> gn_parent_reservation (node s c) = Some r \<Longrightarrow> ls_node r = v \<Longrightarrow> c \<in> set nodes" for v c r
    using w by (auto simp: walking_def)
  have each: "d \<in> set nodes \<Longrightarrow> handle s d \<and> descends s d i
      \<and> (d = i \<or> (\<exists>r. gn_parent_reservation (node s d) = Some r \<and> ls_node r \<in> set (take index nodes)))" for d
    using w unfolding walking_def by blast
  have take: "set (take (index + 1) (nodes @ ?new)) = insert ?v (set (take index nodes))"
    using more by (simp add: take_Suc_conv_app_nth)
  have vin: "?v \<in> set nodes" using more by simp
  note v = each [OF vin]
  have vlen: "?v < length (gr_nodes s)" using v by (simp add: handle_def)
  have kids: "handle s c \<and> (\<exists>r. gn_parent_reservation (node s c) = Some r \<and> ls_node r = ?v)" if "c \<in> set ?new" for c
  proof -
    have "c \<in> set (gn_children (node s ?v))" "\<not> gn_dropped (node s c)" using that by auto
    then show ?thesis using fam vlen unfolding family_ok_def handle_def by blast
  qed
  have fresh: "c \<notin> set nodes" if "c \<in> set ?new" for c
  proof
    assume c: "c \<in> set nodes"
    note kid = kids [OF that]
    obtain r where r: "gn_parent_reservation (node s c) = Some r" "ls_node r = ?v" using kid by blast
    have "?v \<notin> set (take index nodes)"
      using dist more by (auto simp: in_set_conv_nth distinct_conv_nth)
    then have "c = i" using each [OF c] r by auto
    moreover have "?v < c" using tree_ok_parent [OF tree _ r(1)] r(2) kid by (simp add: handle_def)
    moreover have "i \<le> ?v" using v descends_range [OF _ tree vlen] by blast
    ultimately show False by simp
  qed
  show ?thesis
    unfolding walking_def
  proof (intro conjI ballI allI impI)
    show "index + 1 \<le> length (nodes @ ?new)" using more by simp
    show "distinct (nodes @ ?new)" using dist fresh fam vlen by (auto simp: family_ok_def)
    show "i \<in> set (nodes @ ?new)" using w by (simp add: walking_def)
    fix d assume "d \<in> set (nodes @ ?new)"
    then consider "d \<in> set nodes" | "d \<in> set ?new" by auto
    then have "handle s d \<and> descends s d i
      \<and> (d = i \<or> (\<exists>r. gn_parent_reservation (node s d) = Some r \<and> ls_node r \<in> set (take (index + 1) (nodes @ ?new))))"
    proof cases
      case 1
      then show ?thesis using each [OF 1] unfolding take by auto
    next
      case 2
      obtain r where r: "gn_parent_reservation (node s d) = Some r" "ls_node r = ?v" using kids [OF 2] by blast
      have "descends s d i" using descends_up [OF r(1)] r(2) v by simp
      then show ?thesis using kids [OF 2] r unfolding take by auto
    qed
    then show "handle s d" "descends s d i"
      "d = i \<or> (\<exists>r. gn_parent_reservation (node s d) = Some r \<and> ls_node r \<in> set (take (index + 1) (nodes @ ?new)))"
      by blast+
  next
    fix v c r
    assume a: "v \<in> set (take (index + 1) (nodes @ ?new))" "handle s c"
      "gn_parent_reservation (node s c) = Some r" "ls_node r = v"
    show "c \<in> set (nodes @ ?new)"
    proof (cases "v = ?v")
      case True
      have "c \<in> set (gn_children (node s (ls_node r)))" using fam a(2,3) unfolding family_ok_def by blast
      then have "c \<in> set (gn_children (node s ?v))" using a(4) True by simp
      then show ?thesis using a(2) by (simp add: handle_def)
    next
      case False
      then have "v \<in> set (take index nodes)" using a(1) unfolding take by simp
      then show ?thesis using closed a by simp
    qed
  qed
qed

text \<open>The measure is the number of nodes still to visit.\<close>

lemma visits_end:
  assumes "family_ok s" and "tree_ok (essences s)"
  shows "walking s i nodes index \<Longrightarrow> length (gr_nodes s) \<le> fuel + index \<Longrightarrow>
    visits (fuel + k) s nodes index = visits fuel s nodes index
    \<and> walking s i (visits fuel s nodes index) (length (visits fuel s nodes index))"
proof (induction fuel arbitrary: nodes index)
  case 0
  then have "index = length nodes" using walking_bound [OF 0(1)] by (simp add: walking_def)
  then show ?case using 0(1) by (cases k) simp_all
next
  case (Suc fuel)
  show ?case
  proof (cases "index < length nodes")
    case True
    then show ?thesis using Suc.IH [OF walking_step [OF Suc.prems(1) True assms]] Suc.prems(2) by simp
  next
    case False
    then have "index = length nodes" using Suc.prems(1) by (simp add: walking_def)
    then show ?thesis using Suc.prems(1) by simp
  qed
qed

text \<open>C13: Maintenance walks the whole tree and stops: from any grant of a reachable tree,
  \<open>maintain_tree\<close>, whose list grows while it is walked, notifies exactly the live grants derived
  from its own, itself included, each of them once, and changes nothing else. Its loop has ended by
  then: more fuel than the number of nodes changes nothing.\<close>

theorem maintain_tree_complete:
  assumes "grant_reachable l cs m outs" and "handle (gm_store m) i"
  shows "(let s = gm_store m in
     (\<exists>visited. maintain_tree i s = s\<lparr>gr_notices := gr_notices s @ map Changed visited\<rparr>
        \<and> distinct visited \<and> set visited = {d. handle s d \<and> descends s d i})
     \<and> maintain_walk (length (gr_nodes s) + k) s [i] 0 = maintain_tree i s)"
proof -
  let ?s = "gm_store m"
  let ?n = "length (gr_nodes ?s)"
  let ?w = "visits ?n ?s [i] 0"
  have ok: "machine_ok m" and fam: "family_ok ?s" using reachable_family [OF assms(1)] by blast+
  have start: "walking ?s i [i] 0" using assms(2) descends_self by (simp add: walking_def)
  have "?n \<le> ?n + 0" by simp
  note ends = visits_end [OF fam machine_trees [OF ok] start this, of k]
  have w: "walking ?s i ?w (length ?w)" and same: "visits (?n + k) ?s [i] 0 = ?w"
    using ends by blast+
  have all: "d \<in> set ?w" if "descends ?s d a" "handle ?s d" "a = i" for d a
    using that
  proof (induction rule: descends.induct)
    case (descends_self a)
    then show ?case using w unfolding walking_def by blast
  next
    case (descends_up d r a)
    have "handle ?s (ls_node r)"
      using machine_rooted [OF ok] descends_up.hyps(1) descends_up.prems(1) unfolding rooted_def by blast
    then have "ls_node r \<in> set (take (length ?w) ?w)" using descends_up.IH descends_up.prems(2) by simp
    then show ?case using w descends_up.hyps(1) descends_up.prems(1) unfolding walking_def by blast
  qed
  have "handle ?s d \<and> descends ?s d i" if "d \<in> set ?w" for d
    using w that unfolding walking_def by blast
  then have set_w: "set ?w = {d. handle ?s d \<and> descends ?s d i}" using all by blast
  have dist: "distinct ?w" using w unfolding walking_def by blast
  have "take (?n + j) (drop 0 ?w) = ?w" for j using walking_bound [OF w] by simp
  then have walk: "maintain_walk (?n + j) ?s [i] 0 = emit (map Changed ?w) ?s" if "visits (?n + j) ?s [i] 0 = ?w" for j
    using that by (simp only: maintain_walk_visits)
  have "maintain_tree i ?s = emit (map Changed ?w) ?s"
    using walk [of 0] by (simp add: maintain_tree_def)
  then have "maintain_tree i ?s = ?s\<lparr>gr_notices := gr_notices ?s @ map Changed ?w\<rparr>"
    and "maintain_walk (?n + k) ?s [i] 0 = maintain_tree i ?s"
    using walk [OF same] by (simp_all add: emit_def)
  then show ?thesis using dist set_w unfolding Let_def by blast
qed

theorem maintain_tree_complete_witness:
  "{d. handle (gm_store example_machine) d \<and> descends (gm_store example_machine) d 0} = {0, 1}"
proof -
  let ?s = "gm_store example_machine"
  have run: "maintain_tree 0 ?s = ?s\<lparr>gr_notices := gr_notices ?s @ [Changed 0, Changed 1]\<rparr>"
    by (simp add: maintain_tree_def example_machine_def node_root_def node_new_def emit_def numeral_2_eq_2 Let_def)
  obtain visited where v: "maintain_tree 0 ?s = ?s\<lparr>gr_notices := gr_notices ?s @ map Changed visited\<rparr>"
    and set_v: "set visited = {d. handle ?s d \<and> descends ?s d 0}"
    using maintain_tree_complete [OF example_machine_reachable example_handles(1), of 0] by (auto simp: Let_def)
  have "gr_notices (maintain_tree 0 ?s) = gr_notices ?s @ map Changed visited" using v by simp
  then have "map Changed visited = map Changed [0, 1]" using run by simp
  then have "visited = [0, 1]" by (cases visited; cases "tl visited") auto
  then show ?thesis using set_v by simp
qed

end
