(* ===== verification/Spec2Isabelle.thy ===== *)
theory Spec2Isabelle
  imports Hiway_Wire Hiway_Schema Hiway_Link Hiway_Static_Wakeup Hiway_Dynamic_Properties
    Hiway_Revocation Hiway_Tree_Walk
begin

text \<open>
  Verification of the hiway event fabric (crate \<open>hiway\<close>, sources under \<open>src/hiway/src\<close>).

  Hiway moves typed events between the components of a process and, over authorized links, between
  processes. An event type fixes an identity, a schema revision and a delivery mode
  (\<open>event.rs\<close>, \<open>metadata.rs\<close>, \<open>schema.rs\<close>). Inside a process a publication is retained in a bounded
  stream that every subscription reads at its own cursor: \<open>StaticStream\<close> (\<open>local.rs\<close>) keeps a fixed
  ring, \<open>DynamicFabric\<close> (\<open>alloc_local.rs\<close>) keeps streams in a registry and charges every entry,
  cursor and waiter to a grant. Grants (\<open>grant.rs\<close>) form a tree; each has authority over events and
  pools of allowances, backed by its parent's. Between processes one directed link carries one
  event: \<open>transport/protocol.rs\<close> decides what to read, write, admit and acknowledge,
  \<open>transport/operation.rs\<close> tracks who owns submitted storage, \<open>transport/accountability.rs\<close> keeps
  the history, \<open>transport/mod.rs\<close> frames payloads and \<open>wire.rs\<close> encodes envelopes.

  Theories, the code they model and what their lemmas show.

  \<^item> \<open>Hiway_Prelude\<close>: machine integers, \<open>Result\<close>, checked and saturating arithmetic, little-endian
    bytes, slices, runs of a step function; the generic lemmas the components share.
  \<^item> \<open>Hiway_Errors\<close> (\<open>error.rs\<close>), \<open>Hiway_Event\<close> (\<open>event.rs\<close>, \<open>metadata.rs\<close>: FNV-1a identities,
    delivery order, hop budget), \<open>Hiway_Schema\<close> (\<open>schema.rs\<close>: both validators against a declarative
    notion of compatibility), \<open>Hiway_Wire\<close> (\<open>wire.rs\<close>: the 70-byte header, field by field through
    the interface \<open>fixed_field\<close>; round trips in both directions).
  \<^item> \<open>Hiway_Frame\<close> (\<open>encode_frame\<close> of \<open>transport/mod.rs\<close>; codecs are the record \<open>wire_codec\<close>, and the
    interface \<open>lossless_codec\<close> is interpreted on the codec of \<open>examples/ipc_process.rs\<close>),
    \<open>Hiway_Operation\<close> (\<open>transport/operation.rs\<close>: slot reuse against what the kernel holds),
    \<open>Hiway_Accountability\<close> (\<open>transport/accountability.rs\<close>: the ring refines the interface
    \<open>bounded_fifo\<close>), \<open>Hiway_Protocol\<close> (\<open>transport/protocol.rs\<close>: every input and effect; an
    invariant under which no panic is reachable and no effect leaves its buffer), \<open>Hiway_Link\<close>
    (whole runs of the protocol: order of admissions, stop-and-wait, a session from codec to codec).
  \<^item> \<open>Hiway_Stream\<close>: the interface \<open>event_stream\<close>, the contract that \<open>local.rs\<close> documents for both
    kinds of stream, as laws on a ghost log; what a subscription receives tiles the log, is proved
    once inside it. \<open>Hiway_Static_Stream\<close> (the state behind the lock of \<open>local.rs\<close> and every operation on
    it) and \<open>Hiway_Dynamic_Properties\<close> interpret it.
  \<^item> \<open>Hiway_Static_Wait\<close> and \<open>Hiway_Static_Wakeup\<close> (\<open>local.rs\<close>: waiter slots, \<open>register\<close>, \<open>notify\<close>,
    \<open>poll_with\<close>, the futures and endpoint calls): each call is a task of atomic steps, and an
    invariant over all interleavings shows that no wakeup is lost and that \<open>maintain\<close> delivers the
    deferred ones in a bounded number of steps.
  \<^item> \<open>Hiway_Allowance\<close> (limits, rights, permissions), \<open>Hiway_Grant\<close> (nodes, pools, leases, derivation,
    charges, operations, marking), \<open>Hiway_Quota\<close> (the accounting invariant of the tree),
    \<open>Hiway_Grant_Machine\<close> (clients driving the tree through handles), \<open>Hiway_Grant_Properties\<close>
    (accounting, attenuation, revocation), \<open>Hiway_Revocation\<close> (enter, restrict and revoke as
    interleaved atomic steps on the state words and child lists; the cutoff that \<open>revoke\<close> waits for)
    and \<open>Hiway_Tree_Walk\<close> (the growing list of \<open>maintain_tree\<close>), all of \<open>grant.rs\<close> and \<open>resources.rs\<close>.
  \<^item> \<open>Hiway_Dynamic_Stream\<close> (one stream of \<open>alloc_local.rs\<close>: guard, retirement, reservation, commit,
    receive, maintenance), \<open>Hiway_Dynamic_Invariant\<close> (a stream is a window of its log and holds
    exactly the leases it accounts for), \<open>Hiway_Dynamic_Fabric\<close> (registry, endpoints, maintenance),
    \<open>Hiway_Dynamic_Machine\<close> (the invariant of a whole scope under every call) and
    \<open>Hiway_Dynamic_Properties\<close>.

  Conventions. A struct is a record, an enum a datatype, an array indexed by an enum a function of
  it, an identifier or sequence a word of its width; counters of type \<open>usize\<close> and \<open>u64\<close> that the code
  bounds are naturals, with overflow written out where the code checks it (\<open>checked_add\<close>,
  \<open>saturating_add\<close>) and shown impossible by the invariants elsewhere. An operation that can panic
  returns an option. Mutation through shared references becomes a state passed explicitly; handles
  into the grant tree are indices into its node table.

  Bounds and fuel. \<open>maintain_tree\<close> walks with the number of nodes of the tree as fuel, and
  \<open>maintain_tree_complete\<close> shows that the walk has ended by then. \<open>revoked_walk\<close> climbs at most that many
  parents, and a parent has a smaller index than its child. \<open>reserve_loop\<close> retries at most capacity
  plus one times, as the code does. Loops over slots and lanes recurse over the list the code iterates.

  Assumptions. Atomic operations interleave (sequential consistency); the orderings the code asks
  for are not weakened below that. \<open>AtomicWaker\<close> and the lock come from other crates: the waker cell is
  a parameter constrained by \<open>atomic_cell\<close>, the lock is a flag that is tried or awaited. Codecs are
  application code and a parameter.

  Not modelled. Formatting of errors; the procedural macros (compile-time code generation); the
  lock traits and re-exports; the transforms of \<open>transform.rs\<close> (closures around a receiver); the
  futures of \<open>DynamicSender::send\<close> and \<open>DynamicReceiver::recv\<close>; the loops of \<open>export\<close> and \<open>import\<close> in
  \<open>transport/mod.rs\<close> and the reservation of \<open>transport/grant.rs\<close>; the socket driver \<open>unix.rs\<close> and the
  ring driver of \<open>hiway-uring\<close>, whose links run the modelled protocol.
\<close>

end
